(* ===== verification/Prelude.thy ===== *)
theory Prelude
  imports Main "HOL-Library.Word" "HOL-Library.Multiset" "HOL-Library.Monad_Syntax"
begin

unbundle bit_operations_syntax

text \<open>
  Shared vocabulary of the development: the machine integers of the sources
  (\<^verbatim>\<open>uint8_t\<close> \dots \<^verbatim>\<open>uint64_t\<close>), the byte-order conversions of
  \<^verbatim>\<open>arpa/inet.h\<close> on a little-endian host, serial-number comparison as the
  code writes it (\<^verbatim>\<open>(int)(a - b) < 0\<close>), and generic lemmas on words, lists and
  one's-complement residues that the component theories use.
\<close>

type_synonym u8 = "8 word"
type_synonym u16 = "16 word"
type_synonym u32 = "32 word"
type_synonym u64 = "64 word"

named_theorems word_nat \<comment> \<open>moving word operations to natural numbers\<close>
named_theorems byte_order \<comment> \<open>laws of the byte-order conversions\<close>

subsection \<open>Words read as natural numbers\<close>

lemma unat_lt_u8 [simp]: "unat (x :: u8) < 256"
  using unsigned_less [of x] by simp

lemma unat_lt_u16 [simp]: "unat (x :: u16) < 65536"
  using unsigned_less [of x] by simp

lemma unat_lt_u32 [simp]: "unat (x :: u32) < 4294967296"
  using unsigned_less [of x] by simp

lemma unat_lt_u64 [simp]: "unat (x :: u64) < 18446744073709551616"
  using unsigned_less [of x] by simp

lemma unat_le_u16: "unat (x :: u16) \<le> 65535"
  using unat_lt_u16 [of x] by linarith

lemma u32_high_half_le: "unat (x :: u32) div 65536 \<le> 65535"
  using unat_lt_u32 [of x] by linarith

lemma u32_high_half_lt [simp]: "unat (x :: u32) div 65536 < 65536"
  using unat_lt_u32 [of x] by linarith

lemma unat_ucast_up [word_nat]:
  "LENGTH('a) \<le> LENGTH('b) \<Longrightarrow> unat (ucast (x :: 'a::len word) :: 'b::len word) = unat x"
  by (metis nat_less_le unsigned_ucast_eq take_bit_nat_eq_self unsigned_less power_increasing
      less_le_trans one_le_numeral)

lemma unat_ucast_u16_u32 [simp]: "unat (ucast (x :: u16) :: u32) = unat x"
  by (rule unat_ucast_up) simp

lemma unat_ucast_u8_u32 [simp]: "unat (ucast (x :: u8) :: u32) = unat x"
  by (rule unat_ucast_up) simp

lemma unat_ucast_u32_u64 [simp]: "unat (ucast (x :: u32) :: u64) = unat x"
  by (rule unat_ucast_up) simp

lemma unat_ucast_u16_u64 [simp]: "unat (ucast (x :: u16) :: u64) = unat x"
  by (rule unat_ucast_up) simp

lemma unat_ucast_u8_u64 [simp]: "unat (ucast (x :: u8) :: u64) = unat x"
  by (rule unat_ucast_up) simp

lemma unat_ucast_u32_u16 [word_nat]: "unat (ucast (x :: u32) :: u16) = unat x mod 65536"
  by (simp add: unsigned_ucast_eq take_bit_eq_mod)

lemma unat_ucast_u64_u32 [word_nat]: "unat (ucast (x :: u64) :: u32) = unat x mod 4294967296"
  by (simp add: unsigned_ucast_eq take_bit_eq_mod)

lemma unat_drop_bit [word_nat]: "unat (drop_bit n (x :: 'a::len word)) = unat x div 2 ^ n"
  by (simp add: unat_drop_bit_eq) (simp only: drop_bit_eq_div)

lemma unat_and_mask [word_nat]: "unat (x AND mask n :: 'a::len word) = unat x mod 2 ^ n"
  by (metis take_bit_eq_mask take_bit_eq_mod unsigned_take_bit_eq)

lemma and_ffff_mask: "(x :: u32) AND 0xffff = x AND mask 16"
  by (simp add: mask_eq_exp_minus_1)

lemma unat_and_ffff [word_nat]: "unat ((x :: u32) AND 0xffff) = unat x mod 65536"
  by (simp only: and_ffff_mask unat_and_mask) simp

lemma unat_add_nowrap:
  "unat x + unat y < 2 ^ LENGTH('a) \<Longrightarrow> unat (x + y :: 'a::len word) = unat x + unat y"
  by (simp add: unat_word_ariths)

lemma unat_add_u32_nowrap:
  "unat x + unat y < 4294967296 \<Longrightarrow> unat (x + y :: u32) = unat x + unat y"
  by (rule unat_add_nowrap) simp

lemma sint_of_int_small: "- (2 ^ 31) \<le> k \<Longrightarrow> k < 2 ^ 31 \<Longrightarrow> sint (of_int k :: u32) = k"
  by (simp add: signed_of_int signed_take_bit_int_eq_self)

lemma unat_dec_less: "(w :: 'a::len word) \<noteq> 0 \<Longrightarrow> unat (w - 1) < unat w"
  by (simp add: unat_minus_one unat_gt_0)

lemma unat_of_nat_small:
  "n < 2 ^ LENGTH('a) \<Longrightarrow> unat (of_nat n :: 'a::len word) = n"
  by (simp add: unat_of_nat)

lemma unat_not_u16 [word_nat]: "unat (NOT (x :: u16)) = 65535 - unat x"
proof -
  have "NOT x = - 1 - x" by (simp add: not_eq_complement)
  moreover have "unat (- 1 - x) = unat (- 1 :: u16) - unat x"
    by (rule unat_sub) simp
  moreover have "unat (- 1 :: u16) = 65535" by (simp add: unsigned_minus_1_eq_mask mask_eq_exp_minus_1)
  ultimately show ?thesis by simp
qed

subsection \<open>Byte order\<close>

text \<open>
  \<^verbatim>\<open>htons\<close>/\<^verbatim>\<open>ntohs\<close> and \<^verbatim>\<open>htonl\<close>/\<^verbatim>\<open>ntohl\<close> reverse the bytes of the
  value on a little-endian host; a multi-byte load from memory takes the lowest byte first.
\<close>

definition htons :: "u16 \<Rightarrow> u16" where
  "htons x = of_nat (unat x mod 256 * 256 + unat x div 256)"

definition htonl :: "u32 \<Rightarrow> u32" where
  "htonl x = of_nat (unat x mod 256 * 16777216 + unat x div 256 mod 256 * 65536
     + unat x div 65536 mod 256 * 256 + unat x div 16777216)"

abbreviation ntohs :: "u16 \<Rightarrow> u16" where "ntohs \<equiv> htons"
abbreviation ntohl :: "u32 \<Rightarrow> u32" where "ntohl \<equiv> htonl"

definition le16 :: "u8 \<Rightarrow> u8 \<Rightarrow> u16" where
  "le16 b0 b1 = of_nat (unat b0 + 256 * unat b1)"

fun le_nat :: "u8 list \<Rightarrow> nat" where
  "le_nat [] = 0"
| "le_nat (b # bs) = unat b + 256 * le_nat bs"

lemma le_nat_bound: "le_nat bs < 256 ^ length bs"
proof (induction bs)
  case (Cons b bs)
  have "unat b < 256" by simp
  moreover have "256 * (le_nat bs + 1) \<le> 256 * 256 ^ length bs"
    using Cons.IH by (intro mult_le_mono2) simp
  ultimately show ?case using unat_lt_u8 [of b] by (simp del: unat_lt_u8)
qed simp

lemma unat_htons [byte_order]: "unat (htons x) = unat x mod 256 * 256 + unat x div 256"
proof -
  have "unat x div 256 < 256" using unat_lt_u16 [of x] by linarith
  moreover have "unat x mod 256 < 256" by simp
  ultimately have "unat x mod 256 * 256 + unat x div 256 < 65536" by linarith
  then show ?thesis unfolding htons_def by (subst unat_of_nat_small) simp_all
qed

lemma unat_htonl [byte_order]:
  "unat (htonl x) = unat x mod 256 * 16777216 + unat x div 256 mod 256 * 65536
     + unat x div 65536 mod 256 * 256 + unat x div 16777216" (is "_ = ?r")
proof -
  have "unat x div 16777216 < 256" using unat_lt_u32 [of x] by linarith
  moreover have "unat x mod 256 < 256" "unat x div 256 mod 256 < 256"
    "unat x div 65536 mod 256 < 256" by simp_all
  ultimately have "?r < 4294967296" by linarith
  then show ?thesis unfolding htonl_def by (subst unat_of_nat_small) simp_all
qed

lemma swap16_swap: 
  fixes n :: nat
  assumes "n < 65536" and "m = n mod 256 * 256 + n div 256"
  shows "m mod 256 * 256 + m div 256 = n"
proof -
  have "n div 256 < 256" using assms(1) by linarith
  then have "m mod 256 = n div 256" "m div 256 = n mod 256" using assms(2) by simp_all
  then show ?thesis by simp
qed

lemma htons_htons [simp, byte_order]: "htons (htons x) = x"
  by (rule word_unat_eq_iff [THEN iffD2], subst unat_htons, rule swap16_swap [of "unat x"])
    (simp_all add: unat_htons)

lemma low_digit: "(x :: nat) < 256 \<Longrightarrow> (x + 256 * y) mod 256 = x \<and> (x + 256 * y) div 256 = y"
  by simp

lemma swap32_swap:
  fixes n :: nat
  assumes "n < 4294967296"
    and m: "m = n mod 256 * 16777216 + n div 256 mod 256 * 65536 + n div 65536 mod 256 * 256 + n div 16777216"
  shows "m mod 256 * 16777216 + m div 256 mod 256 * 65536 + m div 65536 mod 256 * 256 + m div 16777216 = n"
proof -
  define a b c d where abcd: "a = n mod 256" "b = n div 256 mod 256" "c = n div 65536 mod 256"
    "d = n div 16777216"
  have lt: "a < 256" "b < 256" "c < 256" "d < 256" using assms(1) unfolding abcd by auto
  have n: "n = a + 256 * b + 65536 * c + 16777216 * d"
  proof -
    have "n div 65536 = n div 256 div 256" "n div 16777216 = n div 65536 div 256"
      by (simp_all flip: div_mult2_eq)
    then have "n = a + 256 * (n div 256)" "n div 256 = b + 256 * (n div 65536)"
      "n div 65536 = c + 256 * d" unfolding abcd by simp_all
    then show ?thesis by simp
  qed
  have m': "m = d + 256 * (c + 256 * (b + 256 * a))" using m abcd by simp
  have 1: "m mod 256 = d" "m div 256 = c + 256 * (b + 256 * a)"
    using low_digit [OF lt(4)] unfolding m' by blast+
  have "m div 65536 = m div 256 div 256" "m div 16777216 = m div 256 div 256 div 256"
    by (simp_all flip: div_mult2_eq)
  then have 2: "m div 65536 = b + 256 * a" "m div 16777216 = a" using lt 1 low_digit by simp_all
  have "m div 256 mod 256 = c" "m div 65536 mod 256 = b"
    using low_digit [OF lt(3)] low_digit [OF lt(2)] unfolding 1 2 by blast+
  then show ?thesis using n 1(1) 2(2) by simp
qed

lemma htonl_htonl [simp, byte_order]: "htonl (htonl x) = x"
  by (rule word_unat_eq_iff [THEN iffD2], subst unat_htonl, rule swap32_swap [of "unat x"])
    (simp_all add: unat_htonl)

lemma htons_eq_iff [simp]: "htons x = htons y \<longleftrightarrow> x = y"
  by (metis htons_htons)

lemma htonl_eq_iff [simp]: "htonl x = htonl y \<longleftrightarrow> x = y"
  by (metis htonl_htonl)

subsection \<open>Arrays\<close>

text \<open>
  A C array is a list of fixed length. Reading or writing outside of it is undefined
  behaviour in the sources and the value \<open>None\<close> here, so that a result \<open>Some\<close> also
  says that every access was in range.
\<close>

definition arr_get :: "'a list \<Rightarrow> nat \<Rightarrow> 'a option" where
  "arr_get xs i = (if i < length xs then Some (xs ! i) else None)"

definition arr_set :: "'a list \<Rightarrow> nat \<Rightarrow> 'a \<Rightarrow> 'a list option" where
  "arr_set xs i v = (if i < length xs then Some (xs[i := v]) else None)"

lemma arr_get_Some [simp]: "arr_get xs i = Some x \<longleftrightarrow> i < length xs \<and> xs ! i = x"
  by (auto simp: arr_get_def)

lemma arr_set_Some [simp]: "arr_set xs i v = Some ys \<longleftrightarrow> i < length xs \<and> xs[i := v] = ys"
  by (auto simp: arr_set_def)

lemma arr_get_in [simp]: "i < length xs \<Longrightarrow> arr_get xs i = Some (xs ! i)"
  by (simp add: arr_get_def)

lemma arr_set_in [simp]: "i < length xs \<Longrightarrow> arr_set xs i v = Some (xs[i := v])"
  by (simp add: arr_set_def)

lemma filter_mset_update:
  assumes "i < length xs"
  shows "filter_mset P (mset (xs[i := v])) + (if P (xs ! i) then {#xs ! i#} else {#})
    = filter_mset P (mset xs) + (if P v then {#v#} else {#})"
proof -
  have "xs ! i \<in># mset xs" using assms by simp
  then obtain M where M: "mset xs = add_mset (xs ! i) M" by (meson mset_add)
  then show ?thesis using assms by (simp add: mset_update)
qed

lemma size_filter_block:
  assumes "b \<le> length xs" and "\<forall>q. a \<le> q \<and> q < b \<longrightarrow> P (xs ! q)"
  shows "b - a \<le> size (filter_mset P (mset xs))"
proof -
  let ?ys = "take (b - a) (drop a xs)"
  have "\<forall>y \<in> set ?ys. P y"
    using assms by (auto simp: in_set_conv_nth)
  then have "filter P ?ys = ?ys" by simp
  have "xs = take a xs @ ?ys @ drop (b - a) (drop a xs)"
    by (simp only: append_take_drop_id)
  then have "length (filter P ?ys) \<le> length (filter P xs)"
    by (metis filter_append length_append le_add1 le_add2 le_trans)
  then have "length ?ys \<le> length (filter P xs)" using \<open>filter P ?ys = ?ys\<close> by simp
  moreover have "length ?ys = b - a" using assms(1) by simp
  ultimately show ?thesis by (metis mset_filter size_mset)
qed


lemma distinct_map_filterI:
  assumes "\<And>i j. i < j \<Longrightarrow> j < length xs \<Longrightarrow> P (xs ! i) \<Longrightarrow> P (xs ! j) \<Longrightarrow> f (xs ! i) \<noteq> f (xs ! j)"
  shows "distinct (map f (filter P xs))"
  using assms
proof (induction xs)
  case (Cons x xs)
  have "distinct (map f (filter P xs))"
    using Cons.prems by (intro Cons.IH) (metis length_Cons nth_Cons_Suc Suc_less_eq)
  moreover have "f x \<notin> f ` {y \<in> set xs. P y}" if "P x"
  proof
    assume "f x \<in> f ` {y \<in> set xs. P y}"
    then obtain j where "j < length xs" "P (xs ! j)" "f x = f (xs ! j)" by (auto simp: in_set_conv_nth)
    then show False using Cons.prems [of 0 "Suc j"] that by simp
  qed
  ultimately show ?case by auto
qed simp


lemma option_ext: "(\<And>v. x = Some v \<longleftrightarrow> y = Some v) \<Longrightarrow> x = y"
  by (cases x; cases y) auto

end
