(* ===== verification/Config.thy ===== *)
theory Config
  imports Prelude
begin

text \<open>
  The compile-time configuration \<^verbatim>\<open>Conf\<close> that every class template of
  \<^verbatim>\<open>efvitcp\<close> takes: its constants as a record, the two instances the wrapper
  classes of \<^verbatim>\<open>efvitcp/EfviTcp.h\<close> use, and the sizes \<^verbatim>\<open>Core\<close> derives from it.
\<close>

record Conf =
  ConnSendBufCnt :: u32
  SendBuf1K :: bool
  ConnRecvBufSize :: u32
  MaxConnCnt :: u32
  MaxTimeWaitConnCnt :: u32
  RecvBufCnt :: u32
  SynRetries :: u32
  TcpRetries :: u32
  DelayedAckMS :: u32
  MinRtoMS :: u32
  MaxRtoMS :: u32
  WindowScaleOption :: bool
  TimestampOption :: bool
  CongestionControlAlgo :: int
  UserTimerCnt :: u32

text \<open>\<^verbatim>\<open>EfviTcpClient::ClientConf\<close> and \<^verbatim>\<open>EfviTcpServer::ServerConf\<close>.\<close>

definition ClientConf :: "u32 \<Rightarrow> Conf" where
  "ClientConf RecvBufSize =
     \<lparr>ConnSendBufCnt = 1024, SendBuf1K = True, ConnRecvBufSize = RecvBufSize, MaxConnCnt = 1,
      MaxTimeWaitConnCnt = 1, RecvBufCnt = 512, SynRetries = 3, TcpRetries = 10, DelayedAckMS = 10,
      MinRtoMS = 100, MaxRtoMS = 30 * 1000, WindowScaleOption = False, TimestampOption = False,
      CongestionControlAlgo = 0, UserTimerCnt = 2\<rparr>"

definition ServerConf :: "u32 \<Rightarrow> u32 \<Rightarrow> Conf" where
  "ServerConf RecvBufSize MaxConns =
     \<lparr>ConnSendBufCnt = 1024, SendBuf1K = True, ConnRecvBufSize = RecvBufSize, MaxConnCnt = MaxConns,
      MaxTimeWaitConnCnt = MaxConns, RecvBufCnt = 512, SynRetries = 3, TcpRetries = 10, DelayedAckMS = 10,
      MinRtoMS = 100, MaxRtoMS = 30 * 1000, WindowScaleOption = False, TimestampOption = False,
      CongestionControlAlgo = 0, UserTimerCnt = 2\<rparr>"

subsection \<open>Sizes of the connection table\<close>

function getMSB :: "u32 \<Rightarrow> nat" where
  "getMSB n = (if n = 0 then 0 else getMSB (drop_bit 1 n) + 1)"
  by pat_completeness auto
termination
  by (relation "measure unat") (auto simp: unat_drop_bit unat_gt_0)

declare getMSB.simps [simp del]

definition MaxTableSize :: "Conf \<Rightarrow> u32" where
  "MaxTableSize cf = push_bit (1 + getMSB (MaxConnCnt cf + MaxTimeWaitConnCnt cf)) 1"

definition TotalTableSize :: "Conf \<Rightarrow> u32" where
  "TotalTableSize cf = MaxTableSize cf + MaxConnCnt cf + MaxTimeWaitConnCnt cf"

lemma getMSB_bounds: "unat n < 2 ^ getMSB n \<and> (n \<noteq> 0 \<longrightarrow> 2 ^ getMSB n \<le> 2 * unat n)"
proof (induction n rule: getMSB.induct)
  case (1 n)
  show ?case
  proof (cases "n = 0")
    case False
    define m where "m = drop_bit 1 n"
    have m: "unat m = unat n div 2" by (simp add: m_def unat_drop_bit)
    have IH: "unat m < 2 ^ getMSB m" "m \<noteq> 0 \<longrightarrow> 2 ^ getMSB m \<le> 2 * unat m"
      using 1 False by (auto simp: m_def)
    have eq: "getMSB n = getMSB m + 1" using False by (simp add: getMSB.simps [of n] m_def)
    show ?thesis
    proof (cases "m = 0")
      case True
      then have "unat n < 2" "0 < unat n" using m False by (auto simp: unat_gt_0 div_eq_0_iff)
      then show ?thesis using eq True by (simp add: getMSB.simps [of 0])
    next
      case False
      then have "2 * unat m < 2 * 2 ^ getMSB m" "2 * 2 ^ getMSB m \<le> 2 * (2 * unat m)" using IH by auto
      then show ?thesis using m eq by auto
    qed
  qed (simp add: getMSB.simps)
qed

lemma unat_pow2_u32: "k < 32 \<Longrightarrow> unat (push_bit k (1 :: u32)) = 2 ^ k"
proof -
  assume k: "k < 32"
  then have "(2 :: nat) ^ k < 2 ^ 32" by (rule power_strict_increasing) simp
  then have "unat (of_nat (2 ^ k) :: u32) = 2 ^ k" by (intro unat_of_nat_small) simp
  moreover have "push_bit k (1 :: u32) = of_nat (2 ^ k)" by (simp add: push_bit_eq_mult)
  ultimately show ?thesis by (simp only:)
qed

text \<open>A configuration whose tables fit: at most \<open>2 ^ 29\<close> connections of both kinds.\<close>

definition conf_ok :: "Conf \<Rightarrow> bool" where
  "conf_ok cf \<longleftrightarrow> 0 < unat (MaxConnCnt cf)
     \<and> unat (MaxConnCnt cf) + unat (MaxTimeWaitConnCnt cf) \<le> 2 ^ 29"

abbreviation max_entries :: "Conf \<Rightarrow> nat" where
  "max_entries cf \<equiv> unat (MaxConnCnt cf) + unat (MaxTimeWaitConnCnt cf)"

lemma unat_max_entries: "conf_ok cf \<Longrightarrow> unat (MaxConnCnt cf + MaxTimeWaitConnCnt cf) = max_entries cf"
  by (intro unat_add_u32_nowrap) (simp add: conf_ok_def)

lemma unat_MaxTableSize:
  assumes "conf_ok cf"
  shows "unat (MaxTableSize cf) = 2 ^ (1 + getMSB (MaxConnCnt cf + MaxTimeWaitConnCnt cf))"
    and "2 * max_entries cf < unat (MaxTableSize cf)"
    and "unat (MaxTableSize cf) \<le> 4 * max_entries cf"
proof -
  let ?n = "max_entries cf" and ?w = "MaxConnCnt cf + MaxTimeWaitConnCnt cf"
  have w: "unat ?w = ?n" using assms by (rule unat_max_entries)
  then have "?w \<noteq> 0" using assms by (auto simp: conf_ok_def simp flip: unat_eq_0)
  then have b: "?n < 2 ^ getMSB ?w" "2 ^ getMSB ?w \<le> 2 * ?n" "?n \<le> 2 ^ 29"
    using getMSB_bounds [of ?w] w assms by (auto simp: conf_ok_def)
  then have "(2 :: nat) ^ getMSB ?w \<le> 2 ^ 30" by simp
  then have "getMSB ?w \<le> 30" by (rule power_le_imp_le_exp [rotated]) simp
  then show 1: "unat (MaxTableSize cf) = 2 ^ (1 + getMSB ?w)"
    unfolding MaxTableSize_def by (intro unat_pow2_u32) simp
  show "2 * ?n < unat (MaxTableSize cf)" "unat (MaxTableSize cf) \<le> 4 * ?n"
    using b unfolding 1 by simp_all
qed

lemma unat_TotalTableSize:
  assumes "conf_ok cf"
  shows "unat (TotalTableSize cf) = unat (MaxTableSize cf) + max_entries cf"
proof -
  have "unat (MaxTableSize cf) \<le> 4 * max_entries cf" "max_entries cf \<le> 2 ^ 29"
    using unat_MaxTableSize(3) [OF assms] assms by (auto simp: conf_ok_def)
  then show ?thesis unfolding TotalTableSize_def by (simp add: unat_add_u32_nowrap)
qed

end
