(* ===== verification/ConnTable.thy ===== *)
theory ConnTable
  imports Config
begin

text \<open>
  The connection table of \<^verbatim>\<open>efvitcp/Core.h\<close>: an ordered hash table from remote
  addresses to connection ids, open addressing without wrap-around (the array is longer than
  the hash range), and the two id pools that go with it.
\<close>

definition EmptyKey :: u64 where
  "EmptyKey = push_bit 63 1"

definition connHashKey :: "u32 \<Rightarrow> u16 \<Rightarrow> u64" where
  "connHashKey ip port =
     (let key = ucast (ntohl ip) :: u64;
          p = ucast (ntohs port) :: u64
      in push_bit 15 key OR (p AND 0x7fff) OR push_bit 32 (p AND 0x8000))"

record ConnHashEntry =
  key :: u64
  conn_id :: u32

text \<open>The part of \<^verbatim>\<open>Core\<close> that the table operations read and write.\<close>

record ConnTbl =
  conn_cnt :: u32
  conns :: "u32 list"
  tw_cnt :: u32
  tw_ids :: "u32 list"
  tbl_mask :: u64
  conn_tbl :: "ConnHashEntry list"

subsection \<open>Searching\<close>

text \<open>A pointer into \<^verbatim>\<open>conn_tbl\<close> is its index.\<close>

abbreviation home :: "u64 \<Rightarrow> u64 \<Rightarrow> nat" where
  "home msk k \<equiv> unat (k AND msk)"

function scan :: "ConnHashEntry list \<Rightarrow> u64 \<Rightarrow> nat \<Rightarrow> nat option" where
  "scan tbl k entry =
     (if entry < length tbl then
        if key (tbl ! entry) < k then scan tbl k (Suc entry) else Some entry
      else None)"
  by pat_completeness auto
termination
  by (relation "measure (\<lambda>(tbl, k, entry). length tbl - entry)") auto

declare scan.simps [simp del]

definition findConnEntry :: "'a ConnTbl_scheme \<Rightarrow> u64 \<Rightarrow> nat option" where
  "findConnEntry c k = scan (conn_tbl c) k (home (tbl_mask c) k)"

definition getTblSize :: "'a ConnTbl_scheme \<Rightarrow> u32" where
  "getTblSize c = conn_cnt c + tw_cnt c"

lemma scan_Some:
  "scan t k i = Some j \<Longrightarrow>
   i \<le> j \<and> j < length t \<and> k \<le> key (t ! j) \<and> (\<forall>q. i \<le> q \<and> q < j \<longrightarrow> key (t ! q) < k)"
proof (induction t k i rule: scan.induct)
  case (1 t k i)
  show ?case
  proof (cases "i < length t \<and> key (t ! i) < k")
    case True
    then have "Suc i \<le> j \<and> j < length t \<and> k \<le> key (t ! j) \<and> (\<forall>q. Suc i \<le> q \<and> q < j \<longrightarrow> key (t ! q) < k)"
      using 1 by (simp add: scan.simps [of t k i])
    then show ?thesis using True by (metis Suc_leI Suc_le_lessD le_eq_less_or_eq le_less_trans)
  next
    case False
    then show ?thesis using 1(2) by (auto simp: scan.simps [of t k i] split: if_splits)
  qed
qed

lemma scan_None: "scan t k i = None \<Longrightarrow> i \<le> q \<Longrightarrow> q < length t \<Longrightarrow> key (t ! q) < k"
proof (induction t k i rule: scan.induct)
  case (1 t k i)
  then have i: "i < length t" "key (t ! i) < k" by (auto simp: scan.simps [of t k i] split: if_splits)
  then show ?case using 1 by (cases "q = i") (auto simp: scan.simps [of t k i])
qed

lemma scan_eqI:
  assumes "i \<le> j" "j < length t" "k \<le> key (t ! j)" "\<forall>q. i \<le> q \<and> q < j \<longrightarrow> key (t ! q) < k"
  shows "scan t k i = Some j"
proof (cases "scan t k i")
  case None
  then show ?thesis using scan_None [OF None assms(1,2)] assms(3) by simp
next
  case (Some j')
  then show ?thesis using scan_Some [OF Some] assms by (metis leD linorder_neqE_nat)
qed

subsection \<open>Insertion\<close>

function addLoop :: "ConnHashEntry list \<Rightarrow> nat \<Rightarrow> u64 \<Rightarrow> u32 \<Rightarrow> ConnHashEntry list option" where
  "addLoop tbl entry k cid =
     (if entry < length tbl then
        if key (tbl ! entry) \<noteq> EmptyKey then
          let old = tbl ! entry;
              tbl' = tbl[entry := \<lparr>key = k, conn_id = cid\<rparr>]
          in case scan tbl' (key old) (Suc entry) of
               None \<Rightarrow> None
             | Some entry' \<Rightarrow> addLoop tbl' entry' (key old) (conn_id old)
        else Some (tbl[entry := \<lparr>key = k, conn_id = cid\<rparr>])
      else None)"
  by pat_completeness auto
termination
proof (relation "measure (\<lambda>(tbl, entry, k, cid). length tbl - entry)", goal_cases)
  case (2 tbl entry k cid old tbl' entry')
  then show ?case using scan_Some [of tbl' "key old" "Suc entry" entry'] by auto
qed simp

declare addLoop.simps [simp del]

subsection \<open>Growing the table\<close>

text \<open>The entries stored past the mask move behind the new mask.\<close>

function moveOverflow ::
  "ConnHashEntry list \<Rightarrow> nat \<Rightarrow> nat \<Rightarrow> (ConnHashEntry list \<times> nat) option" where
  "moveOverflow tbl from to =
     (if from < length tbl then
        if key (tbl ! from) \<noteq> EmptyKey then
          if to < length tbl then
            moveOverflow (tbl[from := tbl ! to, to := tbl ! from]) (Suc from) (Suc to)
          else None
        else Some (tbl, to)
      else None)"
  by pat_completeness auto
termination
  by (relation "measure (\<lambda>(tbl, from, to). length tbl - from)") auto

declare moveOverflow.simps [simp del]

text \<open>
  The lambda \<^verbatim>\<open>rehash\<close>: every occupied entry from \<open>entry\<close> on moves to where a search
  for its key under the new mask ends, until \<open>cnt\<close> entries have moved.
\<close>

function rehash :: "ConnHashEntry list \<Rightarrow> u64 \<Rightarrow> nat \<Rightarrow> u64 \<Rightarrow> ConnHashEntry list option" where
  "rehash tbl msk entry cnt =
     (if cnt = 0 then Some tbl
      else if entry < length tbl then
        if key (tbl ! entry) = EmptyKey then rehash tbl msk (Suc entry) cnt
        else case scan tbl (key (tbl ! entry)) (home msk (key (tbl ! entry))) of
               None \<Rightarrow> None
             | Some new_entry \<Rightarrow>
                 let k = key (tbl ! entry);
                     tbl1 = tbl[entry := (tbl ! entry)\<lparr>key := key (tbl ! new_entry)\<rparr>];
                     tbl2 = tbl1[new_entry := (tbl1 ! new_entry)\<lparr>key := k\<rparr>];
                     tbl3 = tbl2[new_entry := (tbl2 ! new_entry)\<lparr>conn_id := conn_id (tbl2 ! entry)\<rparr>]
                 in rehash tbl3 msk (Suc entry) (cnt - 1)
      else None)"
  by pat_completeness auto
termination
  by (relation "measure (\<lambda>(tbl, mask, entry, cnt). length tbl - entry)") auto

declare rehash.simps [simp del]

definition tryExpandConnTbl :: "'a ConnTbl_scheme \<Rightarrow> 'a ConnTbl_scheme option" where
  "tryExpandConnTbl c =
     (if ucast (getTblSize c * 2) \<le> tbl_mask c then Some c
      else
        let end = unat (tbl_mask c) + 1;
            c = c\<lparr>tbl_mask := tbl_mask c * 2 + 1\<rparr>;
            new_end = unat (tbl_mask c) + 1
        in do {
          (tbl, new_end') \<leftarrow> moveOverflow (conn_tbl c) end new_end;
          let end_cnt = (of_nat (new_end' - new_end) :: u64);
          tbl \<leftarrow> rehash tbl (tbl_mask c) 0 (ucast (getTblSize c) - end_cnt);
          tbl \<leftarrow> rehash tbl (tbl_mask c) new_end end_cnt;
          Some (c\<lparr>conn_tbl := tbl\<rparr>)
        })"

definition addConnEntry :: "nat \<Rightarrow> u64 \<Rightarrow> u32 \<Rightarrow> 'a ConnTbl_scheme \<Rightarrow> 'a ConnTbl_scheme option" where
  "addConnEntry entry k cid c = do {
     tbl \<leftarrow> addLoop (conn_tbl c) entry k cid;
     tryExpandConnTbl (c\<lparr>conn_tbl := tbl\<rparr>)
   }"

subsection \<open>Deletion\<close>

text \<open>The next entry after \<open>entry\<close> whose home is not behind it.\<close>

function nextMovable :: "ConnHashEntry list \<Rightarrow> u64 \<Rightarrow> nat \<Rightarrow> nat \<Rightarrow> nat option" where
  "nextMovable tbl msk entry nxt =
     (if nxt < length tbl then
        if entry < home msk (key (tbl ! nxt)) then nextMovable tbl msk entry (Suc nxt) else Some nxt
      else None)"
  by pat_completeness auto
termination
  by (relation "measure (\<lambda>(tbl, mask, entry, nxt). length tbl - nxt)") auto

declare nextMovable.simps [simp del]

lemma nextMovable_Some:
  "nextMovable t msk e n = Some j \<Longrightarrow>
   n \<le> j \<and> j < length t \<and> home msk (key (t ! j)) \<le> e
   \<and> (\<forall>q. n \<le> q \<and> q < j \<longrightarrow> e < home msk (key (t ! q)))"
proof (induction t msk e n rule: nextMovable.induct)
  case (1 t msk e n)
  show ?case
  proof (cases "n < length t \<and> e < home msk (key (t ! n))")
    case True
    then have "Suc n \<le> j \<and> j < length t \<and> home msk (key (t ! j)) \<le> e
        \<and> (\<forall>q. Suc n \<le> q \<and> q < j \<longrightarrow> e < home msk (key (t ! q)))"
      using 1 by (simp add: nextMovable.simps [of t msk e n])
    then show ?thesis using True by (metis Suc_leI Suc_le_lessD le_eq_less_or_eq le_less_trans)
  next
    case False
    then show ?thesis using 1(2) by (auto simp: nextMovable.simps [of t msk e n] split: if_splits)
  qed
qed

lemma nextMovable_None:
  "nextMovable t msk e n = None \<Longrightarrow> n \<le> q \<Longrightarrow> q < length t \<Longrightarrow> e < home msk (key (t ! q))"
proof (induction t msk e n rule: nextMovable.induct)
  case (1 t msk e n)
  then have i: "n < length t" "e < home msk (key (t ! n))"
    by (auto simp: nextMovable.simps [of t msk e n] split: if_splits)
  then show ?case using 1 by (cases "q = n") (auto simp: nextMovable.simps [of t msk e n])
qed

function delLoop :: "ConnHashEntry list \<Rightarrow> u64 \<Rightarrow> nat \<Rightarrow> ConnHashEntry list option" where
  "delLoop tbl msk entry =
     (if entry < length tbl then
        case nextMovable tbl msk entry (Suc entry) of
          None \<Rightarrow> None
        | Some nxt \<Rightarrow>
            if key (tbl ! nxt) = EmptyKey then Some (tbl[entry := (tbl ! entry)\<lparr>key := EmptyKey\<rparr>])
            else delLoop (tbl[entry := tbl ! nxt]) msk nxt
      else None)"
  by pat_completeness auto
termination
proof (relation "measure (\<lambda>(tbl, mask, entry). length tbl - entry)", goal_cases)
  case (2 tbl msk entry nxt)
  then show ?case using nextMovable_Some [of tbl msk entry "Suc entry" nxt] by auto
qed simp

declare delLoop.simps [simp del]

definition delConnEntry :: "Conf \<Rightarrow> u64 \<Rightarrow> 'a ConnTbl_scheme \<Rightarrow> 'a ConnTbl_scheme option" where
  "delConnEntry cf k c = do {
     entry \<leftarrow> findConnEntry c k;
     e \<leftarrow> arr_get (conn_tbl c) entry;
     c \<leftarrow> (if conn_id e < MaxConnCnt cf then do {
              let n = conn_cnt c - 1;
              ids \<leftarrow> arr_set (conns c) (unat n) (conn_id e);
              Some (c\<lparr>conn_cnt := n, conns := ids\<rparr>)
            } else do {
              let n = tw_cnt c - 1;
              ids \<leftarrow> arr_set (tw_ids c) (unat n) (conn_id e - MaxConnCnt cf);
              Some (c\<lparr>tw_cnt := n, tw_ids := ids\<rparr>)
            });
     tbl \<leftarrow> delLoop (conn_tbl c) (tbl_mask c) entry;
     Some (c\<lparr>conn_tbl := tbl\<rparr>)
   }"

subsection \<open>The table invariant\<close>

text \<open>
  Ordered open addressing: every key sits at or after its home, and every slot between its
  home and its position holds a smaller key. The empty key is larger than every real key, so
  such a run has no gap.
\<close>

definition occ :: "ConnHashEntry list \<Rightarrow> nat \<Rightarrow> bool" where
  "occ t p \<longleftrightarrow> p < length t \<and> key (t ! p) \<noteq> EmptyKey"

definition tbl_inv :: "u64 \<Rightarrow> ConnHashEntry list \<Rightarrow> bool" where
  "tbl_inv m t \<longleftrightarrow>
     (\<forall>p < length t. key (t ! p) \<le> EmptyKey) \<and>
     (\<forall>p. occ t p \<longrightarrow> home m (key (t ! p)) \<le> p
        \<and> (\<forall>q. home m (key (t ! p)) \<le> q \<and> q < p \<longrightarrow> key (t ! q) < key (t ! p)))"

text \<open>The entries stored, as a multiset, and the map they represent.\<close>

definition content :: "ConnHashEntry list \<Rightarrow> ConnHashEntry multiset" where
  "content t = filter_mset (\<lambda>e. key e \<noteq> EmptyKey) (mset t)"

definition tbl_map :: "ConnHashEntry list \<Rightarrow> u64 \<rightharpoonup> u32" where
  "tbl_map t k = map_option conn_id (find (\<lambda>e. key e = k \<and> key e \<noteq> EmptyKey) t)"

definition roomy :: "u64 \<Rightarrow> ConnHashEntry list \<Rightarrow> bool" where
  "roomy m t \<longleftrightarrow> unat m + size (content t) < length t"

lemma home_le: "home m k \<le> unat m"
  using word_and_le1 [of k m] by (simp add: word_le_nat_alt)

lemma home_EmptyKey: "m < EmptyKey \<Longrightarrow> home m EmptyKey = 0"
proof -
  assume "m < EmptyKey"
  then have "unat m < 2 ^ 63" by (simp add: EmptyKey_def word_less_nat_alt)
  then have "\<not> bit (unat m) 63" by (simp add: bit_iff_odd)
  then have "\<not> bit m 63" by (simp add: bit_unsigned_iff)
  moreover have "bit EmptyKey n \<Longrightarrow> n = 63" for n
    unfolding EmptyKey_def by (simp only: bit_push_bit_iff bit_1_iff) simp
  ultimately have "EmptyKey AND m = 0" by (intro bit_eqI) (auto simp: bit_and_iff)
  then show ?thesis by simp
qed

lemma tbl_invD:
  assumes "tbl_inv m t" "occ t p"
  shows "home m (key (t ! p)) \<le> p" "home m (key (t ! p)) \<le> q \<Longrightarrow> q < p \<Longrightarrow> key (t ! q) < key (t ! p)"
    "key (t ! p) < EmptyKey"
  using assms by (auto simp: tbl_inv_def occ_def order_less_le)

lemma occ_iff_less: "tbl_inv m t \<Longrightarrow> p < length t \<Longrightarrow> occ t p \<longleftrightarrow> key (t ! p) < EmptyKey"
  by (auto simp: tbl_inv_def occ_def order_less_le)

lemma occ_run: "tbl_inv m t \<Longrightarrow> occ t p \<Longrightarrow> home m (key (t ! p)) \<le> q \<Longrightarrow> q \<le> p \<Longrightarrow> occ t q"
proof (cases "q = p")
  case False
  assume a: "tbl_inv m t" "occ t p" "home m (key (t ! p)) \<le> q" "q \<le> p"
  then have "key (t ! q) < EmptyKey" using tbl_invD [OF a(1,2)] False by (meson le_neq_implies_less less_trans)
  then show ?thesis using a by (auto simp: occ_def)
qed simp

lemma keys_distinct:
  assumes "tbl_inv m t" "occ t p" "occ t q" "key (t ! p) = key (t ! q)"
  shows "p = q"
proof (rule ccontr)
  assume "p \<noteq> q"
  then have "p < q \<or> q < p" by linarith
  then show False
    using tbl_invD [OF assms(1,2)] tbl_invD [OF assms(1,3)] assms(4) by (metis less_irrefl)
qed

lemma occ_block_le:
  assumes "b \<le> length t" "\<forall>q. a \<le> q \<and> q < b \<longrightarrow> occ t q"
  shows "b - a \<le> size (content t)"
  unfolding content_def using assms by (intro size_filter_block) (auto simp: occ_def)

lemma content_update:
  assumes "i < length t"
  shows "content (t[i := v]) + (if occ t i then {#t ! i#} else {#})
    = content t + (if key v \<noteq> EmptyKey then {#v#} else {#})"
  using filter_mset_update [OF assms, of "\<lambda>e. key e \<noteq> EmptyKey" v] assms
  by (simp add: content_def occ_def)

lemma in_content_iff: "e \<in># content t \<longleftrightarrow> (\<exists>p. occ t p \<and> t ! p = e)"
  by (auto simp: content_def occ_def in_set_conv_nth)

lemma tbl_map_iff:
  assumes inv: "tbl_inv m t"
  shows "tbl_map t k = Some c \<longleftrightarrow> (\<exists>p. occ t p \<and> key (t ! p) = k \<and> conn_id (t ! p) = c)"
proof
  assume "tbl_map t k = Some c"
  then obtain e where "find (\<lambda>e. key e = k \<and> key e \<noteq> EmptyKey) t = Some e" "conn_id e = c"
    by (auto simp: tbl_map_def)
  then show "\<exists>p. occ t p \<and> key (t ! p) = k \<and> conn_id (t ! p) = c"
    by (auto simp: find_Some_iff occ_def)
next
  assume "\<exists>p. occ t p \<and> key (t ! p) = k \<and> conn_id (t ! p) = c"
  then obtain p where p: "occ t p" "key (t ! p) = k" "conn_id (t ! p) = c" by blast
  have "\<forall>j < p. \<not> (key (t ! j) = k \<and> key (t ! j) \<noteq> EmptyKey)"
  proof (intro allI impI notI)
    fix j assume "j < p" "key (t ! j) = k \<and> key (t ! j) \<noteq> EmptyKey"
    moreover from this p(1) have "occ t j" by (auto simp: occ_def)
    ultimately show False using keys_distinct [OF inv p(1), of j] p(2) by simp
  qed
  then have "find (\<lambda>e. key e = k \<and> key e \<noteq> EmptyKey) t = Some (t ! p)"
    unfolding find_Some_iff using p(1,2) by (metis occ_def)
  then show "tbl_map t k = Some c" using p by (simp add: tbl_map_def)
qed

lemma tbl_map_content:
  assumes "tbl_inv m t"
  shows "tbl_map t k = Some c \<longleftrightarrow> \<lparr>key = k, conn_id = c\<rparr> \<in># content t"
proof -
  have "key e = k \<and> conn_id e = c \<longleftrightarrow> e = \<lparr>key = k, conn_id = c\<rparr>" for e :: ConnHashEntry
    by (cases e) auto
  then show ?thesis unfolding tbl_map_iff [OF assms] in_content_iff by blast
qed

subsection \<open>Searching finds what is stored\<close>

lemma scan_total:
  assumes inv: "tbl_inv m t" and "roomy m t" "k \<le> EmptyKey" "i \<le> unat m"
  shows "\<exists>j. scan t k i = Some j"
proof (rule ccontr)
  assume "\<nexists>j. scan t k i = Some j"
  then have "scan t k i = None" by simp
  then have "\<forall>q. i \<le> q \<and> q < length t \<longrightarrow> occ t q"
    using scan_None [of t k i] assms(3) occ_iff_less [OF inv] by (meson order_less_le_trans)
  then have "length t - i \<le> size (content t)" by (intro occ_block_le) simp_all
  then show False using assms(2,4) by (simp add: roomy_def)
qed

lemma find_present:
  assumes "tbl_inv m t" "occ t p"
  shows "scan t (key (t ! p)) (home m (key (t ! p))) = Some p"
  using tbl_invD [OF assms] assms(2) by (intro scan_eqI) (auto simp: occ_def)

lemma find_spec:
  assumes "tbl_inv m t" "roomy m t" "k < EmptyKey"
  shows "\<exists>j. scan t k (home m k) = Some j \<and> j < length t \<and>
    tbl_map t k = (if key (t ! j) = k then Some (conn_id (t ! j)) else None)"
proof -
  obtain j where j: "scan t k (home m k) = Some j"
    using scan_total [OF assms(1,2) _ home_le] assms(3) by fastforce
  note j' = scan_Some [OF j]
  show ?thesis
  proof (cases "key (t ! j) = k")
    case True
    then have "occ t j" using j' assms(3) by (auto simp: occ_def)
    then have "tbl_map t k = Some (conn_id (t ! j))"
      using True by (subst tbl_map_iff [OF assms(1)]) auto
    then show ?thesis using True j j' by auto
  next
    case False
    have "tbl_map t k = None"
    proof (rule ccontr)
      assume "tbl_map t k \<noteq> None"
      then obtain p where p: "occ t p" "key (t ! p) = k" using tbl_map_iff [OF assms(1)] by auto
      then show False using find_present [OF assms(1) p(1)] j False by auto
    qed
    then show ?thesis using False j j' by auto
  qed
qed

subsection \<open>Insertion stores exactly one more entry\<close>

lemma tbl_inv_put:
  assumes inv: "tbl_inv m t" and e: "e < length t" and k: "k < key (t ! e)" "k < EmptyKey"
    and run: "home m k \<le> e" "\<forall>q. home m k \<le> q \<and> q < e \<longrightarrow> key (t ! q) < k"
  shows "tbl_inv m (t[e := \<lparr>key = k, conn_id = c\<rparr>])" (is "tbl_inv m ?t")
  unfolding tbl_inv_def
proof (intro conjI allI impI; (elim conjE)?)
  fix p assume "p < length ?t"
  then show "key (?t ! p) \<le> EmptyKey"
    using inv k(2) by (cases "p = e") (auto simp: tbl_inv_def)
next
  fix p assume "occ ?t p"
  then show "home m (key (?t ! p)) \<le> p"
    using tbl_invD(1) [OF inv, of p] run(1) e by (cases "p = e") (auto simp: occ_def)
next
  fix p q assume p: "occ ?t p" and q: "home m (key (?t ! p)) \<le> q" "q < p"
  show "key (?t ! q) < key (?t ! p)"
  proof (cases "p = e")
    case True then show ?thesis using run(2) q e by simp
  next
    case False
    then have "occ t p" using p by (simp add: occ_def)
    then have "key (t ! q) < key (t ! p)" using tbl_invD(2) [OF inv] q False by simp
    then show ?thesis using False k(1) e by (cases "q = e") auto
  qed
qed

lemma addLoop_spec:
  assumes "tbl_inv m t" "roomy m t" "k < EmptyKey" "\<forall>p. occ t p \<longrightarrow> key (t ! p) \<noteq> k"
    and "scan t k (home m k) = Some e \<or>
      (e < length t \<and> home m k \<le> e \<and> k \<le> key (t ! e) \<and> (\<forall>q. home m k \<le> q \<and> q < e \<longrightarrow> key (t ! q) < k))"
  shows "\<exists>t'. addLoop t e k c = Some t' \<and> tbl_inv m t' \<and> length t' = length t
    \<and> content t' = add_mset \<lparr>key = k, conn_id = c\<rparr> (content t)"
  using assms
proof (induction t e k c rule: addLoop.induct)
  case (1 t e k c)
  note inv = 1(2) and room = 1(3) and k = 1(4) and new = 1(5)
  let ?t = "t[e := \<lparr>key = k, conn_id = c\<rparr>]"
  have e: "e < length t" "home m k \<le> e" "k \<le> key (t ! e)"
    "\<forall>q. home m k \<le> q \<and> q < e \<longrightarrow> key (t ! q) < k"
    using 1(6) scan_Some [of t k "home m k" e] by auto
  have "k \<noteq> key (t ! e)" using new k e(1) by (auto simp: occ_def)
  then have lt: "k < key (t ! e)" using e(3) by simp
  have inv': "tbl_inv m ?t" by (rule tbl_inv_put [OF inv e(1) lt k e(2,4)])
  show ?case
  proof (cases "occ t e")
    case False
    then have "addLoop t e k c = Some ?t" using e(1) by (simp add: addLoop.simps [of t] occ_def)
    moreover have "content ?t = add_mset \<lparr>key = k, conn_id = c\<rparr> (content t)"
      using content_update [OF e(1), of "\<lparr>key = k, conn_id = c\<rparr>"] False k by simp
    ultimately show ?thesis using inv' by auto
  next
    case True
    let ?ko = "key (t ! e)"
    have cont: "add_mset (t ! e) (content ?t) = add_mset \<lparr>key = k, conn_id = c\<rparr> (content t)"
      using content_update [OF e(1), of "\<lparr>key = k, conn_id = c\<rparr>"] True k by simp
    then have sz: "size (content ?t) = size (content t)" by (metis add_left_cancel size_add_mset plus_1_eq_Suc)
    have ko: "?ko < EmptyKey" "home m ?ko \<le> e" "\<forall>q. home m ?ko \<le> q \<and> q < e \<longrightarrow> key (t ! q) < ?ko"
      using tbl_invD [OF inv True] by auto
    have run: "\<forall>q. home m ?ko \<le> q \<and> q \<le> e \<longrightarrow> key (?t ! q) < ?ko"
      using ko(3) lt e(1) by (auto simp: nth_list_update le_less)
    obtain e' where e': "scan ?t ?ko (Suc e) = Some e'"
    proof (cases "scan ?t ?ko (Suc e)")
      case None
      have "\<forall>q. home m ?ko \<le> q \<and> q < length ?t \<longrightarrow> occ ?t q"
      proof (intro allI impI)
        fix q assume q: "home m ?ko \<le> q \<and> q < length ?t"
        then have "key (?t ! q) < ?ko"
          using run scan_None [OF None, of q] by (cases "q \<le> e") auto
        then show "occ ?t q" using q ko(1) occ_iff_less [OF inv'] by auto
      qed
      then have "length ?t - home m ?ko \<le> size (content ?t)" by (intro occ_block_le) simp_all
      then show ?thesis using room sz home_le [of ?ko m] by (simp add: roomy_def)
    qed (rule that)
    have sc: "Suc e \<le> e'" "e' < length ?t" "?ko \<le> key (?t ! e')"
      "\<forall>q. Suc e \<le> q \<and> q < e' \<longrightarrow> key (?t ! q) < ?ko" using scan_Some [OF e'] by blast+
    have "\<forall>q. home m ?ko \<le> q \<and> q < e' \<longrightarrow> key (?t ! q) < ?ko"
    proof (intro allI impI)
      fix q assume q: "home m ?ko \<le> q \<and> q < e'"
      show "key (?t ! q) < ?ko"
      proof (cases "q \<le> e")
        case True then show ?thesis using run q by blast
      next
        case False then show ?thesis using sc(4) q by (simp only: not_le Suc_le_eq)
      qed
    qed
    then have pre: "e' < length ?t \<and> home m ?ko \<le> e' \<and> ?ko \<le> key (?t ! e')
      \<and> (\<forall>q. home m ?ko \<le> q \<and> q < e' \<longrightarrow> key (?t ! q) < ?ko)"
      using sc ko(2) by auto
    have fresh: "\<forall>p. occ ?t p \<longrightarrow> key (?t ! p) \<noteq> ?ko"
    proof (intro allI impI)
      fix p assume p: "occ ?t p"
      show "key (?t ! p) \<noteq> ?ko"
      proof (cases "p = e")
        case False
        then have "occ t p" using p by (simp add: occ_def)
        then show ?thesis using keys_distinct [OF inv True, of p] False by fastforce
      qed (use lt e(1) in simp)
    qed
    have "roomy m ?t" using room sz by (simp add: roomy_def)
    then obtain t' where t': "addLoop ?t e' ?ko (conn_id (t ! e)) = Some t'" "tbl_inv m t'"
        "length t' = length t" "content t' = add_mset (t ! e) (content ?t)"
      using 1(1) [OF e(1) _ refl refl e'] True inv' ko(1) fresh pre by (auto simp: occ_def)
    moreover have "addLoop t e k c = addLoop ?t e' ?ko (conn_id (t ! e))"
      using e(1) True e' by (subst addLoop.simps) (simp add: occ_def Let_def)
    ultimately show ?thesis using cont by simp
  qed
qed

subsection \<open>Deletion removes exactly one entry\<close>

text \<open>
  While the deletion shifts entries back, the slot \<open>e\<close> is a hole: it still holds a stale
  entry, and the invariant holds for all the others.
\<close>

definition hole_inv :: "u64 \<Rightarrow> ConnHashEntry list \<Rightarrow> nat \<Rightarrow> bool" where
  "hole_inv m t e \<longleftrightarrow> occ t e \<and> (\<exists>h \<le> unat m. \<forall>q. h \<le> q \<and> q < e \<longrightarrow> occ t q) \<and>
     (\<forall>p < length t. key (t ! p) \<le> EmptyKey) \<and>
     (\<forall>p. occ t p \<and> p \<noteq> e \<longrightarrow> home m (key (t ! p)) \<le> p
        \<and> (\<forall>q. home m (key (t ! p)) \<le> q \<and> q < p \<and> q \<noteq> e \<longrightarrow> key (t ! q) < key (t ! p)))"

definition hole_content :: "ConnHashEntry list \<Rightarrow> nat \<Rightarrow> ConnHashEntry multiset" where
  "hole_content t e = content (t[e := (t ! e)\<lparr>key := EmptyKey\<rparr>])"

lemma hole_invD:
  assumes "hole_inv m t e" "occ t p" "p \<noteq> e"
  shows "home m (key (t ! p)) \<le> p"
    "home m (key (t ! p)) \<le> q \<Longrightarrow> q < p \<Longrightarrow> q \<noteq> e \<Longrightarrow> key (t ! q) < key (t ! p)"
    "key (t ! p) < EmptyKey"
  using assms by (auto simp: hole_inv_def occ_def order_less_le)

lemma hole_run:
  assumes "hole_inv m t e" "occ t p" "p \<noteq> e" "home m (key (t ! p)) \<le> q" "q \<le> p" "q \<noteq> e"
  shows "occ t q"
proof (cases "q = p")
  case False
  then have "key (t ! q) < key (t ! p)" using hole_invD(2) [OF assms(1-3)] assms(4-6) by simp
  then have "key (t ! q) < EmptyKey" using hole_invD(3) [OF assms(1-3)] by simp
  then show ?thesis using assms by (auto simp: occ_def)
qed (use assms in simp)

lemma hole_size: "e < length t \<Longrightarrow> occ t q \<Longrightarrow> q \<noteq> e \<Longrightarrow> occ (t[e := v]) q"
  by (simp add: occ_def)

lemma tbl_inv_hole:
  assumes "tbl_inv m t" "occ t e"
  shows "hole_inv m t e"
proof -
  have "\<forall>q. home m (key (t ! e)) \<le> q \<and> q < e \<longrightarrow> occ t q" using occ_run [OF assms] by simp
  then have "\<exists>h \<le> unat m. \<forall>q. h \<le> q \<and> q < e \<longrightarrow> occ t q" using home_le by blast
  then show ?thesis using assms unfolding tbl_inv_def hole_inv_def by blast
qed

lemma tbl_hole_content:
  assumes "occ t e"
  shows "content t = add_mset (t ! e) (hole_content t e)"
  using content_update [of e t "(t ! e)\<lparr>key := EmptyKey\<rparr>"] assms
  by (simp add: hole_content_def occ_def)

lemma nextMovable_total:
  assumes inv: "hole_inv m t e" and m: "m < EmptyKey"
    and room: "unat m + size (hole_content t e) + 1 < length t"
  shows "\<exists>n. nextMovable t m e (Suc e) = Some n"
proof (rule ccontr)
  assume "\<nexists>n. nextMovable t m e (Suc e) = Some n"
  then have nm: "e < q \<Longrightarrow> q < length t \<Longrightarrow> e < home m (key (t ! q))" for q
    using nextMovable_None [of t m e "Suc e" q] by (cases "nextMovable t m e (Suc e)") auto
  have after: "occ t q" if "e < q" "q < length t" for q
    using nm [OF that] that home_EmptyKey [OF m] by (auto simp: occ_def)
  obtain h where h: "h \<le> unat m" "\<forall>q. h \<le> q \<and> q < e \<longrightarrow> occ t q" and e: "occ t e"
    using inv by (auto simp: hole_inv_def)
  have "\<forall>q. h \<le> q \<and> q < length t \<longrightarrow> occ t q" using h(2) e after by (metis linorder_neqE_nat)
  then have "length t - h \<le> size (content t)" by (intro occ_block_le) simp_all
  then show False using room h(1) tbl_hole_content [OF e] by simp
qed

lemma hole_close:
  assumes inv: "hole_inv m t e" and m: "m < EmptyKey" and n: "nextMovable t m e (Suc e) = Some n"
    and empty: "key (t ! n) = EmptyKey"
  shows "tbl_inv m (t[e := (t ! e)\<lparr>key := EmptyKey\<rparr>])" (is "tbl_inv m ?t")
proof -
  note nx = nextMovable_Some [OF n]
  have e: "e < length t" using inv by (auto simp: hole_inv_def occ_def)
  have past: "e < home m (key (t ! p))" if p: "occ t p" "e < p" for p
  proof (rule ccontr)
    assume "\<not> e < home m (key (t ! p))"
    then have "home m (key (t ! p)) \<le> n" "n \<le> p" "n \<noteq> e" using nx p(2) by (auto simp: not_less) (meson not_less_eq_eq not_less Suc_leI)
    then have "occ t n" using hole_run [OF inv p(1)] p(2) by simp
    then show False using empty by (simp add: occ_def)
  qed
  have "occ t p" "p \<noteq> e" if "occ ?t p" for p using that e by (auto simp: occ_def nth_list_update split: if_splits)
  note occ_t = this
  show ?thesis unfolding tbl_inv_def
  proof (intro conjI allI impI; (elim conjE)?)
    fix p assume "p < length ?t"
    then show "key (?t ! p) \<le> EmptyKey" using inv e by (cases "p = e") (auto simp: hole_inv_def)
  next
    fix p assume p: "occ ?t p"
    then show "home m (key (?t ! p)) \<le> p" using hole_invD(1) [OF inv occ_t [OF p]] occ_t [OF p] by simp
  next
    fix p q assume p: "occ ?t p" and q: "home m (key (?t ! p)) \<le> q" "q < p"
    have "q \<noteq> e" using past [OF occ_t(1) [OF p]] occ_t [OF p] q by auto
    then show "key (?t ! q) < key (?t ! p)"
      using hole_invD(2) [OF inv occ_t [OF p]] q occ_t [OF p] by simp
  qed
qed

lemma hole_move:
  assumes inv: "hole_inv m t e" and n: "nextMovable t m e (Suc e) = Some n"
    and occ_n: "key (t ! n) \<noteq> EmptyKey"
  shows "hole_inv m (t[e := t ! n]) n" (is "hole_inv m ?t n")
    and "hole_content (t[e := t ! n]) n = hole_content t e"
proof -
  note nx = nextMovable_Some [OF n]
  have e: "occ t e" "e < length t" using inv by (auto simp: hole_inv_def occ_def)
  have n': "occ t n" "e < n" "home m (key (t ! n)) \<le> e" using nx occ_n by (auto simp: occ_def)
  have occ_t: "p = e \<or> occ t p" if "occ ?t p" for p using that by (auto simp: occ_def nth_list_update split: if_splits)
  have run: "\<forall>q. home m (key (t ! n)) \<le> q \<and> q < n \<longrightarrow> occ ?t q"
  proof (intro allI impI)
    fix q assume q: "home m (key (t ! n)) \<le> q \<and> q < n"
    show "occ ?t q" using hole_run [OF inv n'(1)] n' e q by (cases "q = e") (auto simp: occ_def)
  qed
  show "hole_inv m ?t n" unfolding hole_inv_def
  proof (intro conjI allI impI; (elim conjE)?)
    show "occ ?t n" using n' by (simp add: occ_def)
    show "\<exists>h \<le> unat m. \<forall>q. h \<le> q \<and> q < n \<longrightarrow> occ ?t q" using run home_le by blast
  next
    fix p assume "p < length ?t"
    then show "key (?t ! p) \<le> EmptyKey"
      using inv nx e by (cases "p = e") (auto simp: hole_inv_def)
  next
    fix p assume p: "occ ?t p" "p \<noteq> n"
    then show "home m (key (?t ! p)) \<le> p"
      using occ_t [OF p(1)] hole_invD(1) [OF inv, of p] n'(3) e by (cases "p = e") auto
  next
    fix p q assume p: "occ ?t p" "p \<noteq> n" and q: "home m (key (?t ! p)) \<le> q" "q < p" "q \<noteq> n"
    show "key (?t ! q) < key (?t ! p)"
    proof (cases "p = e")
      case True
      then have "key (t ! q) < key (t ! n)" using hole_invD(2) [OF inv n'(1)] q n' e by auto
      then show ?thesis using True q e by simp
    next
      case False
      then have tp: "occ t p" "home m (key (t ! p)) \<le> q" using occ_t [OF p(1)] q by auto
      show ?thesis
      proof (cases "q = e")
        case True
        then have "\<not> (Suc e \<le> p \<and> p < n)" using nx tp(2) by auto
        then have "n < p" using p(2) q(2) True by auto
        then have "key (t ! n) < key (t ! p)" using hole_invD(2) [OF inv tp(1)] False tp(2) n' True by simp
        then show ?thesis using True False e by simp
      next
        case q': False
        then have "key (t ! q) < key (t ! p)" using hole_invD(2) [OF inv tp(1)] False tp(2) q by simp
        then show ?thesis using False q' by simp
      qed
    qed
  qed
  then have "occ ?t n" by (simp add: hole_inv_def)
  then have "content ?t = add_mset (t ! n) (hole_content ?t n)" using tbl_hole_content n'(2) by fastforce
  moreover have "content t = add_mset (t ! e) (hole_content t e)" by (rule tbl_hole_content [OF e(1)])
  moreover have "add_mset (t ! e) (content ?t) = add_mset (t ! n) (content t)"
    using content_update [OF e(2), of "t ! n"] e(1) occ_n by simp
  ultimately show "hole_content ?t n = hole_content t e" by (simp add: add_mset_commute)
qed

lemma delLoop_spec:
  assumes "hole_inv m t e" "m < EmptyKey" "unat m + size (hole_content t e) + 1 < length t"
  shows "\<exists>t'. delLoop t m e = Some t' \<and> tbl_inv m t' \<and> length t' = length t \<and> content t' = hole_content t e"
  using assms
proof (induction t m e rule: delLoop.induct)
  case (1 t m e)
  have e: "e < length t" using 1(2) by (auto simp: hole_inv_def occ_def)
  obtain n where n: "nextMovable t m e (Suc e) = Some n" using nextMovable_total [OF 1(2-4)] by blast
  show ?case
  proof (cases "key (t ! n) = EmptyKey")
    case True
    then have "delLoop t m e = Some (t[e := (t ! e)\<lparr>key := EmptyKey\<rparr>])"
      using e n by (simp add: delLoop.simps [of t m e])
    then show ?thesis using hole_close [OF 1(2,3) n True] by (simp add: hole_content_def)
  next
    case False
    note mv = hole_move [OF 1(2) n False]
    have "delLoop t m e = delLoop (t[e := t ! n]) m n"
      using e n False by (simp add: delLoop.simps [of t m e])
    then show ?thesis using 1(1) [OF e n False mv(1) 1(3)] 1(4) mv(2) by simp
  qed
qed

end
