(* ===== verification/TableGrowth.thy ===== *)
theory TableGrowth
  imports ConnTable
begin

text \<open>
  Growing the connection table (\<^verbatim>\<open>tryExpandConnTbl\<close>): the in-place rehash that
  runs when the table is half full.
\<close>

subsection \<open>Growing the table\<close>

text \<open>
  Doubling the mask keeps the home of a key or moves it up by the old size.
\<close>

lemma home_mask: "home (mask b) k = unat k mod 2 ^ b"
  by (rule unat_and_mask)

lemma mask_double: "mask b * 2 + 1 = (mask (Suc b) :: u64)"
  by (simp add: mask_eq_exp_minus_1 algebra_simps)

lemma unat_mask64: "b < 64 \<Longrightarrow> unat (mask b :: u64) = 2 ^ b - 1"
proof -
  assume b: "b < 64"
  then have "(2 :: nat) ^ b \<le> 2 ^ 64" by (intro power_increasing) simp_all
  then have "unat (of_nat (2 ^ b - 1) :: u64) = 2 ^ b - 1" by (intro unat_of_nat_small) simp
  moreover have "(mask b :: u64) = of_nat (2 ^ b - 1)" by (simp add: mask_eq_exp_minus_1 of_nat_diff)
  ultimately show ?thesis by (simp only:)
qed

lemma home_double:
  "home (mask (Suc b)) k = home (mask b) k \<or> home (mask (Suc b)) k = home (mask b) k + 2 ^ b"
proof -
  have "unat k mod 2 ^ Suc b = unat k mod 2 ^ b + 2 ^ b * (unat k div 2 ^ b mod 2)"
    using mod_mult2_eq [of "unat k" "2 ^ b" 2] by (simp add: mult.commute)
  moreover have "unat k div 2 ^ b mod 2 = 0 \<or> unat k div 2 ^ b mod 2 = 1" by linarith
  ultimately show ?thesis unfolding home_mask by auto
qed

lemma home_mask_lt: "home (mask b) k < 2 ^ b" for b k
  by (simp add: home_mask)

text \<open>
  The state of the in-place rehash before slot \<open>i\<close>: the slots from \<open>i\<close> up to the old size
  \<open>n\<close> are as in the old table \<open>t0\<close>; every entry elsewhere below \<open>2 * n\<close> came from an
  earlier slot \<open>p\<close>, sits no further than \<open>p\<close> (or \<open>p + n\<close> in the upper half) and obeys the
  invariant of the new mask.
\<close>

definition placed :: "nat \<Rightarrow> ConnHashEntry list \<Rightarrow> nat \<Rightarrow> ConnHashEntry list \<Rightarrow> nat \<Rightarrow> bool" where
  "placed b t0 i t q \<longleftrightarrow>
     (\<exists>p < i. occ t0 p \<and> t ! q = t0 ! p
        \<and> (if home (mask (Suc b)) (key (t ! q)) < 2 ^ b then q \<le> p else q \<le> p + 2 ^ b))
     \<and> home (mask (Suc b)) (key (t ! q)) \<le> q
     \<and> (\<forall>r. home (mask (Suc b)) (key (t ! q)) \<le> r \<and> r < q \<longrightarrow> key (t ! r) < key (t ! q))"

definition rehash_inv :: "nat \<Rightarrow> ConnHashEntry list \<Rightarrow> nat \<Rightarrow> ConnHashEntry list \<Rightarrow> bool" where
  "rehash_inv b t0 i t \<longleftrightarrow>
     2 ^ Suc b \<le> length t \<and> i \<le> 2 ^ b
     \<and> (\<forall>p. i \<le> p \<and> p < 2 ^ b \<longrightarrow> t ! p = t0 ! p)
     \<and> (\<forall>q < 2 ^ Suc b. key (t ! q) \<le> EmptyKey)
     \<and> (\<forall>q < 2 ^ Suc b. occ t q \<and> \<not> (i \<le> q \<and> q < 2 ^ b) \<longrightarrow> placed b t0 i t q)"

lemma placed_mono: "placed b t0 i t q \<Longrightarrow> i \<le> i' \<Longrightarrow> placed b t0 i' t q"
  unfolding placed_def by (elim conjE exE) (intro conjI exI; assumption?; linarith?)

lemma rehash_skip:
  assumes "rehash_inv b t0 i t" "i < 2 ^ b" "key (t ! i) = EmptyKey"
  shows "rehash_inv b t0 (Suc i) t"
proof -
  have "placed b t0 (Suc i) t q"
    if "q < 2 ^ Suc b" "occ t q" "\<not> (Suc i \<le> q \<and> q < 2 ^ b)" for q
  proof -
    have "q \<noteq> i" using that(2) assms(3) by (auto simp: occ_def)
    then show ?thesis using that assms(1) placed_mono [of b t0 i t q "Suc i"] by (auto simp: rehash_inv_def)
  qed
  then show ?thesis using assms by (auto simp: rehash_inv_def)
qed

text \<open>The search for the new place of slot \<open>i\<close> ends at an empty slot, or at \<open>i\<close> itself.\<close>

lemma rehash_target:
  assumes inv0: "tbl_inv (mask b) t0" and inv: "rehash_inv b t0 i t" and i: "i < 2 ^ b" "occ t0 i"
  defines "k \<equiv> key (t0 ! i)"
  defines "h \<equiv> home (mask (Suc b)) k"
  shows "\<exists>j. scan t k h = Some j \<and> j < 2 ^ Suc b \<and> (j = i \<or> key (t ! j) = EmptyKey)
    \<and> (if h < 2 ^ b then j \<le> i else 2 ^ b \<le> j \<and> j \<le> i + 2 ^ b)"
proof -
  have len: "2 ^ Suc b \<le> length t" and ti: "t ! i = t0 ! i"
    and elsewhere: "\<And>q. q < 2 ^ Suc b \<Longrightarrow> occ t q \<Longrightarrow> \<not> (i \<le> q \<and> q < 2 ^ b) \<Longrightarrow> placed b t0 i t q"
    using inv i(1) by (auto simp: rehash_inv_def)
  note old = tbl_invD [OF inv0 i(2), folded k_def]
  define d where "d = (if h < 2 ^ b then 0 else (2 :: nat) ^ b)"
  have h: "h = home (mask b) k + d"
    using home_double [of k b] home_mask_lt [of k b] by (auto simp: d_def h_def)
  have cand: "i + d < length t" "i + d < 2 ^ Suc b" using i(1) len by (auto simp: d_def)
  have kle: "k \<le> key (t ! (i + d))"
  proof (cases "d = 0")
    case False
    then have "\<not> occ t (i + d)"
      using elsewhere [of "i + d"] cand i(1) unfolding placed_def d_def by (fastforce split: if_splits)
    then show ?thesis using cand old(3) by (auto simp: occ_def)
  qed (simp add: ti k_def)
  obtain j where j: "scan t k h = Some j"
    using scan_None [of t k h "i + d"] kle cand old(1) h by (cases "scan t k h") auto
  note sj = scan_Some [OF j]
  have jle: "j \<le> i + d"
  proof (rule ccontr)
    assume "\<not> j \<le> i + d"
    then have "h \<le> i + d \<and> i + d < j" using old(1) by (simp add: h)
    then have "key (t ! (i + d)) < k" using sj by blast
    then show False using kle by simp
  qed
  have "j = i \<or> key (t ! j) = EmptyKey"
  proof (rule ccontr)
    assume "\<not> (j = i \<or> key (t ! j) = EmptyKey)"
    then have "occ t j" "j \<noteq> i" using sj by (auto simp: occ_def)
    moreover have hj: "h \<le> j" using sj by simp
    moreover have "\<not> (i \<le> j \<and> j < 2 ^ b)"
    proof (cases "h < 2 ^ b")
      case True
      then have "j \<le> i" using jle by (simp add: d_def)
      then show ?thesis using \<open>j \<noteq> i\<close> by simp
    next
      case False
      then have "2 ^ b \<le> j" using hj by linarith
      then show ?thesis by simp
    qed
    ultimately obtain p where p: "p < i" "occ t0 p" "t ! j = t0 ! p"
        "if home (mask (Suc b)) (key (t ! j)) < 2 ^ b then j \<le> p else j \<le> p + 2 ^ b"
        "home (mask (Suc b)) (key (t ! j)) \<le> j"
      using elsewhere [of j] jle cand by (auto simp: placed_def)
    have "home (mask b) k \<le> p"
    proof (cases "home (mask (Suc b)) (key (t ! j)) < 2 ^ b")
      case True
      then have "j \<le> p" using p(4) by simp
      moreover have "home (mask b) k \<le> h" using h by simp
      ultimately show ?thesis using hj by linarith
    next
      case False
      then have "j \<le> p + 2 ^ b" "2 ^ b \<le> j" using p(4,5) by auto
      moreover have "d = 2 ^ b" using jle i(1) p(1) calculation \<open>j \<noteq> i\<close> by (cases "d = 0") (auto simp: d_def split: if_splits)
      ultimately show ?thesis using hj h by linarith
    qed
    then have "key (t0 ! p) < k" using old(2) p(1) by simp
    moreover have "k \<le> key (t ! j)" using sj by simp
    ultimately show False using p(3) by (simp add: not_le)
  qed
  moreover have "j < 2 ^ Suc b" using jle cand by linarith
  moreover have "if h < 2 ^ b then j \<le> i else 2 ^ b \<le> j \<and> j \<le> i + 2 ^ b"
  proof (cases "h < 2 ^ b")
    case False
    have "h \<le> j" using sj by simp
    then show ?thesis using False jle by (simp add: d_def)
  qed (use jle in \<open>simp add: d_def\<close>)
  ultimately show ?thesis using j by blast
qed

definition relocate :: "nat \<Rightarrow> nat \<Rightarrow> ConnHashEntry list \<Rightarrow> ConnHashEntry list" where
  "relocate i j t = (if j = i then t else t[i := (t ! i)\<lparr>key := EmptyKey\<rparr>, j := t ! i])"

lemma length_relocate [simp]: "length (relocate i j t) = length t"
  by (simp add: relocate_def)

lemma nth_relocate:
  "i < length t \<Longrightarrow> j < length t \<Longrightarrow>
   relocate i j t ! q = (if q = j then t ! i else if q = i then (t ! i)\<lparr>key := EmptyKey\<rparr> else t ! q)"
  by (simp add: relocate_def nth_list_update)

lemma content_relocate:
  assumes "i < length t" "j < length t" "occ t i" "j = i \<or> key (t ! j) = EmptyKey"
  shows "content (relocate i j t) = content t"
proof (cases "j = i")
  case False
  let ?t = "t[i := (t ! i)\<lparr>key := EmptyKey\<rparr>]"
  have "add_mset (t ! i) (content ?t) = content t"
    using content_update [OF assms(1), of "(t ! i)\<lparr>key := EmptyKey\<rparr>"] assms(3) by simp
  moreover have "content (?t[j := t ! i]) = add_mset (t ! i) (content ?t)"
    using content_update [of j ?t "t ! i"] assms False by (simp add: occ_def)
  ultimately show ?thesis using False by (simp add: relocate_def)
qed (simp add: relocate_def)

lemma rehash_unfold:
  assumes "cnt \<noteq> 0" "i < length t" "key (t ! i) \<noteq> EmptyKey"
    and "scan t (key (t ! i)) (home m (key (t ! i))) = Some j" "j = i \<or> key (t ! j) = EmptyKey"
  shows "rehash t m i cnt = rehash (relocate i j t) m (Suc i) (cnt - 1)"
proof -
  have j: "j < length t" using scan_Some [OF assms(4)] by simp
  let ?e = "t ! i"
  have eq: "(t ! j)\<lparr>key := key ?e, conn_id := conn_id ?e\<rparr> = ?e" by simp
  show ?thesis
  proof (cases "j = i")
    case True
    then show ?thesis using assms j by (subst rehash.simps) (simp add: relocate_def)
  next
    case False
    then show ?thesis using assms j
      by (subst rehash.simps) (simp add: relocate_def list_update_swap eq Let_def)
  qed
qed

lemma rehash_put:
  assumes inv0: "tbl_inv (mask b) t0" and inv: "rehash_inv b t0 i t" and i: "i < 2 ^ b" "occ t0 i"
    and j: "scan t (key (t0 ! i)) (home (mask (Suc b)) (key (t0 ! i))) = Some j" "j < 2 ^ Suc b"
      "j = i \<or> key (t ! j) = EmptyKey"
      "if home (mask (Suc b)) (key (t0 ! i)) < 2 ^ b then j \<le> i else 2 ^ b \<le> j \<and> j \<le> i + 2 ^ b"
  shows "rehash_inv b t0 (Suc i) (relocate i j t)" (is "rehash_inv b t0 _ ?t")
proof -
  have len: "2 ^ Suc b \<le> length t" and ti: "t ! i = t0 ! i"
    and keys: "\<And>q. q < 2 ^ Suc b \<Longrightarrow> key (t ! q) \<le> EmptyKey"
    and same: "\<And>p. i \<le> p \<Longrightarrow> p < 2 ^ b \<Longrightarrow> t ! p = t0 ! p"
    and elsewhere: "\<And>q. q < 2 ^ Suc b \<Longrightarrow> occ t q \<Longrightarrow> \<not> (i \<le> q \<and> q < 2 ^ b) \<Longrightarrow> placed b t0 i t q"
    using inv i(1) by (auto simp: rehash_inv_def)
  have il: "i < length t" "j < length t" using i(1) j(2) len by auto
  note nth = nth_relocate [OF il]
  have out: "\<not> (Suc i \<le> j \<and> j < 2 ^ b)" using j(4) by (auto split: if_splits)
  have "placed b t0 (Suc i) ?t q"
    if q: "q < 2 ^ Suc b" "occ ?t q" "\<not> (Suc i \<le> q \<and> q < 2 ^ b)" for q
  proof (cases "q = j")
    case True
    have "\<forall>r. home (mask (Suc b)) (key (t0 ! i)) \<le> r \<and> r < j \<longrightarrow> key (?t ! r) < key (t0 ! i)"
    proof (intro allI impI)
      fix r assume r: "home (mask (Suc b)) (key (t0 ! i)) \<le> r \<and> r < j"
      then have "key (t ! r) < key (t0 ! i)" using scan_Some [OF j(1)] by blast
      moreover have "r \<noteq> i" using calculation ti by auto
      ultimately show "key (?t ! r) < key (t0 ! i)" using r by (simp add: nth)
    qed
    then show ?thesis
      using True scan_Some [OF j(1)] i(2) j(4) ti unfolding placed_def by (auto simp: nth intro!: exI [of _ i])
  next
    case False
    then have "q \<noteq> i" using q(2) by (auto simp: nth occ_def)
    then have tq: "?t ! q = t ! q" "occ t q" using False q(2) by (auto simp: nth occ_def)
    then have pl: "placed b t0 i t q" using elsewhere q(1,3) \<open>q \<noteq> i\<close> by auto
    have "\<forall>r. home (mask (Suc b)) (key (t ! q)) \<le> r \<and> r < q \<longrightarrow> key (?t ! r) < key (t ! q)"
    proof (intro allI impI)
      fix r assume r: "home (mask (Suc b)) (key (t ! q)) \<le> r \<and> r < q"
      then have lt: "key (t ! r) < key (t ! q)" using pl by (auto simp: placed_def)
      show "key (?t ! r) < key (t ! q)"
      proof (cases "r = i \<or> r = j")
        case True
        have "key (t ! q) < EmptyKey" using keys [OF q(1)] tq(2) by (auto simp: occ_def)
        then have "r = i" using True lt j(3) by auto
        moreover have "q \<le> i \<or> 2 ^ b \<le> home (mask (Suc b)) (key (t ! q))"
          using pl by (auto simp: placed_def split: if_splits)
        ultimately show ?thesis using r i(1) by auto
      qed (use lt in \<open>simp add: nth\<close>)
    qed
    then show ?thesis using pl tq unfolding placed_def by (auto intro: less_SucI)
  qed
  moreover have "\<forall>p. Suc i \<le> p \<and> p < 2 ^ b \<longrightarrow> ?t ! p = t0 ! p"
    using same out by (auto simp: nth)
  moreover have "\<forall>q < 2 ^ Suc b. key (?t ! q) \<le> EmptyKey" using keys i(1) by (simp add: nth)
  ultimately show ?thesis using len i(1) unfolding rehash_inv_def by auto
qed

text \<open>The number of entries still to visit, and the whole loop.\<close>

lemma filter_drop_step:
  "i < length t \<Longrightarrow> length (filter P (drop i t)) = (if P (t ! i) then 1 else 0) + length (filter P (drop (Suc i) t))"
  by (simp add: Cons_nth_drop_Suc [symmetric])

lemma rehash_lower:
  assumes "tbl_inv (mask b) t0" "rehash_inv b t0 i t" "length t0 = length t"
    and "unat cnt = length (filter (\<lambda>e. key e \<noteq> EmptyKey) (drop i (take (2 ^ b) t0)))"
  shows "\<exists>t'. rehash t (mask (Suc b)) i cnt = Some t' \<and> length t' = length t \<and> content t' = content t
    \<and> (\<exists>i'. rehash_inv b t0 i' t' \<and> (\<forall>p. i' \<le> p \<and> p < 2 ^ b \<longrightarrow> \<not> occ t0 p))
    \<and> (\<forall>q. 2 ^ Suc b \<le> q \<longrightarrow> t' ! q = t ! q)"
  using assms(2-)
proof (induction "2 ^ b - i" arbitrary: i t cnt rule: less_induct)
  case (less i t cnt)
  let ?P = "\<lambda>e. key e \<noteq> EmptyKey"
  have len: "2 ^ Suc b \<le> length t" "i \<le> 2 ^ b" using less(2) by (auto simp: rehash_inv_def)
  show ?case
  proof (cases "cnt = 0")
    case True
    have "\<not> occ t0 p" if "i \<le> p" "p < 2 ^ b" for p
    proof -
      have "filter ?P (drop i (take (2 ^ b) t0)) = []" using less(4) True by simp
      moreover have "t0 ! p \<in> set (drop i (take (2 ^ b) t0))"
        using that len less(3) by (auto simp: in_set_conv_nth intro!: exI [of _ "p - i"])
      ultimately show ?thesis by (auto simp: filter_empty_conv occ_def)
    qed
    then show ?thesis using True less(2) by (auto simp: rehash.simps [of t])
  next
    case False
    then have "drop i (take (2 ^ b) t0) \<noteq> []" using less(4) by (auto simp: unat_eq_0)
    then have i: "i < 2 ^ b" by auto
    then have il: "i < length t" "i < length (take (2 ^ b) t0)" using len less(3) by auto
    have ti: "t ! i = t0 ! i" using less(2) i by (simp add: rehash_inv_def)
    show ?thesis
    proof (cases "key (t ! i) = EmptyKey")
      case True
      have "unat cnt = length (filter ?P (drop (Suc i) (take (2 ^ b) t0)))"
        using less(4) filter_drop_step [OF il(2), of ?P] True ti i by simp
      moreover have "rehash t (mask (Suc b)) i cnt = rehash t (mask (Suc b)) (Suc i) cnt"
        using i True False il(1) by (subst rehash.simps) simp
      ultimately show ?thesis
        using less(1) [of "Suc i", OF _ rehash_skip [OF less(2) i True] less(3)] i by simp
    next
      case occ: False
      then have o: "occ t0 i" "occ t i" using il less(3) ti by (auto simp: occ_def)
      obtain j where j: "scan t (key (t0 ! i)) (home (mask (Suc b)) (key (t0 ! i))) = Some j"
          "j < 2 ^ Suc b" "j = i \<or> key (t ! j) = EmptyKey"
          "if home (mask (Suc b)) (key (t0 ! i)) < 2 ^ b then j \<le> i else 2 ^ b \<le> j \<and> j \<le> i + 2 ^ b"
        using rehash_target [OF assms(1) less(2) i o(1)] by blast
      let ?t = "relocate i j t"
      have jl: "j < length t" using j(2) len by simp
      have eq: "rehash t (mask (Suc b)) i cnt = rehash ?t (mask (Suc b)) (Suc i) (cnt - 1)"
        by (rule rehash_unfold) (use False il occ j ti in simp_all)
      have "unat (cnt - 1) = unat cnt - 1" using False by (simp add: unat_minus_one)
      then have cnt: "unat (cnt - 1) = length (filter ?P (drop (Suc i) (take (2 ^ b) t0)))"
        using less(4) filter_drop_step [OF il(2), of ?P] occ ti i by simp
      note inv' = rehash_put [OF assms(1) less(2) i o(1) j]
      have cont: "content ?t = content t" by (rule content_relocate [OF il(1) jl o(2) j(3)])
      have "\<forall>q. 2 ^ Suc b \<le> q \<longrightarrow> ?t ! q = t ! q"
        using nth_relocate [OF il(1) jl] j(2) i by auto
      then show ?thesis
        using less(1) [of "Suc i" ?t, OF _ inv' _ cnt] i less(3) cont eq by simp
    qed
  qed
qed


lemma overflow_empty:
  assumes "tbl_inv (mask b) t" "key (t ! (2 ^ b)) = EmptyKey" "2 ^ b \<le> p"
  shows "\<not> occ t p"
proof
  assume "occ t p"
  then have "occ t (2 ^ b)"
    using occ_run [OF assms(1) _ _ assms(3)] home_mask_lt [of "key (t ! p)" b] by simp
  then show False using assms(2) by (simp add: occ_def)
qed

lemma content_take:
  assumes "\<And>p. n \<le> p \<Longrightarrow> \<not> occ t p"
  shows "length (filter (\<lambda>e. key e \<noteq> EmptyKey) (take n t)) = size (content t)"
proof -
  have "filter (\<lambda>e. key e \<noteq> EmptyKey) (drop n t) = []"
    unfolding filter_empty_conv
  proof
    fix e assume "e \<in> set (drop n t)"
    then obtain i where "i < length t - n" "e = t ! (n + i)" by (auto simp: in_set_conv_nth)
    then show "\<not> key e \<noteq> EmptyKey" using assms [of "n + i"] by (simp add: occ_def)
  qed
  then have "length (filter (\<lambda>e. key e \<noteq> EmptyKey) (take n t @ drop n t))
      = length (filter (\<lambda>e. key e \<noteq> EmptyKey) (take n t))"
    by (simp only: filter_append) simp
  then show ?thesis by (simp add: content_def mset_filter [symmetric] del: mset_filter)
qed

lemma rehash_all:
  assumes inv: "tbl_inv (mask b) t" and len: "2 ^ Suc b \<le> length t"
    and low: "\<And>p. 2 ^ b \<le> p \<Longrightarrow> \<not> occ t p" and cnt: "unat cnt = size (content t)"
  shows "\<exists>t'. rehash t (mask (Suc b)) 0 cnt = Some t' \<and> length t' = length t
    \<and> content t' = content t \<and> tbl_inv (mask (Suc b)) t'"
proof -
  have ri: "rehash_inv b t 0 t"
    using len low inv unfolding rehash_inv_def by (auto simp: tbl_inv_def not_less)
  have n: "unat cnt = length (filter (\<lambda>e. key e \<noteq> EmptyKey) (drop 0 (take (2 ^ b) t)))"
    using content_take [OF low] cnt by simp
  obtain t' i' where t': "rehash t (mask (Suc b)) 0 cnt = Some t'" "length t' = length t"
      "content t' = content t" "rehash_inv b t i' t'" "\<forall>p. i' \<le> p \<and> p < 2 ^ b \<longrightarrow> \<not> occ t p"
      "\<forall>q. 2 ^ Suc b \<le> q \<longrightarrow> t' ! q = t ! q"
    using rehash_lower [OF inv ri refl n] by blast
  have place: "placed b t i' t' q" if q: "occ t' q" for q
  proof -
    have "q < 2 ^ Suc b"
    proof (rule ccontr)
      assume "\<not> q < 2 ^ Suc b"
      then have "occ t q" using q t'(2,6) by (simp add: occ_def)
      then show False using low [of q] \<open>\<not> q < 2 ^ Suc b\<close> by simp
    qed
    moreover have "\<not> (i' \<le> q \<and> q < 2 ^ b)"
      using q t'(2,4,5) by (auto simp: rehash_inv_def occ_def)
    ultimately show ?thesis using t'(4) q by (auto simp: rehash_inv_def)
  qed
  have "key (t' ! p) \<le> EmptyKey" if "p < length t'" for p
  proof (cases "p < 2 ^ Suc b")
    case True then show ?thesis using t'(4) by (auto simp: rehash_inv_def)
  next
    case False then show ?thesis using inv that t'(2,6) by (simp add: tbl_inv_def)
  qed
  then have "tbl_inv (mask (Suc b)) t'" using place unfolding tbl_inv_def placed_def by blast
  then show ?thesis using t' by blast
qed


text \<open>Growing when no entry lies past the mask: nothing moves in the first loop.\<close>

lemma tryExpand_grow:
  assumes inv: "tbl_inv (tbl_mask c) (conn_tbl c)" and m: "tbl_mask c = mask b" "b < 62"
    and len: "2 ^ Suc b \<le> length (conn_tbl c)"
    and empty: "key (conn_tbl c ! (2 ^ b)) = EmptyKey"
    and size: "unat (getTblSize c) = size (content (conn_tbl c))"
    and grow: "\<not> ucast (getTblSize c * 2) \<le> tbl_mask c"
  shows "\<exists>t'. tryExpandConnTbl c = Some (c\<lparr>tbl_mask := mask (Suc b), conn_tbl := t'\<rparr>)
    \<and> length t' = length (conn_tbl c) \<and> content t' = content (conn_tbl c) \<and> tbl_inv (mask (Suc b)) t'"
proof -
  have inv': "tbl_inv (mask b) (conn_tbl c)" using inv m by simp
  have "(2 :: nat) ^ b < 2 ^ Suc b" by simp
  then have e: "2 ^ b < length (conn_tbl c)" using len by linarith
  have pos: "0 < (2 :: nat) ^ b" "0 < (2 :: nat) ^ Suc b" by simp_all
  have u: "Suc (unat (mask b :: u64)) = 2 ^ b" "Suc (unat (mask (Suc b) :: u64)) = 2 ^ Suc b"
    using unat_mask64 [of b] unat_mask64 [of "Suc b"] m(2) pos by simp_all
  have mv: "moveOverflow (conn_tbl c) (2 ^ b) n = Some (conn_tbl c, n)" for n
    using e empty by (subst moveOverflow.simps) simp
  have cnt: "unat (ucast (getTblSize c) :: u64) = size (content (conn_tbl c))"
    using size by simp
  obtain t' where t': "rehash (conn_tbl c) (mask (Suc b)) 0 (ucast (getTblSize c)) = Some t'"
      "length t' = length (conn_tbl c)" "content t' = content (conn_tbl c)" "tbl_inv (mask (Suc b)) t'"
    using rehash_all [OF inv' len overflow_empty [OF inv' empty] cnt] by blast
  have "rehash t' (mask (Suc b)) n 0 = Some t'" for n by (subst rehash.simps) simp
  then have "tryExpandConnTbl c = Some (c\<lparr>tbl_mask := mask (Suc b), conn_tbl := t'\<rparr>)"
    using grow t'(1) unfolding tryExpandConnTbl_def Let_def m(1) mask_double
    by (simp add: u mv getTblSize_def del: power_Suc)
  then show ?thesis using t' by blast
qed

end
