(* ===== verification/ConnMap.thy ===== *)
theory ConnMap
  imports TableGrowth
begin

text \<open>
  The connection table as \<^verbatim>\<open>Core\<close> keeps it: the hash table together with the pools of
  connection ids and time-wait ids. The operations of the callers (initialisation, accepting a
  connection, moving one to time-wait), the invariant they keep, and the map interface that the
  rest of the stack relies on.
\<close>

subsection \<open>Operations of the callers\<close>

definition initTbl :: "Conf \<Rightarrow> 'a ConnTbl_scheme \<Rightarrow> 'a ConnTbl_scheme" where
  "initTbl cf c = c
     \<lparr>conns := map of_nat [0..<unat (MaxConnCnt cf)], conn_cnt := 0,
      tw_ids := map of_nat [0..<unat (MaxTimeWaitConnCnt cf)], tw_cnt := 0,
      conn_tbl := map (\<lambda>e. e\<lparr>key := EmptyKey\<rparr>) (conn_tbl c),
      tbl_mask := ucast (min (MaxTableSize cf) 128 - 1)\<rparr>"

text \<open>A new connection takes the next free id and enters the table.\<close>

definition allocConn :: "nat \<Rightarrow> u64 \<Rightarrow> 'a ConnTbl_scheme \<Rightarrow> (u32 \<times> 'a ConnTbl_scheme) option" where
  "allocConn entry k c = do {
     cid \<leftarrow> arr_get (conns c) (unat (conn_cnt c));
     c \<leftarrow> addConnEntry entry k cid (c\<lparr>conn_cnt := conn_cnt c + 1\<rparr>);
     Some (cid, c)
   }"

text \<open>
  The table part of \<^verbatim>\<open>enterTW\<close>: the connection id is returned, a time-wait id is taken
  and stored in the entry.
\<close>

definition moveToTW :: "Conf \<Rightarrow> u64 \<Rightarrow> 'a ConnTbl_scheme \<Rightarrow> (u32 \<times> 'a ConnTbl_scheme) option" where
  "moveToTW cf k c = do {
     entry \<leftarrow> findConnEntry c k;
     e \<leftarrow> arr_get (conn_tbl c) entry;
     let n = conn_cnt c - 1;
     ids \<leftarrow> arr_set (conns c) (unat n) (conn_id e);
     tw_id \<leftarrow> arr_get (tw_ids c) (unat (tw_cnt c));
     tbl \<leftarrow> arr_set (conn_tbl c) entry (e\<lparr>conn_id := MaxConnCnt cf + tw_id\<rparr>);
     Some (tw_id, c\<lparr>conn_cnt := n, conns := ids, tw_cnt := tw_cnt c + 1, conn_tbl := tbl\<rparr>)
   }"

subsection \<open>Keys\<close>

lemma connHashKey_bit:
  "bit (connHashKey ip port) n \<longleftrightarrow>
     (if n < 15 then bit (ntohs port) n
      else if n < 47 then bit (ntohl ip) (n - 15) else n = 47 \<and> bit (ntohs port) 15)"
proof -
  have m: "(0x7fff :: u64) = mask 15" "(0x8000 :: u64) = push_bit 15 1" by (simp_all add: mask_eq_exp_minus_1)
  have lo: "bit (0x7fff :: u64) k \<longleftrightarrow> k < 15" for k by (simp only: m bit_mask_iff) auto
  have hi: "bit (0x8000 :: u64) k \<longleftrightarrow> k = 15" for k
    by (simp only: m bit_push_bit_iff bit_1_iff) auto
  have len: "bit (x :: u16) k \<Longrightarrow> k < 16" "bit (y :: u32) k \<Longrightarrow> k < 32" for x y k
    using bit_imp_le_length [of x k] bit_imp_le_length [of y k] by auto
  have "bit (connHashKey ip port) n \<longleftrightarrow> n < 64 \<and> (15 \<le> n \<and> bit (ntohl ip) (n - 15)
      \<or> n < 15 \<and> bit (ntohs port) n \<or> 32 \<le> n \<and> n - 32 = 15 \<and> bit (ntohs port) 15)"
    unfolding connHashKey_def Let_def
    by (simp only: bit_or_iff bit_and_iff bit_push_bit_iff bit_unsigned_iff lo hi) auto
  then show ?thesis using len(2) [of "ntohl ip" "n - 15"] by auto
qed

lemma connHashKey_inj: "connHashKey ip port = connHashKey ip' port' \<longleftrightarrow> ip = ip' \<and> port = port'"
proof
  assume eq: "connHashKey ip port = connHashKey ip' port'"
  have "bit (ntohs port) n = bit (ntohs port') n" if "n < 16" for n
    using that connHashKey_bit [of ip port "if n < 15 then n else 47"]
      connHashKey_bit [of ip' port' "if n < 15 then n else 47"] eq
    by (cases "n < 15") (auto simp: less_Suc_eq numeral_eq_Suc)
  then have "ntohs port = ntohs port'" by (intro bit_word_eqI) simp
  moreover have "bit (ntohl ip) n = bit (ntohl ip') n" if "n < 32" for n
    using that connHashKey_bit [of ip port "n + 15"] connHashKey_bit [of ip' port' "n + 15"] eq by simp
  then have "ntohl ip = ntohl ip'" by (intro bit_word_eqI) simp
  ultimately show "ip = ip' \<and> port = port'" by simp
qed simp

lemma connHashKey_less: "connHashKey ip port < EmptyKey"
proof -
  have "connHashKey ip port = take_bit 48 (connHashKey ip port)"
    by (rule bit_eqI) (auto simp: bit_take_bit_iff connHashKey_bit split: if_splits)
  then have "unat (connHashKey ip port) < 2 ^ 48"
    by (metis unsigned_take_bit_eq take_bit_nat_less_exp)
  then show ?thesis by (simp add: word_less_nat_alt EmptyKey_def)
qed


subsection \<open>The invariant\<close>

text \<open>
  The ids in use are the ids of the entries; the free ones are the tails of the pools, from
  \<^verbatim>\<open>conn_cnt\<close> and \<^verbatim>\<open>tw_cnt\<close> on. Together they are all ids, each once.
\<close>

definition live_ids :: "Conf \<Rightarrow> ConnHashEntry multiset \<Rightarrow> u32 multiset" where
  "live_ids cf M = filter_mset (\<lambda>i. i < MaxConnCnt cf) (image_mset conn_id M)"

definition tw_live_ids :: "Conf \<Rightarrow> ConnHashEntry multiset \<Rightarrow> u32 multiset" where
  "tw_live_ids cf M = image_mset (\<lambda>i. i - MaxConnCnt cf)
     (filter_mset (\<lambda>i. \<not> i < MaxConnCnt cf) (image_mset conn_id M))"

definition pool_ok :: "u32 \<Rightarrow> u32 list \<Rightarrow> u32 \<Rightarrow> u32 multiset \<Rightarrow> bool" where
  "pool_ok n ids cnt used \<longleftrightarrow> length ids = unat n \<and> unat cnt \<le> unat n
     \<and> mset (drop (unat cnt) ids) + used = mset (map of_nat [0..<unat n])"

definition tbl_shape :: "Conf \<Rightarrow> 'a ConnTbl_scheme \<Rightarrow> bool" where
  "tbl_shape cf c \<longleftrightarrow>
     (\<exists>b > 0. tbl_mask c = mask b \<and> 2 ^ b \<le> unat (MaxTableSize cf))
     \<and> length (conn_tbl c) = unat (TotalTableSize cf)
     \<and> tbl_inv (tbl_mask c) (conn_tbl c)"

definition tbl_ok :: "Conf \<Rightarrow> 'a ConnTbl_scheme \<Rightarrow> bool" where
  "tbl_ok cf c \<longleftrightarrow> conf_ok cf \<and> tbl_shape cf c
     \<and> pool_ok (MaxConnCnt cf) (conns c) (conn_cnt c) (live_ids cf (content (conn_tbl c)))
     \<and> pool_ok (MaxTimeWaitConnCnt cf) (tw_ids c) (tw_cnt c) (tw_live_ids cf (content (conn_tbl c)))
     \<and> 2 * size (content (conn_tbl c)) \<le> unat (tbl_mask c)"

abbreviation conn_lookup :: "'a ConnTbl_scheme \<Rightarrow> u64 \<rightharpoonup> u32" where
  "conn_lookup c \<equiv> tbl_map (conn_tbl c)"

lemma size_pool: "pool_ok n ids cnt used \<Longrightarrow> size used = unat cnt"
proof -
  assume p: "pool_ok n ids cnt used"
  then have "size (mset (drop (unat cnt) ids) + used) = unat n" by (simp add: pool_ok_def)
  moreover have "unat cnt \<le> unat n" "length ids = unat n" using p by (auto simp: pool_ok_def)
  ultimately show ?thesis by simp
qed

lemma size_live: "size (live_ids cf M) + size (tw_live_ids cf M) = size M"
proof -
  have "size (filter_mset P N) + size (filter_mset (\<lambda>x. \<not> P x) N) = size N" for P and N :: "u32 multiset"
    by (metis multiset_partition size_union)
  from this [of "\<lambda>i. i < MaxConnCnt cf" "image_mset conn_id M"] show ?thesis
    by (simp add: live_ids_def tw_live_ids_def)
qed

lemma all_ids_distinct: "distinct (map (of_nat :: nat \<Rightarrow> u32) [0..<unat (n :: u32)])"
proof -
  have "inj_on (of_nat :: nat \<Rightarrow> u32) {0..<unat n}"
  proof (rule inj_onI)
    fix x y assume a: "x \<in> {0..<unat n}" "y \<in> {0..<unat n}" "(of_nat x :: u32) = of_nat y"
    then have "x < 4294967296" "y < 4294967296" using unat_lt_u32 [of n] by (auto simp del: unat_lt_u32)
    then have "unat (of_nat x :: u32) = x" "unat (of_nat y :: u32) = y" by (simp_all add: unat_of_nat)
    then show "x = y" using a(3) by metis
  qed
  then show ?thesis by (simp add: distinct_map)
qed

lemma pool_used:
  assumes "pool_ok n ids cnt used" "i \<in># used"
  shows "i < n" "i \<notin> set (drop (unat cnt) ids)"
proof -
  let ?all = "map (of_nat :: nat \<Rightarrow> u32) [0..<unat n]"
  have eq: "mset (drop (unat cnt) ids) + used = mset ?all" using assms(1) by (simp add: pool_ok_def)
  have "i \<in># mset ?all" using assms(2) eq [symmetric] by (simp del: mset_map)
  then obtain j where "j < unat n" "i = of_nat j" by auto
  moreover from this have "unat (of_nat j :: u32) = j" using unat_lt_u32 [of n]
    by (simp add: unat_of_nat del: unat_lt_u32)
  ultimately show "i < n" by (simp add: word_less_nat_alt)
  show "i \<notin> set (drop (unat cnt) ids)"
  proof
    assume "i \<in> set (drop (unat cnt) ids)"
    then have "1 \<le> count (mset (drop (unat cnt) ids)) i" "1 \<le> count used i"
      using assms(2) by (simp_all add: Suc_le_eq)
    then have "1 + 1 \<le> count (mset (drop (unat cnt) ids) + used) i"
      unfolding count_union by (rule add_mono)
    then have "2 \<le> count (mset ?all) i" using eq by simp
    then show False using all_ids_distinct [of n] by (simp add: distinct_count_atmost_1 del: mset_map split: if_splits)
  qed
qed

text \<open>Taking the next free id, and giving one back.\<close>

lemma pool_take:
  assumes p: "pool_ok n ids cnt used" and c: "unat cnt < unat n"
  shows "pool_ok n ids (cnt + 1) (add_mset (ids ! unat cnt) used)"
    and "ids ! unat cnt < n" and "ids ! unat cnt \<notin># used"
proof -
  have len: "length ids = unat n" using p by (simp add: pool_ok_def)
  have u: "unat (cnt + 1) = unat cnt + 1" 
  proof (rule unat_add_u32_nowrap [THEN trans])
    show "unat cnt + unat (1 :: u32) < 4294967296" using c unat_lt_u32 [of n] by (simp del: unat_lt_u32)
  qed simp
  have d: "drop (unat cnt) ids = ids ! unat cnt # drop (unat cnt + 1) ids"
    using c len by (simp add: Cons_nth_drop_Suc)
  then show p': "pool_ok n ids (cnt + 1) (add_mset (ids ! unat cnt) used)"
    using p c by (simp add: pool_ok_def u)
  show "ids ! unat cnt < n" using pool_used(1) [OF p'] by simp
  show "ids ! unat cnt \<notin># used" using pool_used(2) [OF p] d by fastforce
qed

lemma pool_give:
  assumes p: "pool_ok n ids cnt (add_mset i used)"
  shows "unat (cnt - 1) < length ids" and "pool_ok n (ids[unat (cnt - 1) := i]) (cnt - 1) used"
proof -
  have sz: "unat cnt = Suc (size used)" using size_pool [OF p] by simp
  then have "cnt \<noteq> 0" by auto
  then have u: "unat (cnt - 1) = unat cnt - 1" by (rule unat_minus_one)
  show l: "unat (cnt - 1) < length ids" using p sz u by (simp add: pool_ok_def)
  have "drop (unat (cnt - 1)) (ids[unat (cnt - 1) := i]) = i # drop (unat cnt) ids"
    using l u sz by (subst Cons_nth_drop_Suc [symmetric]) simp_all
  then show "pool_ok n (ids[unat (cnt - 1) := i]) (cnt - 1) used"
    using p u by (auto simp: pool_ok_def)
qed


subsection \<open>What the invariant gives\<close>

lemma tbl_size: "tbl_ok cf c \<Longrightarrow> size (content (conn_tbl c)) = unat (conn_cnt c) + unat (tw_cnt c)"
  using size_pool size_live [of cf "content (conn_tbl c)"] by (fastforce simp: tbl_ok_def)

lemma tbl_size_le: "tbl_ok cf c \<Longrightarrow> size (content (conn_tbl c)) \<le> max_entries cf"
  using tbl_size [of cf c] by (auto simp: tbl_ok_def pool_ok_def)

lemma tbl_mask_bits:
  assumes "conf_ok cf" "tbl_shape cf c"
  obtains b where "tbl_mask c = mask b" "2 ^ b \<le> unat (MaxTableSize cf)" "0 < b" "b \<le> 31"
    "unat (tbl_mask c) = 2 ^ b - 1" "tbl_mask c < EmptyKey"
proof -
  obtain b where b: "tbl_mask c = mask b" "2 ^ b \<le> unat (MaxTableSize cf)" "0 < b"
    using assms(2) by (auto simp: tbl_shape_def)
  have "(2 :: nat) ^ b \<le> 2 ^ 31"
    using b(2) unat_MaxTableSize(3) [OF assms(1)] assms(1) by (simp add: conf_ok_def)
  then have "b \<le> 31" by (rule power_le_imp_le_exp [rotated]) simp
  moreover from this have "unat (tbl_mask c) = 2 ^ b - 1" using unat_mask64 b(1) by simp
  moreover from this have "tbl_mask c < EmptyKey"
    using \<open>2 ^ b \<le> 2 ^ 31\<close> by (simp add: word_less_nat_alt EmptyKey_def)
  ultimately show thesis using that b by blast
qed

lemma tbl_roomy:
  assumes "conf_ok cf" "tbl_shape cf c" "size (content (conn_tbl c)) \<le> max_entries cf"
  shows "roomy (tbl_mask c) (conn_tbl c)"
proof -
  obtain b where b: "2 ^ b \<le> unat (MaxTableSize cf)" "unat (tbl_mask c) = 2 ^ b - 1"
    using tbl_mask_bits [OF assms(1,2)] .
  have "0 < (2 :: nat) ^ b" by simp
  then show ?thesis
    using b assms unat_TotalTableSize [OF assms(1)] unfolding roomy_def tbl_shape_def by linarith
qed

lemma tbl_ok_roomy: "tbl_ok cf c \<Longrightarrow> roomy (tbl_mask c) (conn_tbl c)"
  using tbl_roomy tbl_size_le by (fastforce simp: tbl_ok_def)

lemma tbl_ok_inv: "tbl_ok cf c \<Longrightarrow> tbl_inv (tbl_mask c) (conn_tbl c)"
  by (simp add: tbl_ok_def tbl_shape_def)

lemma conn_find:
  assumes "tbl_ok cf c" "k < EmptyKey"
  obtains j where "findConnEntry c k = Some j" "j < length (conn_tbl c)"
    "conn_lookup c k = (if key (conn_tbl c ! j) = k then Some (conn_id (conn_tbl c ! j)) else None)"
  using find_spec [OF tbl_ok_inv [OF assms(1)] tbl_ok_roomy [OF assms(1)] assms(2)]
  unfolding findConnEntry_def by blast

lemma conn_find_present:
  assumes "tbl_ok cf c" "k < EmptyKey" "conn_lookup c k = Some i"
  obtains j where "findConnEntry c k = Some j" "j < length (conn_tbl c)"
    "conn_tbl c ! j = \<lparr>key = k, conn_id = i\<rparr>"
proof (rule conn_find [OF assms(1,2)])
  fix j assume a: "findConnEntry c k = Some j" "j < length (conn_tbl c)"
    "conn_lookup c k = (if key (conn_tbl c ! j) = k then Some (conn_id (conn_tbl c ! j)) else None)"
  then have "conn_tbl c ! j = \<lparr>key = k, conn_id = i\<rparr>" using assms(3) by (auto split: if_splits)
  then show thesis using that a by blast
qed

lemma tbl_map_add:
  assumes "tbl_inv m t" "tbl_inv m' t'" "content t' = add_mset \<lparr>key = k, conn_id = i\<rparr> (content t)"
    and "tbl_map t k = None"
  shows "tbl_map t' = (tbl_map t)(k \<mapsto> i)"
proof
  fix x
  have "tbl_map t' x = Some v \<longleftrightarrow> ((tbl_map t)(k \<mapsto> i)) x = Some v" for v
    using assms(3,4) tbl_map_content [OF assms(1), of k v]
    by (auto simp: tbl_map_content [OF assms(2)] tbl_map_content [OF assms(1)])
  then show "tbl_map t' x = ((tbl_map t)(k \<mapsto> i)) x" by (rule option_ext)
qed

lemma tbl_map_remove:
  assumes inv: "tbl_inv m t" "tbl_inv m' t'" and eq: "content t = add_mset e (content t')"
  shows "tbl_map t' = (tbl_map t)(key e := None)"
proof -
  have "distinct (map key (filter (\<lambda>e. key e \<noteq> EmptyKey) t))"
    by (rule distinct_map_filterI) (metis keys_distinct [OF inv(1)] occ_def less_irrefl order.strict_trans)
  moreover have "mset (map key (filter (\<lambda>e. key e \<noteq> EmptyKey) t)) = image_mset key (content t)"
    by (simp add: content_def)
  ultimately have "count (image_mset key (content t)) (key e) \<le> 1"
    unfolding distinct_count_atmost_1 by (metis le_refl zero_le_one)
  then have "count (image_mset key (content t')) (key e) = 0" by (simp add: eq)
  then have "key e \<notin># image_mset key (content t')" by (simp only: count_eq_zero_iff) simp
  then have none: "tbl_map t' (key e) = None"
    using tbl_map_content [OF inv(2)] by (metis ConnHashEntry.select_convs(1) image_eqI not_None_eq set_image_mset)
  have "\<lparr>key = key e, conn_id = conn_id e\<rparr> = e" by simp
  then have "tbl_map t = (tbl_map t')(key e \<mapsto> conn_id e)"
    using tbl_map_add [OF inv(2,1) _ none] eq by metis
  then show ?thesis using none by (simp add: fun_upd_idem)
qed


subsection \<open>Accepting a connection\<close>

text \<open>
  The slot behind the mask must be empty when the table grows: the loop that moves the entries
  stored past the mask does not keep the invariant.
\<close>

definition overflow_free :: "nat \<Rightarrow> u64 \<Rightarrow> 'a ConnTbl_scheme \<Rightarrow> bool" where
  "overflow_free entry k c \<longleftrightarrow>
     (case addLoop (conn_tbl c) entry k 0 of
        None \<Rightarrow> True
      | Some tbl \<Rightarrow> 2 * Suc (unat (conn_cnt c) + unat (tw_cnt c)) \<le> unat (tbl_mask c)
                     \<or> key (tbl ! Suc (unat (tbl_mask c))) = EmptyKey)"

lemma scan_keys: "map key t = map key t' \<Longrightarrow> scan t k i = scan t' k i"
proof (induction t k i rule: scan.induct)
  case (1 t k i)
  have len: "length t = length t'" using 1(2) by (rule map_eq_imp_length_eq)
  have "i < length t \<Longrightarrow> key (t ! i) = key (t' ! i)" using 1(2) by (metis len nth_map)
  then show ?case using 1 len by (simp add: scan.simps [of t] scan.simps [of t'])
qed

lemma addLoop_keys:
  "map key t = map key t' \<Longrightarrow> map_option (map key) (addLoop t e k i) = map_option (map key) (addLoop t' e k i')"
proof (induction t e k i arbitrary: t' i' rule: addLoop.induct)
  case (1 t e k i)
  have len: "length t = length t'" using 1(2) by (rule map_eq_imp_length_eq)
  have ke: "e < length t \<Longrightarrow> key (t ! e) = key (t' ! e)" using 1(2) by (metis len nth_map)
  have upd: "map key (t[e := \<lparr>key = k, conn_id = i\<rparr>]) = map key (t'[e := \<lparr>key = k, conn_id = i'\<rparr>])"
    using 1(2) by (simp add: map_update)
  note sc = scan_keys [OF upd, of "key (t ! e)" "Suc e"]
  show ?case
  proof (cases "e < length t \<and> key (t ! e) \<noteq> EmptyKey")
    case False
    then show ?thesis using len ke upd
      by (subst addLoop.simps, subst addLoop.simps) auto
  next
    case True
    then have IH: "\<And>j. scan (t[e := \<lparr>key = k, conn_id = i\<rparr>]) (key (t ! e)) (Suc e) = Some j \<Longrightarrow>
        map_option (map key) (addLoop (t[e := \<lparr>key = k, conn_id = i\<rparr>]) j (key (t ! e)) (conn_id (t ! e)))
        = map_option (map key) (addLoop (t'[e := \<lparr>key = k, conn_id = i'\<rparr>]) j (key (t ! e)) (conn_id (t' ! e)))"
      using 1(1) [OF _ _ refl refl _ upd] by blast
    show ?thesis using True len ke sc IH
      by (subst addLoop.simps, subst addLoop.simps) (auto simp: Let_def split: option.split)
  qed
qed

lemma overflow_freeD:
  assumes "overflow_free e k c" "addLoop (conn_tbl c) e k i = Some t" "Suc (unat (tbl_mask c)) < length t"
    and "unat (tbl_mask c) < 2 * Suc (unat (conn_cnt c) + unat (tw_cnt c))"
  shows "key (t ! Suc (unat (tbl_mask c))) = EmptyKey"
proof -
  obtain t0 where t0: "addLoop (conn_tbl c) e k 0 = Some t0" "map key t0 = map key t"
    using addLoop_keys [OF refl, of "conn_tbl c" e k 0 i] assms(2) by (auto simp: map_option_case split: option.splits)
  then have "length t0 = length t" by (metis length_map)
  then have "key (t0 ! Suc (unat (tbl_mask c))) = key (t ! Suc (unat (tbl_mask c)))"
    using t0(2) assms(3) by (metis nth_map)
  then show ?thesis using assms(1,4) t0(1) by (auto simp: overflow_free_def)
qed


lemma addConnEntry_spec:
  assumes cf: "conf_ok cf" and shape: "tbl_shape cf c" and e: "findConnEntry c k = Some e"
    and k: "k < EmptyKey" "conn_lookup c k = None"
    and n: "size (content (conn_tbl c)) < max_entries cf" "2 * size (content (conn_tbl c)) \<le> unat (tbl_mask c)"
    and cnt: "unat (conn_cnt c) + unat (tw_cnt c) = Suc (size (content (conn_tbl c)))"
    and ovf: "\<And>t. addLoop (conn_tbl c) e k i = Some t \<Longrightarrow> Suc (unat (tbl_mask c)) < length t \<Longrightarrow>
        unat (tbl_mask c) < 2 * Suc (size (content (conn_tbl c))) \<Longrightarrow> key (t ! Suc (unat (tbl_mask c))) = EmptyKey"
  shows "\<exists>m t. addConnEntry e k i c = Some (c\<lparr>tbl_mask := m, conn_tbl := t\<rparr>)
    \<and> tbl_shape cf (c\<lparr>tbl_mask := m, conn_tbl := t\<rparr>)
    \<and> content t = add_mset \<lparr>key = k, conn_id = i\<rparr> (content (conn_tbl c))
    \<and> 2 * size (content t) \<le> unat m"
proof -
  let ?t = "conn_tbl c" and ?m = "tbl_mask c"
  have inv: "tbl_inv ?m ?t" and len: "length ?t = unat (TotalTableSize cf)"
    using shape by (auto simp: tbl_shape_def)
  have room: "roomy ?m ?t" using tbl_roomy [OF cf shape] n(1) by simp
  have new: "\<forall>p. occ ?t p \<longrightarrow> key (?t ! p) \<noteq> k" using k(2) tbl_map_iff [OF inv, of k] by (metis option.distinct(1))
  obtain t where t: "addLoop ?t e k i = Some t" "tbl_inv ?m t" "length t = length ?t"
      "content t = add_mset \<lparr>key = k, conn_id = i\<rparr> (content ?t)"
    using addLoop_spec [OF inv room k(1) new] e unfolding findConnEntry_def by blast
  let ?c = "c\<lparr>conn_tbl := t\<rparr>"
  have "unat (getTblSize ?c) = unat (conn_cnt c) + unat (tw_cnt c)"
    unfolding getTblSize_def using cnt n(1) cf by (simp add: conf_ok_def unat_add_u32_nowrap)
  then have sz: "unat (getTblSize ?c) = size (content t)" using cnt t(4) by simp
  have "size (content t) \<le> 2 ^ 29" using t(4) n(1) cf by (simp add: conf_ok_def)
  then have dbl: "unat (ucast (getTblSize ?c * 2) :: u64) = 2 * size (content t)"
    using sz by (simp add: unat_word_ariths)
  obtain b where b: "?m = mask b" "2 ^ b \<le> unat (MaxTableSize cf)" "b \<le> 31" "unat ?m = 2 ^ b - 1"
    and b0: "0 < b" using tbl_mask_bits [OF cf shape] .
  have pos: "0 < (2 :: nat) ^ b" by simp
  show ?thesis
  proof (cases "2 * size (content t) \<le> unat ?m")
    case True
    then have "addConnEntry e k i c = Some (c\<lparr>tbl_mask := ?m, conn_tbl := t\<rparr>)"
      using t(1) dbl unfolding addConnEntry_def tryExpandConnTbl_def by (simp add: word_le_nat_alt)
    then show ?thesis using True t shape by (intro exI [of _ ?m] exI [of _ t]) (simp add: tbl_shape_def)
  next
    case False
    have "2 * size (content t) < 2 ^ (1 + getMSB (MaxConnCnt cf + MaxTimeWaitConnCnt cf))"
      using t(4) n(1) unat_MaxTableSize(1,2) [OF cf] by simp
    then have "(2 :: nat) ^ b < 2 ^ (1 + getMSB (MaxConnCnt cf + MaxTimeWaitConnCnt cf))"
      using False b(4) by linarith
    then have "b < 1 + getMSB (MaxConnCnt cf + MaxTimeWaitConnCnt cf)"
      by (rule power_less_imp_less_exp [rotated]) simp
    then have "(2 :: nat) ^ Suc b \<le> 2 ^ (1 + getMSB (MaxConnCnt cf + MaxTimeWaitConnCnt cf))"
      by (intro power_increasing) simp_all
    then have max: "2 ^ Suc b \<le> unat (MaxTableSize cf)" unfolding unat_MaxTableSize(1) [OF cf] .
    then have big: "2 ^ Suc b \<le> length t" using len t(3) unat_TotalTableSize [OF cf] by simp
    have u: "Suc (unat ?m) = 2 ^ b" using b(4) pos by simp
    have "2 ^ b < length t" using big pos by (simp only: power_Suc)
    then have "key (t ! (2 ^ b)) = EmptyKey" using ovf [OF t(1)] u False t(4) by simp
    moreover have "\<not> (ucast (getTblSize ?c * 2) :: u64) \<le> tbl_mask ?c"
      using False dbl by (simp add: word_le_nat_alt)
    ultimately obtain t' where t': "tryExpandConnTbl ?c = Some (?c\<lparr>tbl_mask := mask (Suc b), conn_tbl := t'\<rparr>)"
        "length t' = length t" "content t' = content t" "tbl_inv (mask (Suc b)) t'"
      using tryExpand_grow [of ?c b] t(2) b(1,3) big sz by auto
    have half: "2 * size (content t') \<le> unat (mask (Suc b) :: u64)"
    proof -
      obtain b' where "b = Suc b'" using b0 by (cases b) auto
      then have "2 * size (content ?t) \<le> 2 * 2 ^ b' - 1" using n(2) b(4) by simp
      moreover have "0 < (2 :: nat) ^ b'" by simp
      ultimately have "2 * size (content ?t) + 2 \<le> 2 ^ Suc b - 1" unfolding \<open>b = Suc b'\<close> power_Suc by linarith
      then show ?thesis using t'(3) t(4) unat_mask64 [of "Suc b"] b(3) by simp
    qed
    have "addConnEntry e k i c = Some (c\<lparr>tbl_mask := mask (Suc b), conn_tbl := t'\<rparr>)"
      using t(1) t'(1) unfolding addConnEntry_def by simp
    moreover have "tbl_shape cf (c\<lparr>tbl_mask := mask (Suc b), conn_tbl := t'\<rparr>)"
      using max len t(3) t'(2,4) unfolding tbl_shape_def by (auto intro!: exI [of _ "Suc b"])
    ultimately show ?thesis using t'(3) t(4) half by metis
  qed
qed

lemma live_add:
  "i < MaxConnCnt cf \<Longrightarrow> live_ids cf (add_mset \<lparr>key = k, conn_id = i\<rparr> M) = add_mset i (live_ids cf M)"
  "i < MaxConnCnt cf \<Longrightarrow> tw_live_ids cf (add_mset \<lparr>key = k, conn_id = i\<rparr> M) = tw_live_ids cf M"
  "\<not> i < MaxConnCnt cf \<Longrightarrow> live_ids cf (add_mset \<lparr>key = k, conn_id = i\<rparr> M) = live_ids cf M"
  "\<not> i < MaxConnCnt cf \<Longrightarrow>
     tw_live_ids cf (add_mset \<lparr>key = k, conn_id = i\<rparr> M) = add_mset (i - MaxConnCnt cf) (tw_live_ids cf M)"
  by (simp_all add: live_ids_def tw_live_ids_def)

lemma allocConn_spec:
  assumes ok: "tbl_ok cf c" and room: "conn_cnt c < MaxConnCnt cf"
    and k: "k < EmptyKey" "conn_lookup c k = None"
    and e: "findConnEntry c k = Some e" and ovf: "overflow_free e k c"
  shows "\<exists>cid c'. allocConn e k c = Some (cid, c') \<and> tbl_ok cf c'
    \<and> conn_lookup c' = (conn_lookup c)(k \<mapsto> cid) \<and> cid < MaxConnCnt cf
    \<and> cid \<notin> ran (conn_lookup c) \<and> conn_cnt c' = conn_cnt c + 1 \<and> tw_cnt c' = tw_cnt c"
proof -
  let ?t = "conn_tbl c" and ?M = "content (conn_tbl c)"
  have cf: "conf_ok cf" and shape: "tbl_shape cf c"
    and pc: "pool_ok (MaxConnCnt cf) (conns c) (conn_cnt c) (live_ids cf ?M)"
    and pt: "pool_ok (MaxTimeWaitConnCnt cf) (tw_ids c) (tw_cnt c) (tw_live_ids cf ?M)"
    and half: "2 * size ?M \<le> unat (tbl_mask c)"
    using ok by (auto simp: tbl_ok_def)
  have lt: "unat (conn_cnt c) < unat (MaxConnCnt cf)" using room by (simp add: word_less_nat_alt)
  define cid where "cid = conns c ! unat (conn_cnt c)"
  note new = pool_take [OF pc lt, folded cid_def]
  let ?c = "c\<lparr>conn_cnt := conn_cnt c + 1\<rparr>"
  have size: "size ?M = unat (conn_cnt c) + unat (tw_cnt c)" by (rule tbl_size [OF ok])
  have lt': "size ?M < max_entries cf" using lt size pt by (auto simp: pool_ok_def)
  have "unat (conn_cnt c + 1) = unat (conn_cnt c) + 1" 
    using unat_add_u32_nowrap [of "conn_cnt c" 1] lt unat_lt_u32 [of "MaxConnCnt cf"] by (simp del: unat_lt_u32)
  then have cnt: "unat (conn_cnt ?c) + unat (tw_cnt ?c) = Suc (size (content (conn_tbl ?c)))"
    using size by simp
  have "\<exists>m t. addConnEntry e k cid ?c = Some (?c\<lparr>tbl_mask := m, conn_tbl := t\<rparr>)
      \<and> tbl_shape cf (?c\<lparr>tbl_mask := m, conn_tbl := t\<rparr>)
      \<and> content t = add_mset \<lparr>key = k, conn_id = cid\<rparr> (content (conn_tbl ?c)) \<and> 2 * size (content t) \<le> unat m"
  proof (rule addConnEntry_spec [OF cf _ _ k(1)])
    show "tbl_shape cf ?c" using shape by (simp add: tbl_shape_def)
    show "findConnEntry ?c k = Some e" using e by (simp add: findConnEntry_def)
  qed (use k lt' half cnt overflow_freeD [OF ovf] size in simp_all)
  then obtain m t where mt: "addConnEntry e k cid ?c = Some (?c\<lparr>tbl_mask := m, conn_tbl := t\<rparr>)"
      "tbl_shape cf (?c\<lparr>tbl_mask := m, conn_tbl := t\<rparr>)"
      "content t = add_mset \<lparr>key = k, conn_id = cid\<rparr> ?M" "2 * size (content t) \<le> unat m" by auto
  let ?c' = "?c\<lparr>tbl_mask := m, conn_tbl := t\<rparr>"
  have "allocConn e k c = Some (cid, ?c')"
    unfolding allocConn_def using mt(1) pc lt by (simp add: cid_def pool_ok_def)
  moreover have "tbl_ok cf ?c'"
    unfolding tbl_ok_def using cf mt(2-4) new(1) pt live_add(1,2) [OF new(2)] by simp
  moreover have "conn_lookup ?c' = (conn_lookup c)(k \<mapsto> cid)"
    using tbl_map_add [OF tbl_ok_inv [OF ok] _ mt(3) k(2), of m] mt(2) by (simp add: tbl_shape_def)
  moreover have "cid \<notin> ran (conn_lookup c)"
  proof
    assume "cid \<in> ran (conn_lookup c)"
    then obtain x where "\<lparr>key = x, conn_id = cid\<rparr> \<in># ?M"
      using tbl_map_content [OF tbl_ok_inv [OF ok]] by (auto simp: ran_def)
    then have "cid \<in># live_ids cf ?M" using new(2) by (force simp: live_ids_def)
    then show False using new(3) by simp
  qed
  ultimately show ?thesis using new(2) by fastforce
qed


subsection \<open>Closing a connection\<close>

lemma delConnEntry_spec:
  assumes ok: "tbl_ok cf c" and k: "k < EmptyKey" "conn_lookup c k = Some i"
  shows "\<exists>c'. delConnEntry cf k c = Some c' \<and> tbl_ok cf c' \<and> conn_lookup c' = (conn_lookup c)(k := None)
    \<and> (if i < MaxConnCnt cf then conn_cnt c' = conn_cnt c - 1 \<and> tw_cnt c' = tw_cnt c
       else conn_cnt c' = conn_cnt c \<and> tw_cnt c' = tw_cnt c - 1)"
proof -
  let ?t = "conn_tbl c" and ?M = "content (conn_tbl c)" and ?m = "tbl_mask c"
  have cf: "conf_ok cf" and shape: "tbl_shape cf c"
    and pc: "pool_ok (MaxConnCnt cf) (conns c) (conn_cnt c) (live_ids cf ?M)"
    and pt: "pool_ok (MaxTimeWaitConnCnt cf) (tw_ids c) (tw_cnt c) (tw_live_ids cf ?M)"
    and half: "2 * size ?M \<le> unat ?m"
    using ok by (auto simp: tbl_ok_def)
  note inv = tbl_ok_inv [OF ok]
  obtain j where j: "findConnEntry c k = Some j" "j < length ?t" "?t ! j = \<lparr>key = k, conn_id = i\<rparr>"
    using conn_find_present [OF ok k] .
  have occ: "occ ?t j" using j k(1) by (simp add: occ_def)
  note M = tbl_hole_content [OF occ, unfolded j(3)]
  have m: "?m < EmptyKey" using tbl_mask_bits [OF cf shape] .
  have "unat ?m + size (hole_content ?t j) + 1 < length ?t"
    using tbl_ok_roomy [OF ok] M by (simp add: roomy_def)
  then obtain t where t: "delLoop ?t ?m j = Some t" "tbl_inv ?m t" "length t = length ?t"
      "content t = hole_content ?t j"
    using delLoop_spec [OF tbl_inv_hole [OF inv occ] m] by blast
  have map: "tbl_map t = (conn_lookup c)(k := None)"
    using tbl_map_remove [OF inv t(2), of "\<lparr>key = k, conn_id = i\<rparr>"] M t(4) by simp
  have half': "2 * size (content t) \<le> unat ?m" using half M t(4) by simp
  show ?thesis
  proof (cases "i < MaxConnCnt cf")
    case True
    note give = pool_give [OF pc [unfolded M live_add(1) [OF True]]]
    let ?c = "c\<lparr>conn_cnt := conn_cnt c - 1, conns := (conns c)[unat (conn_cnt c - 1) := i], conn_tbl := t\<rparr>"
    have "delConnEntry cf k c = Some ?c"
      unfolding delConnEntry_def using j True give(1) t(1) by (simp add: findConnEntry_def Let_def)
    moreover have "tbl_ok cf ?c"
      unfolding tbl_ok_def using cf shape give(2) pt [unfolded M live_add(2) [OF True]] t half'
      by (simp add: tbl_shape_def)
    ultimately show ?thesis using map True by simp
  next
    case False
    note give = pool_give [OF pt [unfolded M live_add(4) [OF False]]]
    let ?c = "c\<lparr>tw_cnt := tw_cnt c - 1,
      tw_ids := (tw_ids c)[unat (tw_cnt c - 1) := i - MaxConnCnt cf], conn_tbl := t\<rparr>"
    have "delConnEntry cf k c = Some ?c"
      unfolding delConnEntry_def using j False give(1) t(1) by (simp add: findConnEntry_def Let_def)
    moreover have "tbl_ok cf ?c"
      unfolding tbl_ok_def using cf shape give(2) pc [unfolded M live_add(3) [OF False]] t half'
      by (simp add: tbl_shape_def)
    ultimately show ?thesis using map False by simp
  qed
qed

subsection \<open>Entering time-wait\<close>

lemma tbl_inv_conn_id:
  assumes "tbl_inv m t" "j < length t"
  shows "tbl_inv m (t[j := (t ! j)\<lparr>conn_id := i\<rparr>])" (is "tbl_inv m ?t")
proof -
  have key: "key (?t ! p) = key (t ! p)" for p by (cases "p = j") (use assms(2) in simp_all)
  then have "occ ?t p = occ t p" for p by (simp add: occ_def)
  then show ?thesis using assms(1) key by (simp add: tbl_inv_def)
qed

lemma moveToTW_spec:
  assumes ok: "tbl_ok cf c" and k: "k < EmptyKey" "conn_lookup c k = Some i"
    and i: "i < MaxConnCnt cf" and tw: "tw_cnt c < MaxTimeWaitConnCnt cf"
  shows "\<exists>tw_id c'. moveToTW cf k c = Some (tw_id, c') \<and> tbl_ok cf c'
    \<and> conn_lookup c' = (conn_lookup c)(k \<mapsto> MaxConnCnt cf + tw_id)
    \<and> tw_id < MaxTimeWaitConnCnt cf \<and> MaxConnCnt cf + tw_id \<notin> ran (conn_lookup c)
    \<and> conn_cnt c' = conn_cnt c - 1 \<and> tw_cnt c' = tw_cnt c + 1"
proof -
  let ?t = "conn_tbl c" and ?M = "content (conn_tbl c)" and ?m = "tbl_mask c"
  have cf: "conf_ok cf" and shape: "tbl_shape cf c"
    and pc: "pool_ok (MaxConnCnt cf) (conns c) (conn_cnt c) (live_ids cf ?M)"
    and pt: "pool_ok (MaxTimeWaitConnCnt cf) (tw_ids c) (tw_cnt c) (tw_live_ids cf ?M)"
    and half: "2 * size ?M \<le> unat ?m"
    using ok by (auto simp: tbl_ok_def)
  note inv = tbl_ok_inv [OF ok]
  obtain j where j: "findConnEntry c k = Some j" "j < length ?t" "?t ! j = \<lparr>key = k, conn_id = i\<rparr>"
    using conn_find_present [OF ok k] .
  have occ: "occ ?t j" using j k(1) by (simp add: occ_def)
  note M = tbl_hole_content [OF occ, unfolded j(3)]
  note give = pool_give [OF pc [unfolded M live_add(1) [OF i]]]
  have lt: "unat (tw_cnt c) < unat (MaxTimeWaitConnCnt cf)" using tw by (simp add: word_less_nat_alt)
  define w where "w = tw_ids c ! unat (tw_cnt c)"
  note new = pool_take [OF pt lt, folded w_def]
  have "unat (MaxConnCnt cf) + unat w < 4294967296"
    using new(2) cf by (simp add: conf_ok_def word_less_nat_alt)
  then have "unat (MaxConnCnt cf + w) = unat (MaxConnCnt cf) + unat w" by (rule unat_add_u32_nowrap)
  then have W: "\<not> MaxConnCnt cf + w < MaxConnCnt cf" by (simp add: word_less_nat_alt)
  let ?e = "\<lparr>key = k, conn_id = MaxConnCnt cf + w\<rparr>"
  let ?t' = "?t[j := ?e]"
  have cont: "content ?t' = add_mset ?e (hole_content ?t j)"
    using content_update [OF j(2), of ?e] occ k(1) M j(3) by simp
  have inv': "tbl_inv ?m ?t'"
    using tbl_inv_conn_id [OF inv j(2), of "MaxConnCnt cf + w"] j(3) by simp
  let ?c = "c\<lparr>conn_cnt := conn_cnt c - 1, conns := (conns c)[unat (conn_cnt c - 1) := i],
    tw_cnt := tw_cnt c + 1, conn_tbl := ?t'\<rparr>"
  have "moveToTW cf k c = Some (w, ?c)"
    unfolding moveToTW_def using j give(1) lt pt by (simp add: w_def pool_ok_def Let_def)
  moreover have "tbl_ok cf ?c"
  proof -
    have "live_ids cf (content ?t') = live_ids cf (hole_content ?t j)"
      "tw_live_ids cf (content ?t') = add_mset w (tw_live_ids cf ?M)"
      unfolding cont M live_add(3,4) [OF W] live_add(2) [OF i] by simp_all
    then show ?thesis unfolding tbl_ok_def
      using cf shape give(2) new(1) inv' half M cont by (simp add: tbl_shape_def)
  qed
  moreover have "conn_lookup ?c = (conn_lookup c)(k \<mapsto> MaxConnCnt cf + w)"
  proof
    fix x
    have "tbl_map ?t' x = Some v \<longleftrightarrow> ((conn_lookup c)(k \<mapsto> MaxConnCnt cf + w)) x = Some v" for v
    proof (cases "x = k")
      case True
      have "tbl_map ?t' k = Some (MaxConnCnt cf + w)"
        unfolding tbl_map_content [OF inv'] cont by simp
      then show ?thesis using True by simp
    qed (simp add: tbl_map_content [OF inv'] tbl_map_content [OF inv] cont M)
    then show "conn_lookup ?c x = ((conn_lookup c)(k \<mapsto> MaxConnCnt cf + w)) x" by (intro option_ext) simp
  qed
  moreover have "MaxConnCnt cf + w \<notin> ran (conn_lookup c)"
  proof
    assume "MaxConnCnt cf + w \<in> ran (conn_lookup c)"
    then obtain x where "\<lparr>key = x, conn_id = MaxConnCnt cf + w\<rparr> \<in># ?M"
      using tbl_map_content [OF inv] by (auto simp: ran_def)
    then have "w \<in># tw_live_ids cf ?M" using W by (force simp: tw_live_ids_def image_iff)
    then show False using new(3) by simp
  qed
  ultimately show ?thesis using new(2) by fastforce
qed


subsection \<open>Initialisation\<close>

lemma initTbl_ok:
  assumes cf: "conf_ok cf" and len: "length (conn_tbl c) = unat (TotalTableSize cf)"
  shows "tbl_ok cf (initTbl cf c)" and "conn_lookup (initTbl cf c) = Map.empty"
proof -
  let ?t = "map (\<lambda>e. e\<lparr>key := EmptyKey\<rparr>) (conn_tbl c)"
  let ?B = "1 + getMSB (MaxConnCnt cf + MaxTimeWaitConnCnt cf)"
  note max = unat_MaxTableSize [OF cf]
  have no: "\<not> occ ?t p" for p by (simp add: occ_def)
  have empty: "content ?t = {#}" by (simp add: content_def filter_mset_eq_conv)
  have B: "0 < min ?B 7" by simp
  have u: "unat (min (MaxTableSize cf) 128) = 2 ^ min ?B 7"
  proof (cases "?B \<le> 7")
    case True
    then have "(2 :: nat) ^ ?B \<le> 2 ^ 7" by (intro power_increasing) simp_all
    then have "unat (MaxTableSize cf) \<le> 128" unfolding max(1) by simp
    then have "MaxTableSize cf \<le> 128" by (simp add: word_le_nat_alt)
    then have "min (MaxTableSize cf) 128 = MaxTableSize cf" by (simp add: min_def)
    then show ?thesis using True max(1) by (simp add: min_def)
  next
    case False
    then have "(2 :: nat) ^ 7 \<le> 2 ^ ?B" by (intro power_increasing) simp_all
    then have "128 \<le> unat (MaxTableSize cf)" unfolding max(1) by simp
    then have "128 \<le> MaxTableSize cf" by (simp add: word_le_nat_alt)
    then have "min (MaxTableSize cf) 128 = 128" by (simp add: min_def)
    then show ?thesis using False by simp
  qed
  have "1 \<le> (2 :: nat) ^ min ?B 7" by simp
  then have "min (MaxTableSize cf) 128 \<noteq> 0" using u by (metis not_one_le_zero unsigned_0)
  then have "unat (min (MaxTableSize cf) 128 - 1) = 2 ^ min ?B 7 - 1" using u by (simp add: unat_minus_one)
  moreover have "unat (mask (min ?B 7) :: u64) = 2 ^ min ?B 7 - 1" by (rule unat_mask64) simp
  ultimately have m: "(ucast (min (MaxTableSize cf) 128 - 1) :: u64) = mask (min ?B 7)"
    by (intro word_unat_eq_iff [THEN iffD2]) simp
  have "(2 :: nat) ^ min ?B 7 \<le> unat (MaxTableSize cf)" unfolding max(1) by (intro power_increasing) simp_all
  then have "tbl_shape cf (initTbl cf c)"
    unfolding tbl_shape_def initTbl_def using len m no B
    by (auto simp: tbl_inv_def occ_def intro!: exI [of _ "min ?B 7"])
  then show ok: "tbl_ok cf (initTbl cf c)"
    unfolding tbl_ok_def using cf empty
    by (simp add: initTbl_def pool_ok_def live_ids_def tw_live_ids_def)
  show "conn_lookup (initTbl cf c) = Map.empty"
  proof
    fix k
    have "conn_lookup (initTbl cf c) k \<noteq> Some i" for i
      using tbl_map_content [OF tbl_ok_inv [OF ok]] empty by (simp add: initTbl_def)
    then show "conn_lookup (initTbl cf c) k = None" by (metis not_None_eq)
  qed
qed

subsection \<open>The map interface\<close>

text \<open>
  What the rest of the stack uses of the table: peers are looked up, new ones get an id that no
  other peer has, a peer can change its id (time-wait) and can be removed.
\<close>

locale conn_map =
  fixes ok :: "'s \<Rightarrow> bool"
    and lookup :: "'s \<Rightarrow> 'k \<rightharpoonup> 'i"
    and can_insert :: "'k \<Rightarrow> 's \<Rightarrow> bool"
    and insert_peer :: "'k \<Rightarrow> 's \<Rightarrow> ('i \<times> 's) option"
    and can_rename :: "'k \<Rightarrow> 's \<Rightarrow> bool"
    and rename_peer :: "'k \<Rightarrow> 's \<Rightarrow> 's option"
    and delete_peer :: "'k \<Rightarrow> 's \<Rightarrow> 's option"
  assumes insert_law: "ok s \<Longrightarrow> lookup s k = None \<Longrightarrow> can_insert k s \<Longrightarrow>
      \<exists>i s'. insert_peer k s = Some (i, s') \<and> ok s' \<and> lookup s' = (lookup s)(k \<mapsto> i) \<and> i \<notin> ran (lookup s)"
    and rename_law: "ok s \<Longrightarrow> lookup s k \<noteq> None \<Longrightarrow> can_rename k s \<Longrightarrow>
      \<exists>i s'. rename_peer k s = Some s' \<and> ok s' \<and> lookup s' = (lookup s)(k \<mapsto> i) \<and> i \<notin> ran (lookup s)"
    and delete_law: "ok s \<Longrightarrow> lookup s k \<noteq> None \<Longrightarrow>
      \<exists>s'. delete_peer k s = Some s' \<and> ok s' \<and> lookup s' = (lookup s)(k := None)"
begin

definition good :: "'s \<Rightarrow> bool" where
  "good s \<longleftrightarrow> ok s \<and> inj_on (lookup s) (dom (lookup s))"

lemma inj_fresh:
  assumes "inj_on f (dom f)" "i \<notin> ran f"
  shows "inj_on (f(k \<mapsto> i)) (dom (f(k \<mapsto> i)))"
  using assms by (auto simp: inj_on_def ran_def dom_def)

lemma insert_good:
  assumes "good s" "lookup s k = None" "can_insert k s"
  shows "\<exists>i s'. insert_peer k s = Some (i, s') \<and> good s' \<and> lookup s' = (lookup s)(k \<mapsto> i)"
  using insert_law [of s k] assms inj_fresh unfolding good_def by metis

lemma rename_good:
  assumes "good s" "lookup s k \<noteq> None" "can_rename k s"
  shows "\<exists>i s'. rename_peer k s = Some s' \<and> good s' \<and> lookup s' = (lookup s)(k \<mapsto> i)"
  using rename_law [of s k] assms inj_fresh unfolding good_def by metis

lemma delete_good:
  assumes "good s" "lookup s k \<noteq> None"
  shows "\<exists>s'. delete_peer k s = Some s' \<and> good s' \<and> lookup s' = (lookup s)(k := None)"
proof -
  obtain s' where s': "delete_peer k s = Some s'" "ok s'" "lookup s' = (lookup s)(k := None)"
    using delete_law [of s k] assms by (auto simp: good_def)
  moreover have "inj_on (lookup s') (dom (lookup s'))"
    using assms(1) unfolding s'(3) good_def by (auto simp: inj_on_def dom_def)
  ultimately show ?thesis by (auto simp: good_def)
qed

lemma insert_delete:
  assumes "ok s" "lookup s k = None" "can_insert k s" "insert_peer k s = Some (i, s')"
  shows "\<exists>s''. delete_peer k s' = Some s'' \<and> ok s'' \<and> lookup s'' = lookup s"
proof -
  have s': "ok s'" "lookup s' = (lookup s)(k \<mapsto> i)" using insert_law [OF assms(1-3)] assms(4) by auto
  then show ?thesis using delete_law [of s' k] assms(2) by (auto simp: fun_upd_idem)
qed

end

text \<open>The operations by peer address.\<close>

type_synonym peer = "u32 \<times> u16"

abbreviation peer_key :: "peer \<Rightarrow> u64" where
  "peer_key pr \<equiv> connHashKey (fst pr) (snd pr)"

definition conn_of :: "'a ConnTbl_scheme \<Rightarrow> peer \<rightharpoonup> u32" where
  "conn_of c pr = conn_lookup c (peer_key pr)"

definition accept_peer :: "peer \<Rightarrow> 'a ConnTbl_scheme \<Rightarrow> (u32 \<times> 'a ConnTbl_scheme) option" where
  "accept_peer pr c = do { entry \<leftarrow> findConnEntry c (peer_key pr); allocConn entry (peer_key pr) c }"

definition can_accept :: "Conf \<Rightarrow> peer \<Rightarrow> 'a ConnTbl_scheme \<Rightarrow> bool" where
  "can_accept cf pr c \<longleftrightarrow> conn_cnt c \<noteq> MaxConnCnt cf
     \<and> (case findConnEntry c (peer_key pr) of None \<Rightarrow> False | Some e \<Rightarrow> overflow_free e (peer_key pr) c)"

definition can_wait :: "Conf \<Rightarrow> peer \<Rightarrow> 'a ConnTbl_scheme \<Rightarrow> bool" where
  "can_wait cf pr c \<longleftrightarrow> tw_cnt c \<noteq> MaxTimeWaitConnCnt cf
     \<and> (case conn_of c pr of None \<Rightarrow> False | Some i \<Rightarrow> i < MaxConnCnt cf)"

lemma peer_upd: "(\<lambda>pr. (m(peer_key pr0 := v)) (peer_key pr)) = (\<lambda>pr. m (peer_key pr))(pr0 := v)"
  by (auto simp: fun_eq_iff connHashKey_inj prod_eq_iff)

lemma ran_conn_of: "ran (conn_of c) \<subseteq> ran (conn_lookup c)"
  by (auto simp: ran_def conn_of_def)

lemma conn_of_upd: "conn_lookup c' = (conn_lookup c)(peer_key pr := v) \<Longrightarrow> conn_of c' = (conn_of c)(pr := v)"
  using peer_upd [of "conn_lookup c" pr v] by (simp add: conn_of_def [abs_def])

interpretation ct: conn_map "tbl_ok cf" conn_of "can_accept cf" accept_peer "can_wait cf"
  "\<lambda>pr c. map_option snd (moveToTW cf (peer_key pr) c)" "\<lambda>pr. delConnEntry cf (peer_key pr)" for cf
proof
  fix c :: "'a ConnTbl_scheme" and pr
  assume ok: "tbl_ok cf c" and new: "conn_of c pr = None" and can: "can_accept cf pr c"
  then obtain e where e: "findConnEntry c (peer_key pr) = Some e" "overflow_free e (peer_key pr) c"
    by (auto simp: can_accept_def split: option.splits)
  have "conn_cnt c < MaxConnCnt cf"
    using ok can by (auto simp: can_accept_def tbl_ok_def pool_ok_def word_less_nat_alt order_less_le word_unat_eq_iff)
  then obtain i c' where c': "allocConn e (peer_key pr) c = Some (i, c')" "tbl_ok cf c'"
      "conn_lookup c' = (conn_lookup c)(peer_key pr \<mapsto> i)" "i \<notin> ran (conn_lookup c)"
    using allocConn_spec [OF ok _ connHashKey_less _ e] new unfolding conn_of_def by blast
  then show "\<exists>i c'. accept_peer pr c = Some (i, c') \<and> tbl_ok cf c' \<and> conn_of c' = (conn_of c)(pr \<mapsto> i)
      \<and> i \<notin> ran (conn_of c)"
    using conn_of_upd [OF c'(3)] ran_conn_of [of c] e(1) by (auto simp: accept_peer_def)
next
  fix c :: "'a ConnTbl_scheme" and pr
  assume ok: "tbl_ok cf c" and known: "conn_of c pr \<noteq> None" and can: "can_wait cf pr c"
  then obtain i where i: "conn_lookup c (peer_key pr) = Some i" "i < MaxConnCnt cf"
    by (auto simp: can_wait_def conn_of_def)
  have "tw_cnt c < MaxTimeWaitConnCnt cf"
    using ok can by (auto simp: can_wait_def tbl_ok_def pool_ok_def word_less_nat_alt order_less_le word_unat_eq_iff)
  then obtain w c' where c': "moveToTW cf (peer_key pr) c = Some (w, c')" "tbl_ok cf c'"
      "conn_lookup c' = (conn_lookup c)(peer_key pr \<mapsto> MaxConnCnt cf + w)"
      "MaxConnCnt cf + w \<notin> ran (conn_lookup c)"
    using moveToTW_spec [OF ok connHashKey_less i] by blast
  then show "\<exists>i c'. map_option snd (moveToTW cf (peer_key pr) c) = Some c' \<and> tbl_ok cf c'
      \<and> conn_of c' = (conn_of c)(pr \<mapsto> i) \<and> i \<notin> ran (conn_of c)"
    using conn_of_upd [OF c'(3)] ran_conn_of [of c] by auto
next
  fix c :: "'a ConnTbl_scheme" and pr
  assume ok: "tbl_ok cf c" and known: "conn_of c pr \<noteq> None"
  then show "\<exists>c'. delConnEntry cf (peer_key pr) c = Some c' \<and> tbl_ok cf c' \<and> conn_of c' = (conn_of c)(pr := None)"
    using delConnEntry_spec [OF ok connHashKey_less] conn_of_upd unfolding conn_of_def by blast
qed


subsection \<open>The table as a state machine\<close>

text \<open>
  The steps that the packet and timer handlers take on the table, under the conditions the code
  checks before them.
\<close>

inductive tbl_step :: "Conf \<Rightarrow> ConnTbl \<Rightarrow> ConnTbl \<Rightarrow> bool" for cf where
  accept: "conn_of c pr = None \<Longrightarrow> can_accept cf pr c \<Longrightarrow> accept_peer pr c = Some (i, c') \<Longrightarrow> tbl_step cf c c'"
| close: "conn_of c pr \<noteq> None \<Longrightarrow> delConnEntry cf (peer_key pr) c = Some c' \<Longrightarrow> tbl_step cf c c'"
| wait: "can_wait cf pr c \<Longrightarrow> moveToTW cf (peer_key pr) c = Some (i, c') \<Longrightarrow> tbl_step cf c c'"

lemma tbl_step_good: "tbl_step cf c c' \<Longrightarrow> ct.good cf c \<Longrightarrow> ct.good cf c'"
proof (induction rule: tbl_step.induct)
  case (accept c pr i c')
  then show ?case using ct.insert_good [of cf c pr] by auto
next
  case (close c pr c')
  then show ?case using ct.delete_good [of cf c pr] by auto
next
  case (wait pr c i c')
  moreover from this have "conn_of c pr \<noteq> None" by (auto simp: can_wait_def split: option.splits)
  ultimately show ?case using ct.rename_good [of cf c pr] by auto
qed

lemma tbl_steps_good: "(tbl_step cf)\<^sup>*\<^sup>* c c' \<Longrightarrow> ct.good cf c \<Longrightarrow> ct.good cf c'"
  by (induction rule: rtranclp_induct) (auto intro: tbl_step_good)

subsection \<open>Properties of the table\<close>

text \<open>A server of two connections, freshly initialised, and with one peer accepted.\<close>

definition two_cf :: Conf where
  "two_cf = ServerConf 4096 2"

definition two_tbl :: ConnTbl where
  "two_tbl = initTbl two_cf \<lparr>conn_cnt = 7, conns = [], tw_cnt = 7, tw_ids = [], tbl_mask = 0,
     conn_tbl = replicate 20 \<lparr>key = 0, conn_id = 0\<rparr>\<rparr>"

definition one_conn :: ConnTbl where
  "one_conn = snd (the (accept_peer (0, 0x100) two_tbl))"

lemma two_conf_ok: "conf_ok two_cf"
  by (simp add: conf_ok_def two_cf_def ServerConf_def)

lemma two_max: "MaxTableSize two_cf = 16" "MaxConnCnt two_cf = 2" "MaxTimeWaitConnCnt two_cf = 2"
proof -
  have "getMSB 4 = 3" by (simp add: getMSB.simps)
  then show "MaxTableSize two_cf = 16" by (simp add: MaxTableSize_def two_cf_def ServerConf_def)
qed (simp_all add: two_cf_def ServerConf_def)

lemma two_sizes: "unat (TotalTableSize two_cf) = 20"
  by (simp add: unat_TotalTableSize [OF two_conf_ok] two_max)

lemma two_key: "connHashKey 0 0x100 = 1"
  by (simp add: connHashKey_def htonl_def htons_def)

lemma two_tbl_eq: "two_tbl = \<lparr>conn_cnt = 0, conns = [0, 1], tw_cnt = 0, tw_ids = [0, 1], tbl_mask = 15,
     conn_tbl = replicate 20 \<lparr>key = EmptyKey, conn_id = 0\<rparr>\<rparr>"
  by (simp add: two_tbl_def initTbl_def two_max upt_rec map_replicate)

lemma two_find: "findConnEntry two_tbl 1 = Some 1"
  by (simp add: findConnEntry_def two_tbl_eq scan.simps EmptyKey_def)

lemma two_free: "overflow_free 1 1 two_tbl"
  by (simp add: overflow_free_def two_tbl_eq addLoop.simps nth_list_update)

lemma two_ok: "tbl_ok two_cf two_tbl" "conn_lookup two_tbl = Map.empty"
  unfolding two_tbl_def by (rule initTbl_ok [OF two_conf_ok]; simp add: two_sizes)+

lemma two_can: "can_accept two_cf (0, 0x100) two_tbl"
  using two_find two_free by (simp add: can_accept_def two_key two_max) (simp add: two_tbl_eq)

lemma one_accept: "accept_peer (0, 0x100) two_tbl = Some (0, one_conn)"
proof -
  have "accept_peer (0, 0x100) two_tbl \<noteq> None \<and> fst (the (accept_peer (0, 0x100) two_tbl)) = 0"
    by (simp add: accept_peer_def two_key two_find)
      (simp add: allocConn_def addConnEntry_def two_tbl_eq addLoop.simps tryExpandConnTbl_def getTblSize_def)
  then show ?thesis unfolding one_conn_def by (metis option.collapse prod.collapse)
qed

lemma one_ok: "tbl_ok two_cf one_conn" "conn_of one_conn (0, 0x100) = Some 0"
  using ct.insert_law [OF two_ok(1) _ two_can] one_accept two_ok(2) by (auto simp: conn_of_def)

text \<open>
  The hash key of a peer identifies it: two peers have the same key only when address and
  port agree, and no key is the marker of an empty slot or above it.
\<close>

theorem connHashKey_identifies_peer:
  "(connHashKey ip port = connHashKey ip' port' \<longleftrightarrow> ip = ip' \<and> port = port') \<and> connHashKey ip port < EmptyKey"
  by (simp add: connHashKey_inj connHashKey_less)

text \<open>
  In a table that satisfies the invariant, the search for a peer stays inside the array and
  ends at the entry of the peer if it is in the table, and at another one if it is not.
\<close>

theorem findConnEntry_correct:
  assumes "tbl_ok cf c" and "k < EmptyKey"
  shows "\<exists>j. findConnEntry c k = Some j \<and> j < length (conn_tbl c)
    \<and> conn_lookup c k = (if key (conn_tbl c ! j) = k then Some (conn_id (conn_tbl c ! j)) else None)"
  using conn_find [OF assms] by metis

theorem findConnEntry_correct_witness:
  "\<exists>j. findConnEntry one_conn (connHashKey 0 0x100) = Some j \<and> j < length (conn_tbl one_conn)
    \<and> conn_lookup one_conn (connHashKey 0 0x100)
        = (if key (conn_tbl one_conn ! j) = connHashKey 0 0x100 then Some (conn_id (conn_tbl one_conn ! j)) else None)"
  by (rule findConnEntry_correct [OF one_ok(1) connHashKey_less])



text \<open>
  Deleting a peer that is in the table succeeds, keeps the invariant, removes exactly that
  peer from the lookups and returns its id to the pool it came from.
\<close>

theorem delConnEntry_correct:
  assumes "tbl_ok cf c" and "k < EmptyKey" and "conn_lookup c k = Some i"
  shows "\<exists>c'. delConnEntry cf k c = Some c' \<and> tbl_ok cf c' \<and> conn_lookup c' = (conn_lookup c)(k := None)
    \<and> (if i < MaxConnCnt cf then conn_cnt c' = conn_cnt c - 1 \<and> tw_cnt c' = tw_cnt c
       else conn_cnt c' = conn_cnt c \<and> tw_cnt c' = tw_cnt c - 1)"
  by (rule delConnEntry_spec [OF assms])

theorem delConnEntry_correct_witness:
  "\<exists>c'. delConnEntry two_cf (connHashKey 0 0x100) one_conn = Some c' \<and> tbl_ok two_cf c'
    \<and> conn_lookup c' = (conn_lookup one_conn)(connHashKey 0 0x100 := None)
    \<and> (if (0 :: u32) < MaxConnCnt two_cf then conn_cnt c' = conn_cnt one_conn - 1 \<and> tw_cnt c' = tw_cnt one_conn
       else conn_cnt c' = conn_cnt one_conn \<and> tw_cnt c' = tw_cnt one_conn - 1)"
  by (rule delConnEntry_correct [OF one_ok(1) connHashKey_less]) (use one_ok(2) in \<open>simp add: conn_of_def\<close>)



end
