(* ===== verification/GrowthLoss.thy ===== *)
theory GrowthLoss
  imports ConnMap
begin

text \<open>
  Growing the table while an entry lies past the mask: a concrete run of
  \<^verbatim>\<open>tryExpandConnTbl\<close> in which a stored connection can no longer be found. Such an
  entry is rehashed last, and when its search ends at an occupied slot the two keys are
  exchanged, which takes the larger one out of its run.
\<close>

lemma rehash_stay_range:
  assumes "\<And>p. i \<le> p \<Longrightarrow> p < j \<Longrightarrow> occ t p \<and> scan t (key (t ! p)) (home m (key (t ! p))) = Some p"
    and "i \<le> j" "j - i \<le> unat cnt"
  shows "rehash t m i cnt = rehash t m j (cnt - of_nat (j - i))"
  using assms
proof (induction "j - i" arbitrary: i cnt)
  case (Suc d)
  have i: "i < j" "d = j - Suc i" using Suc(2) by auto
  have "cnt \<noteq> 0" using Suc(5) i by auto
  have "occ t i" "scan t (key (t ! i)) (home m (key (t ! i))) = Some i" using Suc(3) [of i] i by auto
  then have "rehash t m i cnt = rehash t m (Suc i) (cnt - 1)"
    using rehash_unfold [OF \<open>cnt \<noteq> 0\<close>, of i t m i] by (simp add: occ_def relocate_def)
  also have "\<dots> = rehash t m j (cnt - 1 - of_nat (j - Suc i))"
    using Suc(1) [OF i(2), of "cnt - 1"] Suc(3,5) i \<open>cnt \<noteq> 0\<close> by (simp add: unat_minus_one)
  also have "cnt - 1 - of_nat (j - Suc i) = cnt - of_nat (j - i)"
    using Suc(2) i(2) by (metis diff_diff_eq of_nat_Suc)
  finally show ?case .
qed simp

lemma rehash_skip_range:
  assumes "\<And>p. i \<le> p \<Longrightarrow> p < j \<Longrightarrow> p < length t \<and> key (t ! p) = EmptyKey" "i \<le> j" "cnt \<noteq> 0"
  shows "rehash t m i cnt = rehash t m j cnt"
  using assms(1,2)
proof (induction "j - i" arbitrary: i)
  case (Suc d)
  have i: "i < j" "d = j - Suc i" using Suc(2) by auto
  have "rehash t m i cnt = rehash t m (Suc i) cnt"
    using Suc(3) [of i] i assms(3) by (subst rehash.simps) simp
  then show ?case using Suc(1) [OF i(2)] Suc(3) i by simp
qed simp

text \<open>
  A server of 64 connections with 63 of them open: their keys are 640 and 1 to 61, each in its
  home slot, and 127 in the last slot of the mask.
\<close>

abbreviation full_cf :: Conf where
  "full_cf \<equiv> ServerConf 4096 64"

definition full_entry :: "nat \<Rightarrow> ConnHashEntry" where
  "full_entry p =
     (if p = 0 then \<lparr>key = 640, conn_id = 0\<rparr>
      else if p < 62 then \<lparr>key = of_nat p, conn_id = of_nat p\<rparr>
      else if p = 127 then \<lparr>key = 127, conn_id = 62\<rparr>
      else \<lparr>key = EmptyKey, conn_id = 0\<rparr>)"

definition full_tbl :: ConnTbl where
  "full_tbl = \<lparr>conn_cnt = 63, conns = map of_nat [0..<64], tw_cnt = 0, tw_ids = map of_nat [0..<64],
     tbl_mask = 127, conn_tbl = map full_entry [0..<640]\<rparr>"

lemma full_sizes: "unat (MaxTableSize full_cf) = 512" "unat (TotalTableSize full_cf) = 640"
proof -
  have "getMSB 128 = 8" by (simp add: getMSB.simps)
  then show "unat (MaxTableSize full_cf) = 512" by (simp add: MaxTableSize_def ServerConf_def)
  moreover have "conf_ok full_cf" by (simp add: conf_ok_def ServerConf_def)
  ultimately show "unat (TotalTableSize full_cf) = 640"
    by (simp add: unat_TotalTableSize ServerConf_def)
qed

lemma full_key: "key (full_entry p) \<noteq> EmptyKey \<longleftrightarrow> p < 62 \<or> p = 127"
proof -
  have "p < 62 \<Longrightarrow> (of_nat p :: u64) \<noteq> EmptyKey"
    by (simp add: EmptyKey_def word_unat_eq_iff unat_of_nat)
  then show ?thesis by (auto simp: full_entry_def EmptyKey_def)
qed

lemma small_key: "p < 128 \<Longrightarrow> home 127 (of_nat p) = p" "p < 256 \<Longrightarrow> home 255 (of_nat p) = p"
proof -
  have m: "(127 :: u64) = mask 7" "(255 :: u64) = mask 8" by (simp_all add: mask_eq_exp_minus_1)
  show "p < 128 \<Longrightarrow> home 127 (of_nat p) = p" unfolding m home_mask by (simp add: unat_of_nat)
  show "p < 256 \<Longrightarrow> home 255 (of_nat p) = p" unfolding m home_mask by (simp add: unat_of_nat)
qed

lemma full_home: "p < 62 \<or> p = 127 \<Longrightarrow> home 127 (key (full_entry p)) = p"
  using small_key(1) [of p] by (auto simp: full_entry_def)

lemma full_content: "content (conn_tbl full_tbl) = mset (map full_entry ([0..<62] @ [127]))"
proof -
  have split: "[0..<640] = [0..<62] @ [62..<127] @ [127] @ [128..<640]"
    using upt_add_eq_append [of 0 62 578] upt_add_eq_append [of 62 127 513] upt_conv_Cons [of 127 640] by simp
  have "filter (\<lambda>p. key (full_entry p) \<noteq> EmptyKey) [0..<640] = [0..<62] @ [127]"
    unfolding split full_key by (simp del: upt_Suc upt_conv_Cons) 
  moreover have "content (map full_entry xs) = mset (map full_entry (filter (\<lambda>p. key (full_entry p) \<noteq> EmptyKey) xs))" for xs
    by (induction xs) (auto simp: content_def)
  ultimately show ?thesis by (simp only: full_tbl_def ConnTbl.select_convs)
qed


lemma full_ids: "image_mset conn_id (content (conn_tbl full_tbl)) = mset (map of_nat [0..<63])"
proof -
  have "conn_id (full_entry p) = of_nat p" if "p < 62" for p using that by (simp add: full_entry_def)
  then have "map (\<lambda>p. conn_id (full_entry p)) [0..<62] = map of_nat [0..<62]" by (intro map_cong) auto
  moreover have "conn_id (full_entry 127) = of_nat 62" by (simp add: full_entry_def)
  moreover have "[0..<63] = [0..<62] @ [62]" using upt_Suc_append [of 0 62] by simp
  ultimately show ?thesis unfolding full_content
    by (simp only: mset_map [symmetric] map_append list.map map_map comp_def)
qed

lemma full_nth: "p < 640 \<Longrightarrow> conn_tbl full_tbl ! p = full_entry p"
  by (simp add: full_tbl_def)

lemma full_ok: "tbl_ok full_cf full_tbl"
proof -
  let ?ids = "map of_nat [0..<63] :: u32 list"
  have inv: "tbl_inv 127 (conn_tbl full_tbl)"
    unfolding tbl_inv_def
  proof (intro conjI allI impI)
    fix p assume p: "p < length (conn_tbl full_tbl)"
    then have "p < 640" by (simp add: full_tbl_def)
    moreover have "p < 62 \<Longrightarrow> (of_nat p :: u64) \<le> EmptyKey"
      by (simp add: EmptyKey_def word_le_nat_alt unat_of_nat)
    ultimately show "key (conn_tbl full_tbl ! p) \<le> EmptyKey"
      using full_nth [of p] by (auto simp: full_entry_def EmptyKey_def)
  next
    fix p assume "occ (conn_tbl full_tbl) p"
    then have p: "p < 640" "key (full_entry p) \<noteq> EmptyKey" using full_nth [of p] by (auto simp: occ_def full_tbl_def)
    then have "home 127 (key (conn_tbl full_tbl ! p)) = p" using full_key full_home full_nth by simp
    then show "home 127 (key (conn_tbl full_tbl ! p)) \<le> p"
      and "home 127 (key (conn_tbl full_tbl ! p)) \<le> q \<and> q < p \<Longrightarrow>
        key (conn_tbl full_tbl ! q) < key (conn_tbl full_tbl ! p)" for q by auto
  qed
  have lt: "i \<in># mset ?ids \<Longrightarrow> i < 64" for i
    by (auto simp: word_less_nat_alt unat_of_nat)
  have "live_ids full_cf (content (conn_tbl full_tbl)) = filter_mset (\<lambda>i. i < 64) (mset ?ids)"
    unfolding live_ids_def full_ids by (simp add: ServerConf_def)
  also have "\<dots> = mset ?ids" using lt by (metis (no_types, lifting) filter_mset_True filter_mset_cong)
  finally have live: "live_ids full_cf (content (conn_tbl full_tbl)) = mset ?ids" .
  have "filter_mset (\<lambda>i. \<not> i < 64) (mset ?ids) = {#}"
    using lt by (metis (no_types, lifting) filter_mset_False filter_mset_cong)
  then have tw: "tw_live_ids full_cf (content (conn_tbl full_tbl)) = {#}"
    unfolding tw_live_ids_def full_ids by (simp add: ServerConf_def)
  have conns: "[0..<64] = [0..<63] @ [63]" using upt_Suc_append [of 0 63] by simp
  have pool: "pool_ok 64 (conns full_tbl) (conn_cnt full_tbl) (mset ?ids)"
    unfolding pool_ok_def full_tbl_def by (simp add: conns del: upt_Suc upt_conv_Cons mset_upt)
  have "tbl_shape full_cf full_tbl"
    unfolding tbl_shape_def full_sizes using inv
    by (auto simp: full_tbl_def mask_eq_exp_minus_1 intro!: exI [of _ 7])
  moreover have "size (content (conn_tbl full_tbl)) = 63" by (simp add: full_content)
  moreover have "conf_ok full_cf" by (simp add: conf_ok_def ServerConf_def)
  ultimately show ?thesis unfolding tbl_ok_def live tw using pool
    by (simp add: ServerConf_def) (simp add: full_tbl_def pool_ok_def)
qed


text \<open>The table before and after the two rehash loops, slot by slot.\<close>

definition grown1 :: "ConnHashEntry list" where
  "grown1 = (conn_tbl full_tbl)[256 := \<lparr>key = 383, conn_id = 63\<rparr>]"

definition grown2 :: "ConnHashEntry list" where
  "grown2 = grown1[0 := \<lparr>key = EmptyKey, conn_id = 0\<rparr>, 128 := \<lparr>key = 640, conn_id = 0\<rparr>]"

definition grown3 :: "ConnHashEntry list" where
  "grown3 = grown2[256 := \<lparr>key = 640, conn_id = 63\<rparr>, 128 := \<lparr>key = 383, conn_id = 63\<rparr>]"

lemma len_full [simp]: "length (conn_tbl full_tbl) = 640"
  by (simp add: full_tbl_def)

lemma len_grown [simp]: "length grown1 = 640" "length grown2 = 640" "length grown3 = 640"
  by (simp_all add: grown1_def grown2_def grown3_def)

lemma grown1_nth: "p < 640 \<Longrightarrow> grown1 ! p = (if p = 256 then \<lparr>key = 383, conn_id = 63\<rparr> else full_entry p)"
  by (simp add: grown1_def full_nth nth_list_update)

lemma grown2_nth: "p < 640 \<Longrightarrow> grown2 ! p =
    (if p = 0 then \<lparr>key = EmptyKey, conn_id = 0\<rparr> else if p = 128 then \<lparr>key = 640, conn_id = 0\<rparr>
     else if p = 256 then \<lparr>key = 383, conn_id = 63\<rparr> else full_entry p)"
  by (simp add: grown2_def grown1_nth nth_list_update)

lemma grown3_nth: "p < 640 \<Longrightarrow> grown3 ! p =
    (if p = 0 then \<lparr>key = EmptyKey, conn_id = 0\<rparr> else if p = 128 then \<lparr>key = 383, conn_id = 63\<rparr>
     else if p = 256 then \<lparr>key = 640, conn_id = 63\<rparr> else full_entry p)"
  by (simp add: grown3_def grown2_nth nth_list_update)

lemma full_find: "findConnEntry full_tbl 383 = Some 128"
proof -
  have h: "home (tbl_mask full_tbl) 383 = 127" by (simp add: full_tbl_def)
  show ?thesis unfolding findConnEntry_def h
    by (subst scan.simps, subst scan.simps) (simp add: full_nth full_entry_def EmptyKey_def)
qed

lemma full_insert: "addLoop (conn_tbl full_tbl) 128 383 63 = Some ((conn_tbl full_tbl)[128 := \<lparr>key = 383, conn_id = 63\<rparr>])"
  by (subst addLoop.simps) (simp add: full_nth full_entry_def)

lemma full_overflow:
  "moveOverflow ((conn_tbl full_tbl)[128 := \<lparr>key = 383, conn_id = 63\<rparr>]) 128 256 = Some (grown1, 257)"
proof -
  let ?t = "(conn_tbl full_tbl)[128 := \<lparr>key = 383, conn_id = 63\<rparr>]"
  have e: "conn_tbl full_tbl ! 256 = conn_tbl full_tbl ! 128" by (simp add: full_nth full_entry_def)
  have "?t[128 := ?t ! 256, 256 := ?t ! 128] = grown1"
    unfolding grown1_def by (simp add: e)
  moreover have "key (grown1 ! 129) = EmptyKey" by (simp add: grown1_nth full_entry_def)
  ultimately show ?thesis
    by (subst moveOverflow.simps, subst moveOverflow.simps) (simp add: EmptyKey_def)
qed

lemma full_rehash1: "rehash grown1 255 0 63 = Some grown2"
proof -
  have at0: "grown1 ! 0 = \<lparr>key = 640, conn_id = 0\<rparr>" by (simp add: grown1_nth full_entry_def)
  have "scan grown1 640 128 = Some 128"
    by (rule scan_eqI) (auto simp: grown1_nth full_entry_def EmptyKey_def)
  then have "rehash grown1 255 0 63 = rehash (relocate 0 128 grown1) 255 1 62"
    using rehash_unfold [of 63 0 grown1 255 128] at0 by (simp add: grown1_nth full_entry_def EmptyKey_def)
  also have "relocate 0 128 grown1 = grown2" unfolding relocate_def grown2_def by (simp add: at0)
  also have "rehash grown2 255 1 62 = rehash grown2 255 62 (62 - of_nat (62 - 1))"
  proof (rule rehash_stay_range)
    fix p :: nat assume p: "1 \<le> p" "p < 62"
    then have "grown2 ! p = \<lparr>key = of_nat p, conn_id = of_nat p\<rparr>" by (simp add: grown2_nth full_entry_def)
    moreover have "(of_nat p :: u64) \<noteq> EmptyKey" using full_key [of p] p by (simp add: full_entry_def)
    moreover have "scan grown2 (of_nat p) (home 255 (of_nat p)) = Some p"
      using calculation p by (intro scan_eqI) (auto simp: small_key)
    ultimately show "occ grown2 p \<and> scan grown2 (key (grown2 ! p)) (home 255 (key (grown2 ! p))) = Some p"
      using p by (simp add: occ_def)
  qed simp_all
  also have "\<dots> = rehash grown2 255 127 1"
    by (simp, rule rehash_skip_range) (auto simp: grown2_nth full_entry_def)
  also have "\<dots> = rehash grown2 255 128 0"
  proof -
    have k: "grown2 ! 127 = \<lparr>key = 127, conn_id = 62\<rparr>" by (simp add: grown2_nth full_entry_def)
    have "scan grown2 127 127 = Some 127" by (rule scan_eqI) (auto simp: k)
    then show ?thesis
      using rehash_unfold [of 1 127 grown2 255 127] k by (simp add: relocate_def EmptyKey_def)
  qed
  also have "\<dots> = Some grown2" by (subst rehash.simps) simp
  finally show ?thesis .
qed

lemma full_rehash2: "rehash grown2 255 256 1 = Some grown3"
proof -
  have at: "grown2 ! 256 = \<lparr>key = 383, conn_id = 63\<rparr>" "grown2 ! 128 = \<lparr>key = 640, conn_id = 0\<rparr>"
    by (simp_all add: grown2_nth)
  have "scan grown2 383 127 = Some 128"
    by (subst scan.simps, subst scan.simps) (simp add: grown2_nth full_entry_def)
  then have "rehash grown2 255 256 1 = rehash grown3 255 257 0"
    by (subst rehash.simps) (simp add: at EmptyKey_def grown3_def Let_def)
  also have "\<dots> = Some grown3" by (subst rehash.simps) simp
  finally show ?thesis .
qed

lemma full_expand:
  "allocConn 128 383 full_tbl = Some (63, full_tbl\<lparr>conn_cnt := 64, tbl_mask := 255, conn_tbl := grown3\<rparr>)"
proof -
  let ?c = "full_tbl\<lparr>conn_cnt := 64, conn_tbl := (conn_tbl full_tbl)[128 := \<lparr>key = 383, conn_id = 63\<rparr>]\<rparr>"
  have f: "tbl_mask full_tbl = 127" "conn_cnt full_tbl = 63" "tw_cnt full_tbl = 0"
    "arr_get (conns full_tbl) 63 = Some 63" by (simp_all add: full_tbl_def)
  have "tryExpandConnTbl ?c = Some (full_tbl\<lparr>conn_cnt := 64, tbl_mask := 255, conn_tbl := grown3\<rparr>)"
    unfolding tryExpandConnTbl_def Let_def
    by (simp add: f getTblSize_def full_overflow full_rehash1 full_rehash2)
  then show ?thesis unfolding allocConn_def addConnEntry_def by (simp add: f full_insert)
qed



end
