(* ===== verification/TimerWheel.thy ===== *)
theory TimerWheel
  imports Prelude
begin

text \<open>
  The two-level timer wheel of \<^verbatim>\<open>efvitcp/Core.h\<close>, at the level of its pointers: timer
  nodes in a heap, linked into circular lists whose heads are the slots.
\<close>

text \<open>
  The addresses of the \<^verbatim>\<open>TimerNode\<close> objects: \<^verbatim>\<open>timer_slots[level][i]\<close>, the local
  \<^verbatim>\<open>dump_slot\<close> of \<^verbatim>\<open>pollTime\<close>, \<^verbatim>\<open>tws[i].timer\<close> and
  \<^verbatim>\<open>conns[c].timers[i]\<close>.
\<close>

datatype timer_addr = TSlot nat nat | TDump | TTw nat | TConn nat nat

record TimerNode =
  prv :: timer_addr
  nxt :: timer_addr
  node_conn_id :: u32
  expire_ts :: u32

type_synonym timer_heap = "timer_addr \<Rightarrow> TimerNode"

definition newTimerNode :: "timer_addr \<Rightarrow> TimerNode" where
  "newTimerNode this = \<lparr>prv = this, nxt = this, node_conn_id = 0, expire_ts = 0\<rparr>"

definition isUnlinked :: "timer_addr \<Rightarrow> timer_heap \<Rightarrow> bool" where
  "isUnlinked this h \<longleftrightarrow> prv (h this) = this"

abbreviation set_nxt :: "timer_addr \<Rightarrow> timer_addr \<Rightarrow> timer_heap \<Rightarrow> timer_heap" where
  "set_nxt a v h \<equiv> h(a := (h a)\<lparr>nxt := v\<rparr>)"

abbreviation set_prv :: "timer_addr \<Rightarrow> timer_addr \<Rightarrow> timer_heap \<Rightarrow> timer_heap" where
  "set_prv a v h \<equiv> h(a := (h a)\<lparr>prv := v\<rparr>)"

definition unlink :: "timer_addr \<Rightarrow> timer_heap \<Rightarrow> timer_heap" where
  "unlink this h =
     (let h = set_nxt (prv (h this)) (nxt (h this)) h;
          h = set_prv (nxt (h this)) (prv (h this)) h;
          h = set_nxt this this h
      in set_prv this this h)"

abbreviation TimerSlots :: u32 where
  "TimerSlots \<equiv> 256"

text \<open>The last four assignments of \<^verbatim>\<open>addTimer\<close>: the node becomes the first of the slot.\<close>

definition link :: "timer_addr \<Rightarrow> timer_addr \<Rightarrow> timer_heap \<Rightarrow> timer_heap" where
  "link slot node h =
     (let h = set_nxt node (nxt (h slot)) h;
          h = set_prv node slot h;
          h = set_prv (nxt (h slot)) node h
      in set_nxt slot node h)"

definition addTimer :: "u32 \<Rightarrow> u32 \<Rightarrow> timer_addr \<Rightarrow> timer_heap \<Rightarrow> timer_heap" where
  "addTimer now_ts duration_ts node h =
     (if duration_ts \<le> TimerSlots then
        link (TSlot 0 (unat ((now_ts + duration_ts) mod TimerSlots))) node h
      else
        let duration_ts = min duration_ts (TimerSlots * (TimerSlots + 1) - 1 - now_ts mod TimerSlots);
            h = h(node := (h node)\<lparr>expire_ts := now_ts + duration_ts\<rparr>)
        in link (TSlot 1 (unat (expire_ts (h node) div TimerSlots mod TimerSlots))) node h)"

text \<open>
  The loop of \<^verbatim>\<open>pollTime\<close> that redistributes a slot of the second level. On a corrupt
  list it need not end.
\<close>

partial_function (option) cascade ::
  "u32 \<Rightarrow> timer_addr \<Rightarrow> timer_addr \<Rightarrow> timer_heap \<Rightarrow> timer_heap option" where
  "cascade now_ts slot node h =
     (if node = slot then Some h
      else
        let next = nxt (h node)
        in cascade now_ts slot next (addTimer now_ts (expire_ts (h node) - now_ts) node h))"

declare cascade.simps [code]

text \<open>
  One tick: \<^verbatim>\<open>pollTime\<close> up to the loop that fires the expired timers. The due nodes end up
  in the list of \<^verbatim>\<open>dump_slot\<close>, whose \<^verbatim>\<open>prev\<close> is never set.
\<close>

definition tick :: "u32 \<Rightarrow> timer_heap \<Rightarrow> timer_heap option" where
  "tick now_ts h = do {
     h \<leftarrow> (if now_ts mod TimerSlots = 0 then do {
              let slot = TSlot 1 (unat (now_ts div TimerSlots mod TimerSlots));
              h \<leftarrow> cascade now_ts slot (nxt (h slot)) h;
              Some (set_prv slot slot (set_nxt slot slot h))
            } else Some h);
     let node = TSlot 0 (unat (now_ts mod TimerSlots));
     let h = h(TDump := newTimerNode TDump);
     if isUnlinked node h then Some h
     else do {
       let h = set_nxt TDump (nxt (h node)) h;
       let h = set_nxt (prv (h node)) TDump h;
       let h = set_prv (nxt (h node)) TDump h;
       let h = set_nxt node node h;
       Some (set_prv node node h)
     }
   }"

subsection \<open>Lists in the heap\<close>

fun path :: "timer_heap \<Rightarrow> timer_addr \<Rightarrow> timer_addr list \<Rightarrow> timer_addr \<Rightarrow> bool" where
  "path h a [] b \<longleftrightarrow> nxt (h a) = b"
| "path h a (x # xs) b \<longleftrightarrow> nxt (h a) = x \<and> prv (h x) = a \<and> path h x xs b"

lemma path_append: "path h a (xs @ x # ys) b \<longleftrightarrow> path h a xs x \<and> prv (h x) = last (a # xs) \<and> path h x ys b"
  by (induction xs arbitrary: a) auto

lemma path_cong:
  assumes "\<And>y. y \<in> set (a # xs) \<Longrightarrow> nxt (h' y) = nxt (h y)" "\<And>y. y \<in> set xs \<Longrightarrow> prv (h' y) = prv (h y)"
  shows "path h' a xs b = path h a xs b"
  using assms by (induction xs arbitrary: a) auto

lemma path_first: "path h a xs b \<Longrightarrow> nxt (h a) = hd (xs @ [b])"
  by (cases xs) auto

lemma path_last: "path h a xs b \<Longrightarrow> nxt (h (last (a # xs))) = b"
  by (induction xs arbitrary: a) auto

definition is_node :: "timer_addr \<Rightarrow> bool" where
  "is_node a \<longleftrightarrow> (case a of TTw _ \<Rightarrow> True | TConn _ _ \<Rightarrow> True | _ \<Rightarrow> False)"

definition is_slot :: "timer_addr \<Rightarrow> bool" where
  "is_slot a \<longleftrightarrow> (case a of TSlot _ _ \<Rightarrow> True | _ \<Rightarrow> False)"

abbreviation is_head :: "timer_addr \<Rightarrow> bool" where
  "is_head a \<equiv> is_slot a \<or> a = TDump"

lemma node_kinds [simp]: "is_slot (TSlot i j)" "\<not> is_slot TDump" "\<not> is_node (TSlot i j)" "\<not> is_node TDump"
  by (simp_all add: is_slot_def is_node_def)

lemma node_not_head: "is_node a \<Longrightarrow> \<not> is_slot a \<and> a \<noteq> TDump" "is_slot a \<Longrightarrow> a \<noteq> TDump"
  by (auto simp: is_slot_def is_node_def split: timer_addr.splits)

lemma addr_kinds: "is_node a \<or> is_head a"
  by (auto simp: is_slot_def is_node_def split: timer_addr.splits)

text \<open>
  The heap \<open>h\<close> holds, behind every head \<open>s\<close>, the list \<open>L s\<close>; no node is in two lists, and a
  node in none of them points to itself.
\<close>

definition wheel :: "timer_heap \<Rightarrow> (timer_addr \<Rightarrow> timer_addr list) \<Rightarrow> bool" where
  "wheel h L \<longleftrightarrow>
     (\<forall>s. is_head s \<longrightarrow> path h s (L s) s \<and> distinct (L s))
     \<and> (\<forall>s. is_slot s \<longrightarrow> prv (h s) = last (s # L s))
     \<and> (\<forall>s x. x \<in> set (L s) \<longrightarrow> is_head s \<and> is_node x)
     \<and> (\<forall>s t x. x \<in> set (L s) \<and> x \<in> set (L t) \<longrightarrow> s = t)
     \<and> (\<forall>x. is_node x \<and> (\<forall>s. x \<notin> set (L s)) \<longrightarrow> nxt (h x) = x \<and> prv (h x) = x)"

lemma wheelD:
  assumes "wheel h L"
  shows "is_head s \<Longrightarrow> path h s (L s) s" "is_head s \<Longrightarrow> distinct (L s)"
    "is_slot s \<Longrightarrow> prv (h s) = last (s # L s)"
    "x \<in> set (L s) \<Longrightarrow> is_head s \<and> is_node x"
    "x \<in> set (L s) \<Longrightarrow> x \<in> set (L t) \<Longrightarrow> s = t"
    "is_node x \<Longrightarrow> \<forall>s. x \<notin> set (L s) \<Longrightarrow> nxt (h x) = x \<and> prv (h x) = x"
  using assms unfolding wheel_def by blast+

lemma head_nxt: "wheel h L \<Longrightarrow> is_head s \<Longrightarrow> nxt (h s) = s \<and> L s = [] \<or> nxt (h s) \<in> set (L s)"
  using path_first [OF wheelD(1), of h L s] by (cases "L s") auto

subsection \<open>Linking and unlinking\<close>

lemma link_fields:
  assumes "is_node x" "is_slot s" "nxt (h s) \<noteq> x"
  shows "nxt (link s x h a) = (if a = s then x else if a = x then nxt (h s) else nxt (h a))"
    and "prv (link s x h a) = (if a = x then s else if a = nxt (h s) then x else prv (h a))"
    and "expire_ts (link s x h a) = expire_ts (h a)"
  using assms node_not_head by (auto simp: link_def Let_def)

lemma wheel_link:
  assumes w: "wheel h L" and x: "is_node x" "\<forall>s. x \<notin> set (L s)" and s: "is_slot s"
  shows "wheel (link s x h) (L(s := x # L s))"
proof -
  have xs: "x \<noteq> s" using x(1) s node_not_head by auto
  note first = path_first [OF wheelD(1) [OF w]]
  have fx: "nxt (h s) \<noteq> x" using head_nxt [OF w, of s] s x(2) xs by metis
  note f = link_fields [of x s h, OF x(1) s fx]
  have other: "path (link s x h) t (L t) t = path h t (L t) t" if "is_head t" "t \<noteq> s" for t
  proof (rule path_cong)
    fix y assume "y \<in> set (t # L t)"
    then have "y \<noteq> s" "y \<noteq> x" using that x wheelD(4) [OF w] s node_not_head by auto
    then show "nxt (link s x h y) = nxt (h y)" by (simp add: f)
  next
    fix y assume y: "y \<in> set (L t)"
    then have "y \<noteq> x" "y \<notin> set (L s)" "y \<noteq> s"
      using x wheelD(4,5) [OF w] that s node_not_head by auto
    moreover have "nxt (h s) \<in> set (L s) \<or> nxt (h s) = s" using first [of s] s by (cases "L s") auto
    ultimately show "prv (link s x h y) = prv (h y)" by (auto simp: f)
  qed
  have xL: "x \<notin> set (L s)" using x(2) by blast
  have mine: "path (link s x h) x (L s) s"
  proof (cases "L s")
    case (Cons y ys)
    have d: "distinct (L s)" "s \<notin> set (L s)" using wheelD(2) [OF w] wheelD(4) [OF w] s node_not_head by auto
    have y: "nxt (h s) = y" "prv (h y) = s" "path h y ys s" using wheelD(1) [OF w, of s] s Cons by auto
    have "path (link s x h) y ys s = path h y ys s"
      using d xL Cons y(1) by (intro path_cong) (auto simp: f)
    then show ?thesis using Cons y xL xs by (auto simp: f)
  qed (use wheelD(1) [OF w, of s] s xs in \<open>simp add: f\<close>)
  show ?thesis unfolding wheel_def
  proof (intro conjI allI impI; (elim conjE)?)
    fix t assume t: "is_head t"
    show "path (link s x h) t ((L(s := x # L s)) t) t" using t other mine wheelD(1) [OF w] xs by (auto simp: f)
    show "distinct ((L(s := x # L s)) t)" using t wheelD(2) [OF w] x by auto
  next
    fix t assume t: "is_slot t"
    have "t \<noteq> x" using t x(1) node_not_head by auto
    moreover have "nxt (h s) = t \<longrightarrow> t = s"
      using first [of s] s t wheelD(4) [OF w, of t s] node_not_head(1) by (cases "L s") auto
    moreover have "nxt (h s) = s \<longleftrightarrow> L s = []"
      using first [of s] s wheelD(4) [OF w, of s s] node_not_head(1) by (cases "L s") auto
    ultimately show "prv (link s x h t) = last (t # (L(s := x # L s)) t)"
      using wheelD(3) [OF w t] by (auto simp: f)
  next
    fix y assume y: "is_node y" "\<forall>t. y \<notin> set ((L(s := x # L s)) t)"
    then have "y \<noteq> x" "\<forall>t. y \<notin> set (L t)" by (metis fun_upd_same list.set_intros(1), metis fun_upd_apply list.set_intros(2))
    moreover have "y \<noteq> s" using y(1) s node_not_head by auto
    moreover have "y \<noteq> nxt (h s)" using head_nxt [OF w, of s] s calculation(2,3) by metis
    ultimately show "nxt (link s x h y) = y" "prv (link s x h y) = y" using wheelD(6) [OF w y(1)] by (auto simp: f)
  qed (use x s wheelD(4,5) [OF w] in \<open>auto split: if_splits\<close>)
qed


lemma unlink_fields:
  assumes "prv (h x) \<noteq> x" "nxt (h x) \<noteq> x"
  shows "nxt (unlink x h a) = (if a = x then x else if a = prv (h x) then nxt (h x) else nxt (h a))"
    and "prv (unlink x h a) = (if a = x then x else if a = nxt (h x) then prv (h x) else prv (h a))"
  using assms by (auto simp: unlink_def Let_def)

lemma unlink_expire: "expire_ts (unlink x h a) = expire_ts (h a)"
  by (simp add: unlink_def Let_def)

lemma unlink_idle: "nxt (h x) = x \<Longrightarrow> prv (h x) = x \<Longrightarrow> unlink x h = h"
  by (auto simp: unlink_def Let_def fun_eq_iff)

text \<open>Where a linked node stands: its neighbours.\<close>

lemma node_in_list:
  assumes w: "wheel h L" and x: "x \<in> set (L s)"
  obtains xs ys where "L s = xs @ x # ys" "path h s xs x" "prv (h x) = last (s # xs)" "path h x ys s"
    "distinct (s # xs @ x # ys)"
proof -
  obtain xs ys where L: "L s = xs @ x # ys" using x by (meson split_list)
  have s: "is_head s" "is_node x" using wheelD(4) [OF w x] by auto
  have "s \<notin> set (L s)" using wheelD(4) [OF w, of s s] node_not_head(1) [of s] s by auto
  then have "distinct (s # xs @ x # ys)" using wheelD(2) [OF w s(1)] L by simp
  then show thesis using that wheelD(1) [OF w s(1)] L path_append by metis
qed

lemma wheel_unlink:
  assumes w: "wheel h L" and x: "x \<in> set (L s)"
  shows "wheel (unlink x h) (L(s := remove1 x (L s)))"
proof -
  have s: "is_head s" "is_node x" using wheelD(4) [OF w x] by auto
  obtain xs ys where L: "L s = xs @ x # ys" and p: "path h s xs x" "prv (h x) = last (s # xs)" "path h x ys s"
    and d: "distinct (s # xs @ x # ys)" using node_in_list [OF w x] .
  have q: "nxt (h x) = hd (ys @ [s])" using path_first [OF p(3)] .
  have pq: "prv (h x) \<in> set (s # xs)" "nxt (h x) \<in> set (ys @ [s])"
    using p(2) q by (metis last_in_set list.distinct(1), cases ys, auto)
  then have ne: "prv (h x) \<noteq> x" "nxt (h x) \<noteq> x" using d by auto
  note f = unlink_fields [of h x, OF ne]
  have L': "remove1 x (L s) = xs @ ys" using d by (simp add: L remove1_append)
  let ?h = "unlink x h" and ?L = "L(s := remove1 x (L s))"
  have other: "path ?h t (L t) t = path h t (L t) t" if t: "is_head t" "t \<noteq> s" for t
  proof -
    have "y \<noteq> x \<and> y \<noteq> prv (h x) \<and> y \<noteq> nxt (h x)" if "y \<in> set (t # L t)" for y
    proof -
      have "y \<noteq> s" using that t s wheelD(4) [OF w, of y t] node_not_head(1) [of y] by auto
      moreover have "y \<notin> set (L s)"
        using that t wheelD(5) [OF w, of y s t] wheelD(4) [OF w, of y s] node_not_head(1) [of y] by auto
      ultimately show ?thesis using pq x L by auto
    qed
    then show ?thesis by (intro path_cong) (auto simp: f)
  qed
  have before: "path ?h s xs (nxt (h x))"
  proof (cases xs rule: rev_cases)
    case Nil
    then show ?thesis using p(2) d by (simp add: f)
  next
    case (snoc us u)
    then have pr: "prv (h x) = u" using p(2) by simp
    have "path h s us u \<and> prv (h u) = last (s # us)" using p(1) snoc path_append [of h s us u "[]" x] by simp
    moreover have "path ?h s us u = path h s us u"
      using d snoc pr pq(2) by (intro path_cong) (auto simp: f)
    moreover have "prv (?h u) = prv (h u)" using d snoc pq(2) by (auto simp: f)
    ultimately show ?thesis using snoc pr d path_append [of ?h s us u "[]" "nxt (h x)"] by (auto simp: f)
  qed
  have whole: "path ?h s (xs @ ys) s"
  proof (cases ys)
    case Nil
    then show ?thesis using before q by simp
  next
    case (Cons y zs)
    then have y: "nxt (h x) = y" "prv (h y) = x" "path h y zs s" using p(3) by auto
    have "path ?h y zs s = path h y zs s"
      using d Cons y(1) pq(1) by (intro path_cong) (auto simp: f)
    moreover have "prv (?h y) = last (s # xs)" using d Cons y(1) p(2) by (auto simp: f)
    ultimately show ?thesis using before y Cons path_append by auto
  qed
  show ?thesis unfolding wheel_def
  proof (intro conjI allI impI; (elim conjE)?)
    fix t assume t: "is_head t"
    show "path ?h t (?L t) t" using whole other [OF t] wheelD(1) [OF w t] L' by (cases "t = s") auto
    show "distinct (?L t)" using wheelD(2) [OF w t] wheelD(2) [OF w s(1)] by auto
  next
    fix t assume t: "is_slot t"
    have "t \<noteq> x" using t s(2) node_not_head by auto
    show "prv (?h t) = last (t # ?L t)"
    proof (cases "t = s")
      case True
      have "prv (h s) = last (x # ys)" using wheelD(3) [OF w t] True L by simp
      then show ?thesis using True L' \<open>t \<noteq> x\<close> p(2) q d by (cases ys) (auto simp: f)
    next
      case False
      have "t \<noteq> nxt (h x)" using pq(2) False wheelD(4) [OF w, of t s] L t node_not_head(1) [of t] by auto
      then show ?thesis using False \<open>t \<noteq> x\<close> wheelD(3) [OF w t] by (simp add: f)
    qed
  next
    fix y assume y: "is_node y" "\<forall>t. y \<notin> set (?L t)"
    show "nxt (?h y) = y" "prv (?h y) = y"
    proof -
      have "nxt (?h y) = y \<and> prv (?h y) = y"
      proof (cases "y = x")
        case False
        then have "\<forall>t. y \<notin> set (L t)" using y(2) by (metis fun_upd_apply in_set_remove1)
        moreover have "y \<noteq> prv (h x)" "y \<noteq> nxt (h x)"
          using pq calculation L y(1) s(1) node_not_head(1) [of y] by (metis Un_iff set_append set_ConsD list.set_intros(2), metis Un_iff set_append set_ConsD list.set_intros(2) empty_iff list.set(1))
        ultimately show ?thesis using wheelD(6) [OF w y(1)] False by (simp add: f)
      qed (simp add: f)
      then show "nxt (?h y) = y" "prv (?h y) = y" by auto
    qed
  qed (use wheelD(4,5) [OF w] in \<open>auto split: if_splits dest: notin_set_remove1 set_remove1_subset [THEN subsetD]\<close>)
qed

subsection \<open>One tick on the lists\<close>

lemma wheel_cong:
  assumes "\<And>a. nxt (h' a) = nxt (h a) \<and> prv (h' a) = prv (h a)"
  shows "wheel h' L = wheel h L"
proof -
  have "path h' a xs b = path h a xs b" for a xs b using assms by (intro path_cong) auto
  then show ?thesis using assms by (simp add: wheel_def)
qed

lemma wheel_addTimer:
  assumes w: "wheel h L" and x: "is_node x" "\<forall>s. x \<notin> set (L s)"
  obtains s where "wheel (addTimer now d x h) (L(s := x # L s))"
    "s = (if d \<le> TimerSlots then TSlot 0 (unat ((now + d) mod TimerSlots))
          else TSlot 1 (unat (expire_ts (addTimer now d x h x) div TimerSlots mod TimerSlots)))"
    "expire_ts (addTimer now d x h x) =
       (if d \<le> TimerSlots then expire_ts (h x)
        else now + min d (TimerSlots * (TimerSlots + 1) - 1 - now mod TimerSlots))"
    "\<forall>a. a \<noteq> x \<longrightarrow> expire_ts (addTimer now d x h a) = expire_ts (h a)"
proof (cases "d \<le> TimerSlots")
  case True
  let ?s = "TSlot 0 (unat ((now + d) mod TimerSlots))"
  have "nxt (h ?s) \<noteq> x" using head_nxt [OF w, of ?s] x by (metis node_kinds(1,3))
  then show thesis using True that [of ?s] wheel_link [OF w x, of ?s] link_fields(3) [OF x(1), of ?s h]
    by (simp add: addTimer_def)
next
  case False
  define e where "e = now + min d (TimerSlots * (TimerSlots + 1) - 1 - now mod TimerSlots)"
  let ?h = "h(x := (h x)\<lparr>expire_ts := e\<rparr>)"
  let ?s = "TSlot 1 (unat (e div TimerSlots mod TimerSlots))"
  have w': "wheel ?h L" using w by (subst wheel_cong [of _ h]) auto
  have "nxt (?h ?s) \<noteq> x" using head_nxt [OF w', of ?s] x by (metis node_kinds(1,3))
  note f = link_fields(3) [OF x(1), of ?s ?h, OF _ this]
  have "addTimer now d x h = link ?s x ?h" using False by (simp add: addTimer_def Let_def e_def)
  then show thesis using False that [of ?s] wheel_link [OF w' x, of ?s] f by (simp add: e_def)
qed

definition reset :: "timer_addr list \<Rightarrow> timer_heap \<Rightarrow> timer_heap" where
  "reset zs h a = (if a \<in> set zs then (h a)\<lparr>prv := a, nxt := a\<rparr> else h a)"

lemma reset_link:
  assumes "t \<notin> set (y # ys)" "nxt (h t) \<notin> set (y # ys)" "y \<notin> set ys"
  shows "reset ys (link t y h) = link t y (reset (y # ys) h)"
proof
  fix a
  have "nxt (reset (y # ys) h t) = nxt (h t)" using assms(1) by (simp add: reset_def)
  then show "reset ys (link t y h) a = link t y (reset (y # ys) h) a"
    using assms by (auto simp: link_def Let_def reset_def)
qed

fun nchain :: "timer_heap \<Rightarrow> timer_addr list \<Rightarrow> timer_addr \<Rightarrow> bool" where
  "nchain h [] s \<longleftrightarrow> True"
| "nchain h (y # ys) s \<longleftrightarrow> nxt (h y) = hd (ys @ [s]) \<and> nchain h ys s"

lemma path_nchain: "path h a xs b \<Longrightarrow> nchain h xs b"
proof (induction xs arbitrary: a)
  case (Cons x xs)
  then show ?case using path_first [of h x xs b] by auto
qed simp

lemma nchain_cong: "(\<And>y. y \<in> set ys \<Longrightarrow> nxt (h' y) = nxt (h y)) \<Longrightarrow> nchain h' ys s = nchain h ys s"
  by (induction ys) auto

text \<open>The short slot of a node of the second level, and the redistribution on lists.\<close>

definition short_slot :: "u32 \<Rightarrow> timer_addr" where
  "short_slot e = TSlot 0 (unat (e mod TimerSlots))"

definition spread :: "timer_heap \<Rightarrow> timer_addr list \<Rightarrow> (timer_addr \<Rightarrow> timer_addr list) \<Rightarrow> timer_addr \<Rightarrow> timer_addr list" where
  "spread h = fold (\<lambda>y L. L(short_slot (expire_ts (h y)) := y # L (short_slot (expire_ts (h y)))))"

lemma spread_simps: "spread h [] L = L"
  "spread h (y # ys) L = spread h ys (L(short_slot (expire_ts (h y)) := y # L (short_slot (expire_ts (h y)))))"
  by (simp_all add: spread_def)

lemma spread_cong: "(\<And>y. y \<in> set ys \<Longrightarrow> expire_ts (h' y) = expire_ts (h y)) \<Longrightarrow> spread h' ys L = spread h ys L"
  by (induction ys arbitrary: L) (simp_all add: spread_simps)

lemma cascade_spec:
  assumes "wheel (reset (s # ys) h) L" "nchain h ys s" "distinct ys" "is_slot s" "L s = []"
    "\<And>y. y \<in> set ys \<Longrightarrow> is_node y \<and> (\<forall>t. y \<notin> set (L t)) \<and> expire_ts (h y) - now \<le> TimerSlots
       \<and> s \<noteq> short_slot (expire_ts (h y))"
  shows "\<exists>h'. cascade now s (hd (ys @ [s])) h = Some h' \<and> wheel (reset [s] h') (spread h ys L)
    \<and> (\<forall>a. expire_ts (h' a) = expire_ts (h a))"
  using assms
proof (induction ys arbitrary: h L)
  case Nil
  then show ?case by (subst cascade.simps) (simp add: spread_simps)
next
  case (Cons y ys)
  let ?e = "expire_ts (h y)" and ?t = "short_slot (expire_ts (h y))"
  have y: "is_node y" "\<forall>t. y \<notin> set (L t)" "?e - now \<le> TimerSlots" "s \<noteq> ?t" "y \<noteq> s"
    using Cons.prems(4,6) node_not_head by auto
  have t: "is_slot ?t" by (simp add: short_slot_def)
  have add: "addTimer now (?e - now) y h = link ?t y h" using y(3) by (simp add: addTimer_def short_slot_def)
  have tn: "?t \<notin> set (y # s # ys)" using t y(4) Cons.prems(6) node_not_head by auto
  have tr: "nxt (reset (s # y # ys) h ?t) = nxt (h ?t)" using tn by (simp add: reset_def)
  have nt: "nxt (h ?t) \<notin> set (y # s # ys)"
  proof
    assume a: "nxt (h ?t) \<in> set (y # s # ys)"
    have "nxt (h ?t) = ?t \<and> L ?t = [] \<or> nxt (h ?t) \<in> set (L ?t)"
      using head_nxt [OF Cons.prems(1), of ?t] t tr by simp
    then have "nxt (h ?t) \<in> set (L ?t)" using a tn by auto
    moreover have "nxt (h ?t) \<noteq> s" using wheelD(4) [OF Cons.prems(1) calculation] Cons.prems(4) node_not_head by auto
    ultimately show False using a Cons.prems(6) by auto
  qed
  have ny: "nxt (h ?t) \<noteq> y" using nt by auto
  note lf = link_fields [of y ?t h, OF y(1) t ny]
  have perm: "reset (y # s # ys) h = reset (s # y # ys) h" by (auto simp: reset_def fun_eq_iff)
  have r: "reset (s # ys) (link ?t y h) = link ?t y (reset (s # y # ys) h)"
    unfolding perm [symmetric] using tn nt Cons.prems(3) y(5) by (intro reset_link) auto
  have w: "wheel (reset (s # ys) (link ?t y h)) (L(?t := y # L ?t))"
    unfolding r by (rule wheel_link [OF Cons.prems(1) y(1,2) t])
  have "nchain (link ?t y h) ys s = nchain h ys s"
    using Cons.prems(3) tn by (intro nchain_cong) (auto simp: lf)
  then have "\<exists>h'. cascade now s (hd (ys @ [s])) (link ?t y h) = Some h' \<and>
      wheel (reset [s] h') (spread (link ?t y h) ys (L(?t := y # L ?t))) \<and> (\<forall>a. expire_ts (h' a) = expire_ts (link ?t y h a))"
    using Cons.prems y(4) by (intro Cons.IH [OF w]) (auto simp: lf)
  moreover have "cascade now s y h = cascade now s (nxt (h y)) (link ?t y h)"
    using y(5) add by (subst cascade.simps) (simp add: Let_def)
  ultimately show ?case using Cons.prems(2) spread_cong [of ys "link ?t y h" h]
    by (auto simp: spread_simps lf)
qed

lemma wheel_reset_list:
  assumes w: "wheel h L" and s: "is_slot s"
  shows "wheel (reset (s # L s) h) (L(s := []))"
proof -
  let ?h = "reset (s # L s) h"
  have other: "path ?h t (L t) t = path h t (L t) t" if "is_head t" "t \<noteq> s" for t
  proof (rule path_cong)
    have "y \<notin> set (s # L s)" if "y \<in> set (t # L t)" for y
      using that \<open>is_head t\<close> \<open>t \<noteq> s\<close> s wheelD(4,5) [OF w] node_not_head by (metis set_ConsD)
    note a = this
    show "nxt (?h y) = nxt (h y)" if "y \<in> set (t # L t)" for y using a [OF that] by (simp add: reset_def)
    show "prv (?h y) = prv (h y)" if "y \<in> set (L t)" for y using a [of y] that by (simp add: reset_def)
  qed
  show ?thesis unfolding wheel_def
  proof (intro conjI allI impI; (elim conjE)?)
    fix t assume t: "is_head t"
    show "path ?h t ((L(s := [])) t) t" using other [OF t] wheelD(1) [OF w t] by (auto simp: reset_def)
    show "distinct ((L(s := [])) t)" using wheelD(2) [OF w t] by auto
  next
    fix t assume t: "is_slot t"
    have "t \<noteq> s \<Longrightarrow> t \<notin> set (L s)" using t wheelD(4) [OF w, of t s] node_not_head by auto
    then show "prv (?h t) = last (t # (L(s := [])) t)" using wheelD(3) [OF w t] by (auto simp: reset_def)
  next
    fix y assume y: "is_node y" "\<forall>t. y \<notin> set ((L(s := [])) t)"
    show "nxt (?h y) = y" "prv (?h y) = y"
    proof -
      have "nxt (?h y) = y \<and> prv (?h y) = y"
      proof (cases "y \<in> set (s # L s)")
        case False
        then have "\<forall>t. y \<notin> set (L t)" using y(2) by (metis fun_upd_apply list.set_intros(2))
        then show ?thesis using wheelD(6) [OF w y(1)] False by (simp add: reset_def)
      qed (simp add: reset_def)
      then show "nxt (?h y) = y" "prv (?h y) = y" by auto
    qed
  qed (use wheelD(4,5) [OF w] in \<open>auto split: if_splits\<close>)
qed

text \<open>Detaching the due slot into the list of \<^verbatim>\<open>dump_slot\<close>.\<close>

definition detach :: "timer_addr \<Rightarrow> timer_heap \<Rightarrow> timer_heap" where
  "detach node h =
     (let h = h(TDump := newTimerNode TDump)
      in if isUnlinked node h then h
         else
           let h = set_nxt TDump (nxt (h node)) h;
               h = set_nxt (prv (h node)) TDump h;
               h = set_prv (nxt (h node)) TDump h;
               h = set_nxt node node h
           in set_prv node node h)"

lemma tick_detach:
  "tick now h = map_option (detach (TSlot 0 (unat (now mod TimerSlots))))
     (if now mod TimerSlots = 0 then
        map_option (reset [TSlot 1 (unat (now div TimerSlots mod TimerSlots))])
          (cascade now (TSlot 1 (unat (now div TimerSlots mod TimerSlots)))
             (nxt (h (TSlot 1 (unat (now div TimerSlots mod TimerSlots))))) h)
      else Some h)"
proof -
  have r: "set_prv s s (set_nxt s s h) = reset [s] h" for s h by (auto simp: reset_def fun_eq_iff)
  show ?thesis
    unfolding tick_def detach_def Let_def r
    by (cases "cascade now (TSlot 1 (unat (now div TimerSlots mod TimerSlots)))
             (nxt (h (TSlot 1 (unat (now div TimerSlots mod TimerSlots))))) h") auto
qed

lemma wheel_detach:
  assumes w: "wheel h L" and n: "is_slot n" and d: "L TDump = []"
  shows "wheel (detach n h) (L(TDump := L n, n := []))" (is "wheel ?h ?L")
proof -
  have nd: "n \<noteq> TDump" using n node_not_head by auto
  have noD: "y \<notin> set (L TDump)" "TDump \<notin> set (L t)" for y t using d wheelD(4) [OF w, of TDump t] by auto
  let ?hd = "h(TDump := newTimerNode TDump)"
  have w0: "wheel ?hd L"
  proof -
    have p: "path ?hd t (L t) t = path h t (L t) t" if "is_head t" "t \<noteq> TDump" for t
      using that noD(2) [of t] by (intro path_cong) auto
    have "path ?hd TDump (L TDump) TDump" by (simp add: d newTimerNode_def)
    show ?thesis unfolding wheel_def
    proof (intro conjI allI impI; (elim conjE)?)
      fix t assume t: "is_head t"
      show "path ?hd t (L t) t"
        using p [OF t] wheelD(1) [OF w t] \<open>path ?hd TDump (L TDump) TDump\<close> by (cases "t = TDump") auto
      show "distinct (L t)" by (rule wheelD(2) [OF w t])
    next
      fix t assume t: "is_slot t"
      show "prv (?hd t) = last (t # L t)" using wheelD(3) [OF w t] t node_not_head(2) [of t] by simp
    next
      fix x assume x: "is_node x" "\<forall>s. x \<notin> set (L s)"
      then show "nxt (?hd x) = x" "prv (?hd x) = x" using wheelD(6) [OF w x] node_not_head(1) [of x] by auto
    qed (use wheelD(4,5) [OF w] in blast)+
  qed
  show ?thesis
  proof (cases "L n = []")
    case True
    then have "isUnlinked n ?hd" using wheelD(3) [OF w n] nd by (simp add: isUnlinked_def)
    then have h: "detach n h = ?hd" by (simp add: detach_def)
    have "?L = L" using True d by (simp add: fun_upd_idem)
    then show ?thesis unfolding h using w0 by simp
  next
    case False
    then obtain y ys where L: "L n = y # ys" by (cases "L n") auto
    define z where "z = last (y # ys)"
    have nn: "n \<notin> set (L n)" using wheelD(4) [OF w, of n n] n node_not_head by auto
    have di: "distinct (y # ys)" using wheelD(2) [OF w, of n] n L by simp
    have p: "nxt (h n) = y" "prv (h y) = n" "path h y ys n" "prv (h n) = z"
      using wheelD(1) [OF w, of n] n L wheelD(3) [OF w n] by (auto simp: z_def)
    have zL: "z \<in> set (L n)" "y \<in> set (L n)" unfolding z_def L using last_in_set by auto
    have dist: "z \<noteq> n" "y \<noteq> n" "z \<noteq> TDump" "y \<noteq> TDump" using zL nn noD(2) [of n] by auto
    have nu: "\<not> isUnlinked n ?hd" using p(4) dist nd by (simp add: isUnlinked_def)
    have eq: "?h = set_prv n n (set_nxt n n (set_prv y TDump (set_nxt z TDump (set_nxt TDump y ?hd))))"
      using p(1,4) dist nd nu by (simp add: detach_def Let_def)
    have f: "nxt (?h a) = (if a = TDump then y else if a = z then TDump else if a = n then n else nxt (h a))"
      "prv (?h a) = (if a = n then n else if a = y then TDump else if a = TDump then TDump else prv (h a))" for a
      using dist nd unfolding eq by (auto simp: newTimerNode_def)
    have other: "path ?h t (L t) t = path h t (L t) t" if t: "is_head t" "t \<noteq> n" "t \<noteq> TDump" for t
    proof (rule path_cong)
      have "x \<noteq> n \<and> x \<noteq> TDump \<and> x \<notin> set (L n)" if "x \<in> set (t # L t)" for x
        using that t n noD(2) [of t] wheelD(4,5) [OF w] node_not_head by (metis set_ConsD)
      then have a: "x \<noteq> n \<and> x \<noteq> TDump \<and> x \<noteq> y \<and> x \<noteq> z" if "x \<in> set (t # L t)" for x using that zL by metis
      show "nxt (?h x) = nxt (h x)" if "x \<in> set (t # L t)" for x using a [OF that] by (simp add: f)
      show "prv (?h x) = prv (h x)" if "x \<in> set (L t)" for x using a [of x] that by (simp add: f)
    qed
    have dump: "path ?h TDump (L n) TDump"
    proof (cases ys rule: rev_cases)
      case Nil
      then show ?thesis using L f dist by (simp add: z_def)
    next
      case (snoc us u)
      then have zu: "z = u" by (simp add: z_def)
      have pu: "path h y us u" "prv (h u) = last (y # us)" using p(3) snoc path_append [of h y us u "[]" n] by auto
      have "TDump \<notin> set (y # us @ [u])" "n \<notin> set (y # us @ [u])" using noD(2) [of n] nn L snoc by auto
      then have "path ?h y us u = path h y us u"
        using di snoc zu by (intro path_cong) (auto simp: f)
      moreover have "prv (?h u) = prv (h u)" using di snoc dist zu by (auto simp: f)
      ultimately have "path ?h y (us @ [u]) TDump"
        using pu zu dist path_append [of ?h y us u "[]" TDump] by (simp add: f)
      then show ?thesis using L snoc dist by (simp add: f)
    qed
    show ?thesis unfolding wheel_def
    proof (intro conjI allI impI; (elim conjE)?)
      fix t assume t: "is_head t"
      consider "t = n" | "t = TDump" | "t \<noteq> n" "t \<noteq> TDump" by blast
      then show "path ?h t (?L t) t"
        by cases (use other [OF t] wheelD(1) [OF w t] dump nd dist in \<open>auto simp: f\<close>)
      show "distinct (?L t)" using wheelD(2) [OF w t] wheelD(2) [OF w, of n] n by auto
    next
      fix t assume t: "is_slot t"
      have "t \<noteq> TDump" "t \<noteq> y" using t node_not_head wheelD(4) [OF w zL(2)] by auto
      then show "prv (?h t) = last (t # ?L t)" using wheelD(3) [OF w t] by (auto simp: f)
    next
      fix x assume x: "is_node x" "\<forall>t. x \<notin> set (?L t)"
      have "x \<notin> set (L t)" for t using x(2) [THEN spec, of t] x(2) [THEN spec, of TDump] nd noD(1) by (auto split: if_splits)
      moreover from this have "x \<noteq> z" "x \<noteq> y" using zL by auto
      moreover have "x \<noteq> n" "x \<noteq> TDump" using x(1) n node_not_head by auto
      ultimately show "nxt (?h x) = x" "prv (?h x) = x" using wheelD(6) [OF w x(1)] by (auto simp: f)
    qed (use wheelD(4,5) [OF w] d n in \<open>auto split: if_splits\<close>)
  qed
qed


lemma expire_set: "expire_ts (set_nxt p v h a) = expire_ts (h a)" "expire_ts (set_prv p v h a) = expire_ts (h a)"
  by simp_all

lemma detach_expire: "a \<noteq> TDump \<Longrightarrow> expire_ts (detach n h a) = expire_ts (h a)"
proof (cases "isUnlinked n (h(TDump := newTimerNode TDump))")
  case False
  assume "a \<noteq> TDump"
  then show ?thesis unfolding detach_def Let_def if_not_P [OF False] expire_set by simp
qed (simp add: detach_def)

text \<open>The whole tick.\<close>

definition tickL :: "u32 \<Rightarrow> timer_heap \<Rightarrow> (timer_addr \<Rightarrow> timer_addr list) \<Rightarrow> timer_addr \<Rightarrow> timer_addr list" where
  "tickL now h L =
     (let s = TSlot 1 (unat (now div TimerSlots mod TimerSlots));
          n = TSlot 0 (unat (now mod TimerSlots));
          L1 = (if now mod TimerSlots = 0 then spread h (L s) (L(s := [])) else L)
      in L1(TDump := L1 n, n := []))"

lemma spread_other: "is_slot s \<and> (\<forall>i. s \<noteq> TSlot 0 i) \<or> s = TDump \<Longrightarrow> spread h ys L s = L s"
  by (induction ys arbitrary: L) (auto simp: spread_simps short_slot_def)

lemma spread_mem:
  "x \<in> set (spread h ys L t) \<longleftrightarrow> x \<in> set (L t) \<or> x \<in> set ys \<and> t = short_slot (expire_ts (h x))"
proof (induction ys arbitrary: L)
  case (Cons y ys)
  show ?case
    unfolding spread_simps(2) Cons.IH by auto
qed (simp add: spread_simps)

lemma tick_spec:
  assumes w: "wheel h L" and d: "L TDump = []"
    and due: "\<And>y. now mod TimerSlots = 0 \<Longrightarrow> y \<in> set (L (TSlot 1 (unat (now div TimerSlots mod TimerSlots)))) \<Longrightarrow>
      expire_ts (h y) - now \<le> TimerSlots"
  shows "\<exists>h'. tick now h = Some h' \<and> wheel h' (tickL now h L)
    \<and> (\<forall>a. is_node a \<longrightarrow> expire_ts (h' a) = expire_ts (h a))"
proof -
  let ?s = "TSlot 1 (unat (now div TimerSlots mod TimerSlots))" and ?n = "TSlot 0 (unat (now mod TimerSlots))"
  show ?thesis
  proof (cases "now mod TimerSlots = 0")
    case False
    then have "tick now h = Some (detach ?n h)" by (simp add: tick_detach)
    moreover have "wheel (detach ?n h) (tickL now h L)"
      using wheel_detach [OF w _ d, of ?n] False by (simp add: tickL_def Let_def)
    moreover have "expire_ts (detach ?n h a) = expire_ts (h a)" if "is_node a" for a
      using detach_expire node_not_head(1) [OF that] by blast
    ultimately show ?thesis by blast
  next
    case True
    have node: "y \<in> set (L ?s) \<Longrightarrow> is_node y \<and> (\<forall>t. y \<notin> set ((L(?s := [])) t))" for y
      using wheelD(4,5) [OF w] by auto
    have first: "nxt (h ?s) = hd (L ?s @ [?s])" using path_first [OF wheelD(1) [OF w]] by simp
    obtain h' where h': "cascade now ?s (hd (L ?s @ [?s])) h = Some h'"
        "wheel (reset [?s] h') (spread h (L ?s) (L(?s := [])))" "\<forall>a. expire_ts (h' a) = expire_ts (h a)"
      using cascade_spec [where now = now, OF wheel_reset_list [OF w, of ?s] path_nchain [OF wheelD(1) [OF w, of ?s]]]
        wheelD(2) [OF w, of ?s] node due [OF True] by (auto simp: short_slot_def)
    have "tick now h = Some (detach ?n (reset [?s] h'))" using True h'(1) first by (simp add: tick_detach)
    moreover have "wheel (detach ?n (reset [?s] h')) (tickL now h L)"
      using wheel_detach [OF h'(2), of ?n] True d spread_other [of TDump h "L ?s" "L(?s := [])"]
      by (simp add: tickL_def Let_def)
    moreover have "expire_ts (detach ?n (reset [?s] h') a) = expire_ts (h a)" if "is_node a" for a
      using detach_expire that node_not_head(1) [OF that] h'(3) by (simp add: reset_def)
    ultimately show ?thesis by blast
  qed
qed

end
