(* ===== verification/TimerTicks.thy ===== *)
theory TimerTicks
  imports TimerWheel
begin

text \<open>
  The timing of the wheel: how many ticks each linked timer has to go, that every operation keeps
  this count, and that a timer expires exactly at the tick it was armed for.
\<close>

subsection \<open>When a timer fires\<close>

text \<open>
  A node that has \<open>u\<close> ticks to go: it is in the slot of the first level where the wheel passes
  in \<open>u\<close> ticks, or in the second level, with its expiry time, at most 256 rounds ahead.
\<close>

definition long_at :: "u32 \<Rightarrow> nat \<Rightarrow> u32 \<Rightarrow> nat \<Rightarrow> bool" where
  "long_at now u e i \<longleftrightarrow> e = now + of_nat u \<and> i = (unat now + u) div 256 mod 256
     \<and> unat now div 256 < (unat now + u) div 256 \<and> (unat now + u) div 256 \<le> unat now div 256 + 256"

definition pending :: "u32 \<Rightarrow> timer_heap \<Rightarrow> (timer_addr \<Rightarrow> timer_addr list) \<Rightarrow> timer_addr \<Rightarrow> nat \<Rightarrow> bool" where
  "pending now h L x u \<longleftrightarrow>
     1 \<le> u \<and> u \<le> 256 \<and> x \<in> set (L (TSlot 0 ((unat now + u) mod 256)))
     \<or> (\<exists>i. x \<in> set (L (TSlot 1 i)) \<and> long_at now u (expire_ts (h x)) i)"

definition wheel_inv :: "u32 \<Rightarrow> timer_heap \<Rightarrow> (timer_addr \<Rightarrow> timer_addr list) \<Rightarrow> bool" where
  "wheel_inv now h L \<longleftrightarrow> wheel h L
     \<and> (\<forall>i x. x \<in> set (L (TSlot 1 i)) \<longrightarrow> (\<exists>u. long_at now u (expire_ts (h x)) i))"

lemma unat_mod256: "unat ((x :: u32) mod TimerSlots) = unat x mod 256"
  by (simp add: unat_mod)

lemma unat_div256: "unat ((x :: u32) div TimerSlots mod TimerSlots) = unat x div 256 mod 256"
  by (simp add: unat_mod unat_div)

lemma unat_now_add: "unat ((now :: u32) + of_nat u) = (unat now + u) mod 4294967296"
  by (simp add: unat_word_ariths unat_of_nat mod_simps)

lemma slot_wrap: "(n :: nat) mod 4294967296 mod 256 = n mod 256"
  "(n :: nat) mod 4294967296 div 256 mod 256 = n div 256 mod 256"
proof -
  show "n mod 4294967296 mod 256 = n mod 256" by (rule mod_mod_cancel) simp
  have "n mod 4294967296 div 256 = n div 256 mod 16777216"
    using mod_mult2_eq [of n 256 16777216] by simp
  moreover have "n div 256 mod 16777216 mod 256 = n div 256 mod 256" by (rule mod_mod_cancel) simp
  ultimately show "n mod 4294967296 div 256 mod 256 = n div 256 mod 256" by simp
qed

text \<open>The clock after one tick, as a number, with the wrap-around.\<close>

lemma next_now: "unat ((now :: u32) + 1) = (if unat now = 4294967295 then 0 else unat now + 1)"
proof -
  have "unat (now + 1) = (unat now + 1) mod 4294967296" using unat_now_add [of now 1] by simp
  moreover have "unat now \<noteq> 4294967295 \<Longrightarrow> unat now + 1 < 4294967296"
    using unat_lt_u32 [of now] by linarith
  ultimately show ?thesis by auto
qed

lemma next_slot: "1 \<le> u \<Longrightarrow> (unat ((now :: u32) + 1) + (u - 1)) mod 256 = (unat now + u) mod 256"
proof (cases "unat now = 4294967295")
  case True
  assume "1 \<le> u"
  then have "unat now + u = 4294967296 + (u - 1)" using True by simp
  moreover have "(4294967296 + (u - 1)) mod 256 = (u - 1) mod 256" by (simp add: mod_add_left_eq [symmetric])
  ultimately show ?thesis using True by (simp add: next_now)
qed (simp add: next_now)

text \<open>The second level: a slot that the tick does not visit keeps its nodes on time.\<close>

lemma long_stay:
  assumes l: "long_at now u e i" and s: "\<not> (unat (now + 1) mod 256 = 0 \<and> i = unat (now + 1) div 256 mod 256)"
  shows "1 < u" "long_at (now + 1) (u - 1) e i"
proof -
  define n where "n = unat now"
  define k where "k = (n + u) div 256 - n div 256"
  have l': "e = now + of_nat u" "i = (n + u) div 256 mod 256" "n div 256 < (n + u) div 256"
      "(n + u) div 256 \<le> n div 256 + 256" using l by (auto simp: long_at_def n_def)
  have u0: "u \<noteq> 0" using l'(3) by (cases u) auto
  have n: "n < 4294967296" by (simp add: n_def)
  have nn: "unat (now + 1) = (if n = 4294967295 then 0 else n + 1)" using next_now [of now] by (simp add: n_def)
  have e: "e = (now + 1) + of_nat (u - 1)" using l'(1) u0 by (cases u) auto
  show "1 < u"
  proof (rule ccontr)
    assume "\<not> 1 < u"
    then have "u = 1" using u0 by simp
    then have "(n + 1) mod 256 = 0" using l'(3) by (metis div_eq_dividend_iff less_irrefl mod_Suc Suc_eq_plus1 div_Suc)
    then show False using s l'(2) \<open>u = 1\<close> n unfolding nn by (auto split: if_splits)
  qed
  show "long_at (now + 1) (u - 1) e i"
  proof (cases "n = 4294967295")
    case True
    have "(n + u) div 256 = 16777216 + (u - 1) div 256" using True u0 by (simp add: div_add_self1)
    moreover have "n div 256 = 16777215" using True by simp
    moreover have "(u - 1) div 256 \<noteq> 0 \<or> (u - 1) div 256 mod 256 \<noteq> 0"
      using s l'(2) calculation(1) True nn by (auto simp: mod_add_left_eq [symmetric])
    ultimately show ?thesis using l' e True nn unfolding long_at_def
      by (auto simp: mod_add_left_eq [symmetric])
  next
    case False
    have eq: "n + 1 + (u - 1) = n + u" using u0 by simp
    have "(n + 1) div 256 < (n + u) div 256"
    proof (rule ccontr)
      assume "\<not> (n + 1) div 256 < (n + u) div 256"
      then have "(n + 1) div 256 = (n + u) div 256" using div_le_mono [of "n + 1" "n + u" 256] u0 by simp
      then have "n div 256 < (n + 1) div 256" "i = (n + 1) div 256 mod 256" using l'(2,3) by auto
      then have "(n + 1) mod 256 = 0" by (metis less_irrefl mod_Suc Suc_eq_plus1 div_Suc)
      then show False using s \<open>i = (n + 1) div 256 mod 256\<close> False unfolding nn by simp
    qed
    moreover have "(n + u) div 256 \<le> (n + 1) div 256 + 256" using l'(4) div_le_mono [of n "n + 1" 256] by simp
    ultimately show ?thesis using l'(2) e False nn eq unfolding long_at_def by simp
  qed
qed

lemma mod_shift_zero:
  fixes q m :: nat
  assumes "(q + m) mod 256 = q mod 256" "m \<le> 255"
  shows "m = 0"
proof -
  have "256 dvd (q + m) - q" using assms(1) mod_eq_dvd_iff_nat [of q "q + m" 256] by simp
  then have "256 dvd m" by simp
  then show ?thesis using assms(2) dvd_imp_le [of 256 m] by (cases "m = 0") auto
qed

lemma long_due:
  assumes l: "long_at now u e i" and s: "unat (now + 1) mod 256 = 0" "i = unat (now + 1) div 256 mod 256"
  shows "1 \<le> u" "u \<le> 256" "e = (now + 1) + of_nat (u - 1)"
proof -
  define n where "n = unat now"
  have l': "e = now + of_nat u" "i = (n + u) div 256 mod 256" "n div 256 < (n + u) div 256"
      "(n + u) div 256 \<le> n div 256 + 256" using l by (auto simp: long_at_def n_def)
  have u0: "u \<noteq> 0" using l'(3) by (cases u) auto
  then show "1 \<le> u" by simp
  show "e = (now + 1) + of_nat (u - 1)" using l'(1) u0 by (cases u) auto
  have nn: "unat (now + 1) = (if n = 4294967295 then 0 else n + 1)" using next_now [of now] by (simp add: n_def)
  show "u \<le> 256"
  proof (cases "n = 4294967295")
    case True
    have q: "(n + u) div 256 = 16777216 + (u - 1) div 256" using True u0 by (simp add: div_add_self1)
    then have "(u - 1) div 256 mod 256 = 0" "(u - 1) div 256 \<le> 255" using s l' True nn by (auto simp: mod_add_left_eq [symmetric])
    then have "(u - 1) div 256 = 0" by simp
    then show ?thesis by (simp add: div_eq_0_iff)
  next
    case False
    then obtain q where q: "n + 1 = 256 * q" using s(1) nn by (auto simp: mod_eq_0_iff_dvd)
    then have "n = 256 * (q - 1) + 255" "0 < q" by (cases q, auto)+
    then have d: "n div 256 = q - 1" by simp
    have "(n + u) div 256 = q + (u - 1) div 256"
    proof -
      have "n + u = 256 * q + (u - 1)" using q u0 by simp
      then show ?thesis by simp
    qed
    moreover have "(q + (u - 1) div 256) mod 256 = q mod 256" using s(2) l'(2) calculation nn False q by simp
    moreover have "(u - 1) div 256 \<le> 255" using l'(4) d calculation(1) \<open>0 < q\<close> by simp
    ultimately have "(u - 1) div 256 = 0" by (intro mod_shift_zero [of q])
    then show ?thesis by (simp add: div_eq_0_iff)
  qed
qed


lemma long_due_word:
  assumes "long_at now u e i" "(now + 1) mod TimerSlots = 0" "i = unat ((now + 1) div TimerSlots mod TimerSlots)"
  shows "e - (now + 1) \<le> TimerSlots" "short_slot e = TSlot 0 ((unat (now + 1) + (u - 1)) mod 256)"
proof -
  have "unat (now + 1) mod 256 = 0" "i = unat (now + 1) div 256 mod 256"
    using assms(2,3) unat_mod256 [of "now + 1"] unat_div256 [of "now + 1"] by auto
  then have d: "1 \<le> u" "u \<le> 256" "e = (now + 1) + of_nat (u - 1)" using long_due [OF assms(1)] by auto
  have "unat (of_nat (u - 1) :: u32) = u - 1" using d(2) by (intro unat_of_nat_small) simp
  then show "e - (now + 1) \<le> TimerSlots" using d by (simp add: word_le_nat_alt)
  show "short_slot e = TSlot 0 ((unat (now + 1) + (u - 1)) mod 256)"
    unfolding short_slot_def unat_mod256 d(3) unat_now_add slot_wrap ..
qed

text \<open>One tick on a wheel whose expired list has been emptied.\<close>

lemma tick_inv:
  assumes inv: "wheel_inv now h L" and d: "L TDump = []"
  shows "\<exists>h'. tick (now + 1) h = Some h' \<and> wheel_inv (now + 1) h' (tickL (now + 1) h L)
    \<and> (\<forall>a. is_node a \<longrightarrow> expire_ts (h' a) = expire_ts (h a))"
proof -
  let ?now = "now + 1"
  let ?s = "TSlot 1 (unat (?now div TimerSlots mod TimerSlots))"
  have w: "wheel h L" and long: "\<And>i x. x \<in> set (L (TSlot 1 i)) \<Longrightarrow> \<exists>u. long_at now u (expire_ts (h x)) i"
    using inv by (auto simp: wheel_inv_def)
  have due: "expire_ts (h y) - ?now \<le> TimerSlots" if "?now mod TimerSlots = 0" "y \<in> set (L ?s)" for y
    using long [OF that(2)] long_due_word(1) [OF _ that(1) refl] by blast
  obtain h' where h': "tick ?now h = Some h'" "wheel h' (tickL ?now h L)"
      "\<forall>a. is_node a \<longrightarrow> expire_ts (h' a) = expire_ts (h a)"
    using tick_spec [OF w d, of ?now, OF due] by blast
  have "\<exists>u. long_at ?now u (expire_ts (h' x)) i" if x: "x \<in> set (tickL ?now h L (TSlot 1 i))" for x i
  proof -
    have xL: "x \<in> set (L (TSlot 1 i))" and vis: "\<not> (?now mod TimerSlots = 0 \<and> TSlot 1 i = ?s)"
      using x spread_other [of "TSlot 1 i" h "L ?s" "L(?s := [])"]
      by (auto simp: tickL_def Let_def split: if_splits)
    obtain u where u: "long_at now u (expire_ts (h x)) i" using long [OF xL] by blast
    have "\<not> (unat ?now mod 256 = 0 \<and> i = unat ?now div 256 mod 256)"
      using vis unat_mod256 [of ?now] unat_div256 [of ?now] by (auto simp: unat_eq_0)
    then show ?thesis using long_stay(2) [OF u] h'(3) wheelD(4) [OF w xL] by auto
  qed
  then show ?thesis using h' unfolding wheel_inv_def by blast
qed

lemma tick_pending:
  assumes inv: "wheel_inv now h L" and p: "pending now h L x u" and h': "\<And>a. is_node a \<Longrightarrow> expire_ts (h' a) = expire_ts (h a)"
  shows "if u = 1 then x \<in> set (tickL (now + 1) h L TDump) else pending (now + 1) h' (tickL (now + 1) h L) x (u - 1)"
proof -
  let ?now = "now + 1"
  let ?s = "TSlot 1 (unat (?now div TimerSlots mod TimerSlots))" and ?n = "TSlot 0 (unat (?now mod TimerSlots))"
  let ?L1 = "if ?now mod TimerSlots = 0 then spread h (L ?s) (L(?s := [])) else L"
  have w: "wheel h L" using inv by (simp add: wheel_inv_def)
  have tl: "tickL ?now h L = ?L1(TDump := ?L1 ?n, ?n := [])" by (simp add: tickL_def Let_def)
  have n: "?n = TSlot 0 (unat ?now mod 256)" by (simp add: unat_mod256)
  have short: ?thesis if q: "1 \<le> u" "u \<le> 256" "x \<in> set (?L1 (TSlot 0 ((unat ?now + (u - 1)) mod 256)))"
  proof (cases "u = 1")
    case True
    then show ?thesis using q(3) unfolding tl n by simp
  next
    case False
    have "(unat ?now + (u - 1)) mod 256 \<noteq> unat ?now mod 256"
    proof
      assume "(unat ?now + (u - 1)) mod 256 = unat ?now mod 256"
      then have "u - 1 = 0" using q(2) by (intro mod_shift_zero [of "unat ?now"]) simp_all
      then show False using False q(1) by simp
    qed
    then have "x \<in> set (tickL ?now h L (TSlot 0 ((unat ?now + (u - 1)) mod 256)))"
      using q(3) unfolding tl n by simp
    then show ?thesis using False q unfolding pending_def by auto
  qed
  from p [unfolded pending_def] show ?thesis
  proof (elim disjE conjE exE)
    assume q: "1 \<le> u" "u \<le> 256" "x \<in> set (L (TSlot 0 ((unat now + u) mod 256)))"
    then have "x \<in> set (?L1 (TSlot 0 ((unat ?now + (u - 1)) mod 256)))"
      unfolding next_slot [OF q(1)] by (simp add: spread_mem)
    then show ?thesis using short q by blast
  next
    fix i assume xL: "x \<in> set (L (TSlot 1 i))" and l: "long_at now u (expire_ts (h x)) i"
    show ?thesis
    proof (cases "?now mod TimerSlots = 0 \<and> i = unat (?now div TimerSlots mod TimerSlots)")
      case True
      have "unat ?now mod 256 = 0" "i = unat ?now div 256 mod 256"
        using True unat_mod256 [of ?now] unat_div256 [of ?now] by auto
      then have "1 \<le> u" "u \<le> 256" using long_due [OF l] by auto
      moreover have "x \<in> set (?L1 (TSlot 0 ((unat ?now + (u - 1)) mod 256)))"
        using True xL long_due_word(2) [OF l] by (simp add: spread_mem)
      ultimately show ?thesis using short by blast
    next
      case False
      then have "\<not> (unat ?now mod 256 = 0 \<and> i = unat ?now div 256 mod 256)"
        using unat_mod256 [of ?now] unat_div256 [of ?now] by (auto simp: unat_eq_0)
      then have "1 < u" "long_at ?now (u - 1) (expire_ts (h' x)) i"
        using long_stay [OF l] h' wheelD(4) [OF w xL] by auto
      moreover have "x \<in> set (tickL ?now h L (TSlot 1 i))"
        using xL False spread_other [of "TSlot 1 i" h "L ?s" "L(?s := [])"] unfolding tl by auto
      ultimately show ?thesis unfolding pending_def by auto
    qed
  qed
qed


subsection \<open>Runs of the wheel\<close>

text \<open>
  The operations that handlers and the poll loop interleave: arming a timer that is not linked,
  unlinking one (cancelling it, or taking it off the expired list), and a tick once the expired
  list is empty.
\<close>

datatype wheel_op = WAdd timer_addr u32 | WUnlink timer_addr | WTick

fun wheel_step :: "wheel_op \<Rightarrow> u32 \<times> timer_heap \<Rightarrow> (u32 \<times> timer_heap) option" where
  "wheel_step (WAdd y d) (now, h) =
     (if is_node y \<and> isUnlinked y h then Some (now, addTimer now d y h) else None)"
| "wheel_step (WUnlink y) (now, h) = (if is_node y then Some (now, unlink y h) else None)"
| "wheel_step WTick (now, h) =
     (if nxt (h TDump) = TDump then map_option (Pair (now + 1)) (tick (now + 1) h) else None)"

fun wheel_run :: "wheel_op list \<Rightarrow> u32 \<times> timer_heap \<Rightarrow> (u32 \<times> timer_heap) option" where
  "wheel_run [] s = Some s"
| "wheel_run (p # ps) s = Option.bind (wheel_step p s) (wheel_run ps)"

fun op_ticks :: "wheel_op \<Rightarrow> nat" where
  "op_ticks WTick = 1"
| "op_ticks _ = 0"

fun touches :: "timer_addr \<Rightarrow> wheel_op \<Rightarrow> bool" where
  "touches x (WAdd y _) \<longleftrightarrow> y = x"
| "touches x (WUnlink y) \<longleftrightarrow> y = x"
| "touches x WTick \<longleftrightarrow> False"

abbreviation ticks :: "wheel_op list \<Rightarrow> nat" where
  "ticks ops \<equiv> sum_list (map op_ticks ops)"

lemma unlinked_iff:
  assumes w: "wheel h L" and x: "is_node x"
  shows "isUnlinked x h \<longleftrightarrow> (\<forall>s. x \<notin> set (L s))"
proof
  assume "isUnlinked x h"
  then have self: "prv (h x) = x" by (simp add: isUnlinked_def)
  show "\<forall>s. x \<notin> set (L s)"
  proof (rule allI, rule notI)
    fix s assume "x \<in> set (L s)"
    then obtain xs ys where "prv (h x) = last (s # xs)" "distinct (s # xs @ x # ys)" using node_in_list [OF w] by metis
    then show False using self last_in_set [of "s # xs"] by auto
  qed
next
  assume "\<forall>s. x \<notin> set (L s)"
  then show "isUnlinked x h" using wheelD(6) [OF w x] by (simp add: isUnlinked_def)
qed

lemma capped_duration:
  fixes now d :: u32
  assumes "\<not> d \<le> TimerSlots"
  defines "c \<equiv> min d (TimerSlots * (TimerSlots + 1) - 1 - now mod TimerSlots)"
  shows "unat c = min (unat d) (65791 - unat now mod 256)"
    and "long_at now (unat c) (now + c) (unat ((now + c) div TimerSlots mod TimerSlots))"
proof -
  let ?n = "unat now"
  have "now mod TimerSlots \<le> 65791" by (simp add: word_le_nat_alt unat_mod256)
  then have "unat (65791 - now mod TimerSlots) = 65791 - ?n mod 256"
    using unat_sub [of "now mod TimerSlots" 65791] by (simp add: unat_mod256)
  then show c: "unat c = min (unat d) (65791 - ?n mod 256)"
    unfolding c_def by (auto simp: min_def word_le_nat_alt)
  have "256 < 65791 - ?n mod 256" using mod_less_divisor [of 256 ?n] by linarith
  then have big: "256 < unat c" using assms(1) c by (simp add: word_le_nat_alt)
  have up: "?n + unat c \<le> 256 * (?n div 256) + 65791"
    using c mult_div_mod_eq [of 256 ?n] mod_less_divisor [of 256 ?n] by linarith
  have "?n div 256 + 1 \<le> (?n + unat c) div 256"
    using big div_le_mono [of "?n + 256" "?n + unat c" 256] by simp
  moreover have "(?n + unat c) div 256 \<le> ?n div 256 + 256"
  proof -
    have "(?n + unat c) div 256 \<le> (256 * (?n div 256) + 65791) div 256" using up by (rule div_le_mono)
    then show ?thesis by simp
  qed
  moreover have "unat ((now + c) div TimerSlots mod TimerSlots) = (?n + unat c) div 256 mod 256"
    using unat_now_add [of now "unat c"] by (simp add: unat_div256 slot_wrap)
  ultimately show "long_at now (unat c) (now + c) (unat ((now + c) div TimerSlots mod TimerSlots))"
    unfolding long_at_def by simp
qed

lemma addTimer_inv:
  assumes inv: "wheel_inv now h L" and y: "is_node y" "\<forall>s. y \<notin> set (L s)"
  shows "\<exists>s. wheel_inv now (addTimer now d y h) (L(s := y # L s)) \<and> is_slot s
    \<and> (\<forall>x u. x \<noteq> y \<longrightarrow> pending now h L x u \<longrightarrow> pending now (addTimer now d y h) (L(s := y # L s)) x u)
    \<and> (1 \<le> d \<longrightarrow> pending now (addTimer now d y h) (L(s := y # L s)) y (min (unat d) (65791 - unat now mod 256)))"
proof -
  let ?h = "addTimer now d y h"
  have w: "wheel h L" using inv by (simp add: wheel_inv_def)
  obtain s where s: "wheel ?h (L(s := y # L s))"
      "s = (if d \<le> TimerSlots then TSlot 0 (unat ((now + d) mod TimerSlots))
            else TSlot 1 (unat (expire_ts (?h y) div TimerSlots mod TimerSlots)))"
      "expire_ts (?h y) = (if d \<le> TimerSlots then expire_ts (h y)
            else now + min d (TimerSlots * (TimerSlots + 1) - 1 - now mod TimerSlots))"
      "\<forall>a. a \<noteq> y \<longrightarrow> expire_ts (?h a) = expire_ts (h a)"
    using wheel_addTimer [OF w y, of now d] .
  let ?L = "L(s := y # L s)"
  have mem: "x \<in> set (?L t) \<longleftrightarrow> x \<in> set (L t) \<or> x = y \<and> t = s" for x t by auto
  have old: "pending now ?h ?L x u" if "x \<noteq> y" "pending now h L x u" for x u
    using that s(4) unfolding pending_def mem by metis
  have new: "long_at now (unat (min d (65791 - now mod TimerSlots))) (expire_ts (?h y)) i"
    if "\<not> d \<le> TimerSlots" "s = TSlot 1 i" for i
    using capped_duration(2) [OF that(1), of now] s(2,3) that by simp
  have "wheel_inv now ?h ?L" unfolding wheel_inv_def
  proof (intro conjI allI impI)
    fix i x assume "x \<in> set (?L (TSlot 1 i))"
    then consider "x \<in> set (L (TSlot 1 i))" | "x = y" "s = TSlot 1 i" unfolding mem by auto
    then show "\<exists>u. long_at now u (expire_ts (?h x)) i"
    proof cases
      case 1
      then have "x \<noteq> y" using y(2) by auto
      then show ?thesis using 1 inv s(4) by (simp add: wheel_inv_def)
    next
      case 2
      then have "\<not> d \<le> TimerSlots" using s(2) by auto
      then show ?thesis using new 2 by blast
    qed
  qed (rule s(1))
  moreover have "is_slot s" using s(2) by simp
  moreover have "pending now ?h ?L y (min (unat d) (65791 - unat now mod 256))" if "1 \<le> d"
  proof (cases "d \<le> TimerSlots")
    case True
    have le: "unat d \<le> 256" "1 \<le> unat d" using True that by (simp_all add: word_le_nat_alt)
    have "unat now mod 256 < 256" by simp
    then have "min (unat d) (65791 - unat now mod 256) = unat d" using le(1) by linarith
    moreover have "unat ((now + d) mod TimerSlots) = (unat now + unat d) mod 256"
      using unat_now_add [of now "unat d"] by (simp add: unat_mod256 slot_wrap)
    ultimately show ?thesis using le s(2) True unfolding pending_def by simp
  next
    case False
    then obtain i where i: "s = TSlot 1 i" using s(2) by auto
    show ?thesis using new [OF False i] capped_duration(1) [OF False, of now] i unfolding pending_def by auto
  qed
  ultimately show ?thesis using old by blast
qed


lemma unlink_inv:
  assumes inv: "wheel_inv now h L" and y: "is_node y"
  shows "\<exists>L'. wheel_inv now (unlink y h) L' \<and> (\<forall>x s. x \<noteq> y \<longrightarrow> x \<in> set (L s) \<longrightarrow> x \<in> set (L' s))
    \<and> (\<forall>s. set (L' s) \<subseteq> set (L s))"
proof -
  have w: "wheel h L" using inv by (simp add: wheel_inv_def)
  show ?thesis
  proof (cases "\<forall>s. y \<notin> set (L s)")
    case True
    then show ?thesis using inv unlink_idle wheelD(6) [OF w y True] by (intro exI [of _ L]) auto
  next
    case False
    then obtain s where s: "y \<in> set (L s)" by blast
    let ?L = "L(s := remove1 y (L s))"
    have sub: "set (?L t) \<subseteq> set (L t)" for t using set_remove1_subset [of y "L s"] by auto
    have "wheel (unlink y h) ?L" by (rule wheel_unlink [OF w s])
    moreover have "\<exists>u. long_at now u (expire_ts (unlink y h x)) i" if "x \<in> set (?L (TSlot 1 i))" for x i
      using that sub [of "TSlot 1 i"] inv by (auto simp: wheel_inv_def unlink_expire)
    ultimately have "wheel_inv now (unlink y h) ?L" unfolding wheel_inv_def by blast
    moreover have "\<forall>x t. x \<noteq> y \<longrightarrow> x \<in> set (L t) \<longrightarrow> x \<in> set (?L t)" by simp
    ultimately show ?thesis using sub by blast
  qed
qed

lemma dump_empty: "wheel h L \<Longrightarrow> nxt (h TDump) = TDump \<longleftrightarrow> L TDump = []"
  using head_nxt [of h L TDump] wheelD(4) [of h L TDump TDump] path_first [OF wheelD(1), of h L TDump] by auto

text \<open>
  One operation that does not touch \<open>x\<close>: the invariant is kept, and a node with \<open>u\<close> ticks to go
  has as many less as the operation has, or is on the expired list when there are none left.
\<close>

lemma wheel_step_inv:
  assumes inv: "wheel_inv now h L" and st: "wheel_step p (now, h) = Some (now', h')"
  shows "\<exists>L'. wheel_inv now' h' L' \<and> (\<forall>x u. \<not> touches x p \<longrightarrow> pending now h L x u \<longrightarrow>
    (if u = op_ticks p then x \<in> set (L' TDump) else pending now' h' L' x (u - op_ticks p)))"
proof (cases p)
  case (WAdd y d)
  then have y: "is_node y" "isUnlinked y h" "now' = now" "h' = addTimer now d y h"
    using st by (auto split: if_splits)
  then have fresh: "\<forall>s. y \<notin> set (L s)" using unlinked_iff inv by (auto simp: wheel_inv_def)
  have nz: "pending now h L x u \<Longrightarrow> u \<noteq> 0" for x u by (auto simp: pending_def long_at_def)
  obtain s where s: "wheel_inv now (addTimer now d y h) (L(s := y # L s))"
      "\<forall>x u. x \<noteq> y \<longrightarrow> pending now h L x u \<longrightarrow> pending now (addTimer now d y h) (L(s := y # L s)) x u"
    using addTimer_inv [OF inv y(1) fresh, of d] by blast
  then show ?thesis using WAdd y(3,4) nz by (intro exI [of _ "L(s := y # L s)"]) auto
next
  case (WUnlink y)
  then have y: "is_node y" "now' = now" "h' = unlink y h" using st by (auto split: if_splits)
  have nz: "pending now h L x u \<Longrightarrow> u \<noteq> 0" for x u by (auto simp: pending_def long_at_def)
  obtain L' where L': "wheel_inv now (unlink y h) L'"
      "\<forall>x s. x \<noteq> y \<longrightarrow> x \<in> set (L s) \<longrightarrow> x \<in> set (L' s)" using unlink_inv [OF inv y(1)] by blast
  have "pending now (unlink y h) L' x u" if "x \<noteq> y" "pending now h L x u" for x u
    using that L'(2) unfolding pending_def unlink_expire by blast
  then show ?thesis using L'(1) WUnlink y nz by (intro exI [of _ L']) auto
next
  case WTick
  have w: "wheel h L" using inv by (simp add: wheel_inv_def)
  have t: "L TDump = []" "tick (now + 1) h = Some h'" "now' = now + 1"
    using st WTick dump_empty [OF w] by (auto split: if_splits)
  then have h': "wheel_inv now' h' (tickL now' h L)" "\<And>a. is_node a \<Longrightarrow> expire_ts (h' a) = expire_ts (h a)"
    using tick_inv [OF inv t(1)] by auto
  show ?thesis
  proof (intro exI conjI allI impI)
    show "wheel_inv now' h' (tickL now' h L)" by (rule h'(1))
    fix x u assume "pending now h L x u"
    then show "if u = op_ticks p then x \<in> set (tickL now' h L TDump)
        else pending now' h' (tickL now' h L) x (u - op_ticks p)"
      using tick_pending [OF inv _ h'(2), of x u] t(3) WTick by (simp split: if_splits)
  qed
qed

lemma wheel_run_pending:
  assumes "wheel_inv now h L" "pending now h L x u" "\<forall>p \<in> set ops. \<not> touches x p"
    and "wheel_run ops (now, h) = Some (now', h')" "ticks ops < u"
  shows "\<exists>L'. wheel_inv now' h' L' \<and> pending now' h' L' x (u - ticks ops)"
  using assms
proof (induction ops arbitrary: now h L u)
  case Nil
  then show ?case by auto
next
  case (Cons p ops)
  obtain now1 h1 where st: "wheel_step p (now, h) = Some (now1, h1)" "wheel_run ops (now1, h1) = Some (now', h')"
    using Cons.prems(4) by (cases "wheel_step p (now, h)") auto
  obtain L1 where L1: "wheel_inv now1 h1 L1"
      "if u = op_ticks p then x \<in> set (L1 TDump) else pending now1 h1 L1 x (u - op_ticks p)"
    using wheel_step_inv [OF Cons.prems(1) st(1)] Cons.prems(2,3) by auto
  have "pending now1 h1 L1 x (u - op_ticks p)" "ticks ops < u - op_ticks p" using L1(2) Cons.prems(5) by auto
  then show ?case using Cons.IH [OF L1(1) _ _ st(2), of "u - op_ticks p"] Cons.prems(3) by (simp add: diff_diff_eq)
qed

lemma wheel_run_append: "wheel_run (ps @ qs) s = Option.bind (wheel_run ps s) (wheel_run qs)"
  by (induction ps arbitrary: s) (auto split: bind_splits)


lemma wheel_empty: "wheel_inv now newTimerNode (\<lambda>_. [])"
  by (simp add: wheel_inv_def wheel_def newTimerNode_def)

subsection \<open>Properties of the wheel\<close>



text \<open>
  C39: A tick returns: on a wheel that satisfies the invariant and whose expired list is empty,
  the redistribution of the second level ends and the invariant holds afterwards.
\<close>

theorem tick_returns:
  assumes "wheel_inv now h L" and "nxt (h TDump) = TDump"
  shows "\<exists>h' L'. tick (now + 1) h = Some h' \<and> wheel_inv (now + 1) h' L'"
  using tick_inv [OF assms(1)] dump_empty [of h L] assms by (auto simp: wheel_inv_def)

theorem tick_returns_witness:
  "\<exists>h' L'. tick (0xffffffff + 1) newTimerNode = Some h' \<and> wheel_inv (0xffffffff + 1) h' L'"
  by (rule tick_returns [OF wheel_empty]) (simp add: newTimerNode_def)

end
