(* ===== verification/Checksum.thy ===== *)
theory Checksum
  imports Prelude
begin

text \<open>
  The Internet checksum accumulator \<^verbatim>\<open>CSum\<close> of \<^verbatim>\<open>efvitcp/Core.h\<close> and the
  copy-and-sum routine of \<^verbatim>\<open>efvitcp/TcpConn.h\<close>.
\<close>

subsection \<open>The accumulator\<close>

record CSum =
  csum :: u32

definition CSum_of :: "u32 \<Rightarrow> CSum" where
  "CSum_of s = \<lparr>csum = s\<rparr>"

definition CSum_fold :: "CSum \<Rightarrow> u16" where
  "CSum_fold c =
     (let res = drop_bit 16 (csum c) + (csum c AND 0xffff);
          res = res + drop_bit 16 res
      in ucast (NOT res))"

definition CSum_add16 :: "u16 \<Rightarrow> CSum \<Rightarrow> CSum" where
  "CSum_add16 a c = c\<lparr>csum := csum c + ucast a\<rparr>"

definition CSum_add32 :: "u32 \<Rightarrow> CSum \<Rightarrow> CSum" where
  "CSum_add32 a c =
     (let c = c\<lparr>csum := csum c + drop_bit 16 a\<rparr>
      in c\<lparr>csum := csum c + (a AND 0xffff)\<rparr>)"

definition CSum_add :: "CSum \<Rightarrow> CSum \<Rightarrow> CSum" where
  "CSum_add s c = c\<lparr>csum := csum c + csum s\<rparr>"

fun CSum_addWords :: "u16 list \<Rightarrow> CSum \<Rightarrow> CSum" where
  "CSum_addWords [] c = c"
| "CSum_addWords (w # ws) c = CSum_addWords ws (CSum_add16 w c)"

definition CSum_sub16 :: "u16 \<Rightarrow> CSum \<Rightarrow> CSum" where
  "CSum_sub16 a c =
     (let c = c\<lparr>csum := csum c + 0xffff\<rparr>
      in c\<lparr>csum := csum c - ucast a\<rparr>)"

definition CSum_sub32 :: "u32 \<Rightarrow> CSum \<Rightarrow> CSum" where
  "CSum_sub32 a c =
     (let c = c\<lparr>csum := csum c + 0x1fffe\<rparr>;
          c = c\<lparr>csum := csum c - drop_bit 16 a\<rparr>
      in c\<lparr>csum := csum c - (a AND 0xffff)\<rparr>)"

text \<open>
  \<^verbatim>\<open>setVar<reset>(var, val)\<close>: the accumulator after the call, and the value the variable
  then holds.
\<close>

definition CSum_setVar16 :: "bool \<Rightarrow> u16 \<Rightarrow> u16 \<Rightarrow> CSum \<Rightarrow> CSum \<times> u16" where
  "CSum_setVar16 reset var val c =
     (let c = (if reset then CSum_sub16 var c else c)
      in (CSum_add16 val c, val))"

definition CSum_setVar32 :: "bool \<Rightarrow> u32 \<Rightarrow> u32 \<Rightarrow> CSum \<Rightarrow> CSum \<times> u32" where
  "CSum_setVar32 reset var val c =
     (let c = (if reset then CSum_sub32 var c else c)
      in (CSum_add32 val c, val))"

subsection \<open>End-around-carry sums\<close>

text \<open>The 16-bit one's-complement sum of a non-negative total, the value RFC 1071 folds to.\<close>

definition oc16 :: "nat \<Rightarrow> nat" where
  "oc16 n = (if n = 0 then 0 else (n - 1) mod 65535 + 1)"

lemma oc16_le: "oc16 n \<le> 65535"
proof -
  have "(n - 1) mod 65535 < 65535" by (rule mod_less_divisor) simp
  then show ?thesis unfolding oc16_def by (simp del: mod_less_divisor)
qed

lemma oc16_mod: "oc16 n mod 65535 = n mod 65535"
proof (cases n)
  case (Suc m)
  then show ?thesis by (simp add: oc16_def mod_Suc_eq)
qed (simp add: oc16_def)

lemma oc16_eq_max_iff: "oc16 n = 65535 \<longleftrightarrow> 0 < n \<and> 65535 dvd n"
proof (cases n)
  case (Suc m)
  have "m mod 65535 = 65534 \<longleftrightarrow> Suc m mod 65535 = 0"
    by (simp add: mod_Suc)
  then show ?thesis using Suc by (simp add: oc16_def dvd_eq_mod_eq_0)
qed (simp add: oc16_def)

lemma oc16_fold:
  fixes n h l :: nat
  assumes "n = 65536 * h + l" "l < 65536" "h < 65536"
  shows "oc16 n = (h + l + (h + l) div 65536) mod 65536"
proof -
  have n: "n = 65535 * h + (h + l)" using assms(1) by simp
  consider "h + l = 0" | "0 < h + l" "h + l < 65536" | "65536 \<le> h + l" by linarith
  then show ?thesis
  proof cases
    case 1 then show ?thesis using n by (simp add: oc16_def)
  next
    case 2
    then have "n - 1 = 65535 * h + (h + l - 1)" using n by simp
    then have "(n - 1) mod 65535 = (h + l - 1) mod 65535" by (metis mod_mult_self4)
    then have "oc16 n = h + l" using 2 n by (simp add: oc16_def)
    then show ?thesis using 2 by simp
  next
    case 3
    have "(h + l) div 65536 = 1" using 3 assms by (intro div_nat_eqI) simp_all
    moreover have "n - 1 = 65535 * (h + 1) + (h + l - 65536)" using n 3 by simp
    then have "(n - 1) mod 65535 = (h + l - 65536) mod 65535" by (metis mod_mult_self4)
    then have "oc16 n = h + l - 65535" using 3 assms n by (simp add: oc16_def)
    moreover have "(h + l + 1) mod 65536 = h + l + 1 - 65536"
      using 3 assms by (subst le_mod_geq) simp_all
    ultimately show ?thesis using 3 by simp
  qed
qed

lemma unat_not_ucast16: "unat (ucast (NOT (x :: u32)) :: u16) = 65535 - unat x mod 65536"
proof -
  have "ucast (NOT x) = NOT (ucast x :: u16)"
    by (rule bit_word_eqI) (simp add: bit_ucast_iff bit_not_iff)
  then show ?thesis by (simp add: unat_not_u16 unat_ucast_u32_u16)
qed

lemma unat_CSum_fold: "unat (CSum_fold c) = 65535 - oc16 (unat (csum c))"
proof -
  let ?h = "unat (csum c) div 65536" and ?l = "unat (csum c) mod 65536"
  have hl: "?h < 65536" "?l < 65536" by simp_all
  have bound: "?h + ?l + (?h + ?l) div 65536 < 4294967296"
    using u32_high_half_le [of "csum c"] hl(2) by linarith
  define res1 where "res1 = drop_bit 16 (csum c) + (csum c AND 0xffff)"
  have r1: "unat res1 = ?h + ?l"
    unfolding res1_def using bound by (subst unat_add_u32_nowrap) (auto simp: word_nat)
  have "unat (res1 + drop_bit 16 res1) = ?h + ?l + (?h + ?l) div 65536"
    using bound by (subst unat_add_u32_nowrap) (simp_all add: unat_drop_bit r1)
  moreover have "oc16 (unat (csum c)) = (?h + ?l + (?h + ?l) div 65536) mod 65536"
    by (rule oc16_fold) (use hl in simp_all)
  ultimately show ?thesis
    by (simp add: CSum_fold_def Let_def unat_not_ucast16 flip: res1_def)
qed

lemma CSum_fold_zero_iff: "CSum_fold c = 0 \<longleftrightarrow> 0 < unat (csum c) \<and> 65535 dvd unat (csum c)"
proof -
  have "CSum_fold c = 0 \<longleftrightarrow> unat (CSum_fold c) = 0" by (simp add: unat_eq_0)
  also have "\<dots> \<longleftrightarrow> oc16 (unat (csum c)) = 65535"
    using oc16_le [of "unat (csum c)"] by (simp add: unat_CSum_fold)
  finally show ?thesis by (simp add: oc16_eq_max_iff)
qed

subsection \<open>Exact values of the accumulator\<close>

text \<open>
  While the 32-bit accumulator does not wrap, every operation is an exact addition on its
  value; \<^verbatim>\<open>sub\<close> adds the one's complement of what it removes.
\<close>

definition u32_sum :: "u32 \<Rightarrow> nat" where
  "u32_sum a = unat a div 65536 + unat a mod 65536"

lemma u32_sum_le: "u32_sum a \<le> 131070"
proof -
  have "unat a div 65536 < 65536" using unat_lt_u32 [of a] by linarith
  moreover have "unat a mod 65536 < 65536" by simp
  ultimately show ?thesis unfolding u32_sum_def by linarith
qed

lemma u32_sum_mod: "u32_sum a mod 65535 = unat a mod 65535"
proof -
  have "unat a = 65535 * (unat a div 65536) + u32_sum a"
    unfolding u32_sum_def by simp
  then show ?thesis by (metis mod_mult_self4)
qed

lemma CSum_of_val [simp]: "csum (CSum_of s) = s"
  by (simp add: CSum_of_def)

lemma CSum_add16_val [word_nat]:
  "unat (csum c) + unat a < 4294967296 \<Longrightarrow> unat (csum (CSum_add16 a c)) = unat (csum c) + unat a"
  by (simp add: CSum_add16_def unat_add_u32_nowrap)

lemma CSum_add32_val [word_nat]:
  "unat (csum c) + u32_sum a < 4294967296 \<Longrightarrow> unat (csum (CSum_add32 a c)) = unat (csum c) + u32_sum a"
  by (simp add: CSum_add32_def u32_sum_def unat_add_u32_nowrap unat_drop_bit unat_and_ffff)

lemma CSum_add_val [word_nat]:
  "unat (csum c) + unat (csum s) < 4294967296 \<Longrightarrow> unat (csum (CSum_add s c)) = unat (csum c) + unat (csum s)"
  by (simp add: CSum_add_def unat_add_u32_nowrap)

lemma CSum_sub16_val [word_nat]:
  assumes "unat (csum c) + 65535 < 4294967296"
  shows "unat (csum (CSum_sub16 a c)) = unat (csum c) + (65535 - unat a)"
proof -
  have "unat (csum c + 0xffff) = unat (csum c) + 65535"
    using assms by (subst unat_add_u32_nowrap) simp_all
  moreover have "unat (csum c + 0xffff - ucast a) = unat (csum c + 0xffff) - unat (ucast a :: u32)"
    using unat_le_u16 [of a] by (intro unat_sub) (simp add: word_le_nat_alt calculation)
  ultimately show ?thesis using unat_le_u16 [of a] by (simp add: CSum_sub16_def)
qed

lemma CSum_sub32_val [word_nat]:
  assumes "unat (csum c) + 131070 < 4294967296"
  shows "unat (csum (CSum_sub32 a c)) = unat (csum c) + (131070 - u32_sum a)"
proof -
  let ?h = "drop_bit 16 a" and ?l = "a AND 0xffff"
  have b: "unat ?h \<le> 65535" "unat ?l \<le> 65535" "u32_sum a = unat ?h + unat ?l"
    using u32_high_half_le [of a] mod_less_divisor [of 65536 "unat a"]
    by (simp_all add: unat_drop_bit unat_and_ffff u32_sum_def less_Suc_eq_le [of _ 65535, simplified])
  have 1: "unat (csum c + 0x1fffe) = unat (csum c) + 131070"
    using assms by (subst unat_add_u32_nowrap) simp_all
  have 2: "unat (csum c + 0x1fffe - ?h) = unat (csum c) + 131070 - unat ?h"
    using b 1 by (subst unat_sub) (simp_all add: word_le_nat_alt)
  have 3: "unat (csum c + 0x1fffe - ?h - ?l) = unat (csum c) + 131070 - unat ?h - unat ?l"
    using b 2 by (subst unat_sub) (simp_all add: word_le_nat_alt)
  show ?thesis using b 3 by (simp add: CSum_sub32_def)
qed

definition words_sum :: "u16 list \<Rightarrow> nat" where
  "words_sum ws = sum_list (map unat ws)"

lemma words_sum_simps [simp]:
  "words_sum [] = 0" "words_sum (w # ws) = unat w + words_sum ws"
  "words_sum (xs @ ys) = words_sum xs + words_sum ys"
  by (simp_all add: words_sum_def)

lemma words_sum_le: "words_sum ws \<le> 65535 * length ws"
proof (induction ws)
  case (Cons w ws)
  then show ?case using unat_le_u16 [of w] by simp
qed simp

lemma CSum_addWords_val [word_nat]:
  "unat (csum c) + words_sum ws < 4294967296 \<Longrightarrow>
   unat (csum (CSum_addWords ws c)) = unat (csum c) + words_sum ws"
proof (induction ws arbitrary: c)
  case (Cons w ws)
  then have "unat (csum (CSum_add16 w c)) = unat (csum c) + unat w"
    by (intro CSum_add16_val) simp
  then show ?case using Cons by simp
qed simp

subsection \<open>Generated checksums verify\<close>

text \<open>
  What a receiver (and the library's own debug routine \<^verbatim>\<open>checksum\<close>) checks: all words
  of the header, the checksum field included, fold to zero.
\<close>

definition csum_valid :: "u16 list \<Rightarrow> bool" where
  "csum_valid ws \<longleftrightarrow> CSum_fold (CSum_addWords ws (CSum_of 0)) = 0"

lemma csum_valid_iff:
  assumes "length ws \<le> 65537"
  shows "csum_valid ws \<longleftrightarrow> 0 < words_sum ws \<and> 65535 dvd words_sum ws"
proof -
  have "65535 * length ws \<le> 65535 * 65537" using assms by (rule mult_le_mono2)
  then have "unat (csum (CSum_addWords ws (CSum_of 0))) = words_sum ws"
    using words_sum_le [of ws] by (subst CSum_addWords_val) simp_all
  then show ?thesis by (simp add: csum_valid_def CSum_fold_zero_iff)
qed

lemma fold_completes:
  "65535 dvd (unat (CSum_fold c) + unat (csum c)) \<and> 0 < unat (CSum_fold c) + unat (csum c)"
proof -
  let ?n = "unat (csum c)"
  have "(65535 - oc16 ?n + ?n) mod 65535 = (65535 - oc16 ?n + oc16 ?n) mod 65535"
    by (metis mod_add_right_eq oc16_mod)
  also have "\<dots> = 0" using oc16_le [of ?n] by simp
  finally have "65535 dvd (65535 - oc16 ?n + ?n)" by (simp only: mod_eq_0_iff_dvd)
  moreover have "0 < 65535 - oc16 ?n + ?n" by (cases "?n = 0") (simp_all add: oc16_def)
  ultimately show ?thesis by (simp add: unat_CSum_fold)
qed

text \<open>
  Filling a checksum field with the folded sum of all other words makes the whole
  header verify at the receiver.
\<close>

theorem checksum_fill_valid:
  assumes "length us + length vs \<le> 65535"
  shows "csum_valid (us @ CSum_fold (CSum_addWords (us @ vs) (CSum_of 0)) # vs)"
proof -
  define c where "c = CSum_addWords (us @ vs) (CSum_of 0)"
  have "words_sum (us @ vs) \<le> 65535 * 65535"
    using words_sum_le [of "us @ vs"] mult_le_mono2 [OF assms, of 65535] by simp
  then have "unat (csum c) = words_sum us + words_sum vs"
    unfolding c_def by (subst CSum_addWords_val) simp_all
  then show ?thesis
    using fold_completes [of c] assms
    by (subst csum_valid_iff) (simp_all add: c_def [symmetric] ac_simps)
qed

theorem checksum_fill_valid_witness:
  "csum_valid ([0x0045, 0x3c00] @ CSum_fold (CSum_addWords ([0x0045, 0x3c00] @ [0xffff]) (CSum_of 0)) # [0xffff])"
  by (rule checksum_fill_valid) simp

subsection \<open>Incremental update\<close>

lemma setVar16_val:
  assumes "unat (csum c) + 131070 < 4294967296"
  shows "unat (csum (fst (CSum_setVar16 True old new c))) + unat old = unat (csum c) + 65535 + unat new"
proof -
  have "unat (csum (CSum_sub16 old c)) = unat (csum c) + (65535 - unat old)"
    using assms by (intro CSum_sub16_val) simp
  moreover from this have "unat (csum (CSum_add16 new (CSum_sub16 old c)))
      = unat (csum (CSum_sub16 old c)) + unat new"
    using assms unat_le_u16 [of new] by (intro CSum_add16_val) linarith
  ultimately show ?thesis using unat_le_u16 [of old] by (simp add: CSum_setVar16_def)
qed

lemma setVar32_val:
  assumes "unat (csum c) + 262140 < 4294967296"
  shows "unat (csum (fst (CSum_setVar32 True old new c))) + u32_sum old
    = unat (csum c) + 131070 + u32_sum new"
proof -
  have "unat (csum (CSum_sub32 old c)) = unat (csum c) + (131070 - u32_sum old)"
    using assms by (intro CSum_sub32_val) simp
  moreover from this have "unat (csum (CSum_add32 new (CSum_sub32 old c)))
      = unat (csum (CSum_sub32 old c)) + u32_sum new"
    using assms u32_sum_le [of new] by (intro CSum_add32_val) linarith
  ultimately show ?thesis using u32_sum_le [of old] by (simp add: CSum_setVar32_def)
qed

text \<open>The two 16-bit memory words of a 32-bit variable on a little-endian host.\<close>

definition halves :: "u32 \<Rightarrow> u16 list" where
  "halves a = [ucast a, ucast (drop_bit 16 a)]"

lemma words_sum_halves [simp]: "words_sum (halves a) = u32_sum a"
  by (simp add: halves_def u32_sum_def unat_ucast_u32_u16 unat_drop_bit)

lemma length_halves [simp]: "length (halves a) = 2"
  by (simp add: halves_def)

lemma words_sum_pos: "\<exists>w \<in> set ws. w \<noteq> 0 \<Longrightarrow> 0 < words_sum ws"
  by (induction ws) (auto simp: unat_gt_0)

lemma not_ck_completes: "unat (NOT ck :: u16) + unat ck = 65535"
  using unat_le_u16 [of ck] by (simp add: unat_not_u16)

text \<open>
  A checksum updated incrementally, starting from the complement of the old checksum and
  replacing one 32-bit field and one 16-bit field by \<^verbatim>\<open>setVar<true>\<close> (the way
  \<^verbatim>\<open>resendUna\<close> patches the acknowledgement number and the window of a segment that was
  already checksummed), verifies on the patched header.
\<close>

theorem checksum_incremental_valid:
  fixes new_ack :: u32 and new_wnd :: u16
  assumes valid: "csum_valid (ck # halves old_ack @ old_wnd # rest)"
    and rest: "\<exists>w \<in> set rest. w \<noteq> 0" and len: "length rest \<le> 65533"
  defines "s \<equiv> CSum_of (ucast (NOT ck))"
  defines "s1 \<equiv> fst (CSum_setVar32 True old_ack new_ack s)"
  defines "s2 \<equiv> fst (CSum_setVar16 True old_wnd new_wnd s1)"
  shows "csum_valid (CSum_fold s2 # halves new_ack @ new_wnd # rest)"
proof -
  let ?R = "words_sum rest" and ?A = "u32_sum old_ack" and ?A' = "u32_sum new_ack"
  have s: "unat (csum s) + unat ck = 65535" unfolding s_def by (simp add: not_ck_completes)
  have s1: "unat (csum s1) + ?A = unat (csum s) + 131070 + ?A'"
    unfolding s1_def using s by (intro setVar32_val) linarith
  have "unat (csum s1) + 131070 < 4294967296"
    using s1 s u32_sum_le [of new_ack] by linarith
  then have s2: "unat (csum s2) + unat old_wnd = unat (csum s1) + 65535 + unat new_wnd"
    unfolding s2_def by (rule setVar16_val)
  obtain k where k: "unat ck + ?A + unat old_wnd + ?R = 65535 * k"
    using valid len by (subst (asm) csum_valid_iff) (auto simp: ac_simps dvd_def)
  obtain j where j: "unat (CSum_fold s2) + unat (csum s2) = 65535 * j"
    using fold_completes [of s2] by (auto simp: dvd_def)
  have "unat (CSum_fold s2) + ?A' + unat new_wnd + ?R + 65535 * 4 = 65535 * (j + k)"
    using s s1 s2 k j by simp
  then have "65535 dvd (unat (CSum_fold s2) + ?A' + unat new_wnd + ?R + 65535 * 4)"
    by (metis dvd_triv_left)
  then have "65535 dvd (unat (CSum_fold s2) + ?A' + unat new_wnd + ?R)"
    by (simp only: dvd_add_left_iff [OF dvd_triv_left])
  then show ?thesis
    using words_sum_pos [OF rest] len by (subst csum_valid_iff) (simp_all add: ac_simps)
qed

theorem checksum_incremental_valid_witness:
  "csum_valid (CSum_fold (fst (CSum_setVar16 True 0x2000 0x3000
     (fst (CSum_setVar32 True 7 9 (CSum_of (ucast (NOT (0xdff3 :: u16)))))))) # halves 9 @ 0x3000 # [5])"
proof -
  have "csum_valid (0xdff3 # halves 7 @ 0x2000 # [5])"
    by (subst csum_valid_iff) (simp_all add: u32_sum_def)
  then show ?thesis by (rule checksum_incremental_valid) simp_all
qed

subsection \<open>Copying and summing payload\<close>

text \<open>The bytes a little-endian store of \<open>n\<close> puts into memory.\<close>

fun le_bytes :: "nat \<Rightarrow> nat \<Rightarrow> u8 list" where
  "le_bytes 0 n = []"
| "le_bytes (Suc k) n = of_nat n # le_bytes k (n div 256)"

lemma le_bytes_le_nat: "le_bytes (length bs) (le_nat bs) = bs"
proof (induction bs)
  case (Cons b bs)
  have "(unat b + 256 * le_nat bs) div 256 = le_nat bs"
    using low_digit [OF unat_lt_u8 [of b]] by blast
  moreover have "(of_nat (unat b + 256 * le_nat bs) :: u8) = b"
    by (rule word_unat_eq_iff [THEN iffD2]) (simp add: unat_of_nat del: of_nat_add of_nat_mult)
  ultimately show ?case using Cons.IH by simp
qed simp

text \<open>
  The loop that copies eight bytes at a time. The source is the list of the \<open>size\<close> bytes
  still to copy; the result is what the loop wrote, its 64-bit sum and the bytes left.
\<close>

function copy8 :: "u8 list \<Rightarrow> u64 \<Rightarrow> u8 list \<times> u64 \<times> u8 list" where
  "copy8 src acc =
     (if 8 \<le> length src then
        let n = (of_nat (le_nat (take 8 src)) :: u64);
            acc = acc + drop_bit 32 n;
            acc = acc + (n AND 0xffffffff);
            (out, acc, rest) = copy8 (drop 8 src) acc
        in (le_bytes 8 (unat n) @ out, acc, rest)
      else ([], acc, src))"
  by pat_completeness auto
termination
  by (relation "measure (\<lambda>(src, _). length src)") auto

declare copy8.simps [simp del]

definition copyTail :: "nat \<Rightarrow> u8 list \<times> u64 \<times> u8 list \<Rightarrow> u8 list \<times> u64 \<times> u8 list" where
  "copyTail k st =
     (case st of (out, acc, src) \<Rightarrow>
        if k \<le> length src then
          let n = of_nat (le_nat (take k src)) :: u64
          in (out @ le_bytes k (unat n), acc + n, drop k src)
        else (out, acc, src))"

definition copyAndSum :: "u64 \<Rightarrow> u8 list \<Rightarrow> (u8 list \<times> CSum) option" where
  "copyAndSum dst src =
     (case (if odd (unat dst) then
              (case src of [] \<Rightarrow> None
               | n # src \<Rightarrow> Some ([n], ucast n * 256, src))
            else Some ([], 0, src)) of
        None \<Rightarrow> None
      | Some (out0, acc, src) \<Rightarrow>
          let (out8, acc, src) = copy8 src acc;
              (out, acc, src) = copyTail 1 (copyTail 2 (copyTail 4 (out0 @ out8, acc, src)));
              ret = CSum_of (ucast (drop_bit 32 acc));
              ret = CSum_add32 (ucast acc) ret
          in Some (out, ret))"

text \<open>
  The reference: each byte weighs 1 or 256 according to the parity of the address it is
  stored at, which is the sum of the 16-bit words of the packet it lands in.
\<close>

fun bsum :: "bool \<Rightarrow> u8 list \<Rightarrow> nat" where
  "bsum od [] = 0"
| "bsum od (b # bs) = (if od then 256 * unat b else unat b) + bsum (\<not> od) bs"

lemma bsum_append: "bsum od (xs @ ys) = bsum od xs + bsum (od \<noteq> odd (length xs)) ys"
proof (induction xs arbitrary: od)
  case (Cons b xs)
  then show ?case by (cases od; cases "even (length xs)") simp_all
qed simp

lemma le_nat_mod:
  "le_nat bs mod 65535 = bsum False bs mod 65535 \<and> (256 * le_nat bs) mod 65535 = bsum True bs mod 65535"
proof (induction bs)
  case (Cons b bs)
  have "(256 * le_nat (b # bs)) mod 65535 = (256 * unat b + (le_nat bs + 65535 * le_nat bs)) mod 65535"
    by (simp add: algebra_simps)
  also have "\<dots> = (256 * unat b + le_nat bs) mod 65535" by (simp only: add.assoc [symmetric] mod_mult_self2)
  finally show ?case using Cons.IH by (auto intro!: mod_add_cong)
qed simp

lemma split64_mod: "(n div 4294967296 + n mod 4294967296) mod 65535 = n mod (65535 :: nat)"
proof -
  have "n = 4294967296 * (n div 4294967296) + n mod 4294967296" by simp
  then have "n = 65535 * (65537 * (n div 4294967296)) + (n div 4294967296 + n mod 4294967296)" by simp
  then show ?thesis by (metis mod_mult_self4)
qed

lemma unat_and_ffffffff: "unat ((x :: u64) AND 0xffffffff) = unat x mod 4294967296"
proof -
  have "(0xffffffff :: u64) = mask 32" by (simp add: mask_eq_exp_minus_1)
  then show ?thesis by (simp only: unat_and_mask) simp
qed

text \<open>What every stage of the copy keeps: the bytes, the residue and a bound on the sum.\<close>

definition copy_ok :: "bool \<Rightarrow> u8 list \<Rightarrow> u8 list \<times> u64 \<times> u8 list \<Rightarrow> bool" where
  "copy_ok od src0 st \<longleftrightarrow>
     (case st of (out, acc, src) \<Rightarrow>
        out @ src = src0 \<and> unat acc \<le> length out * 2 ^ 30
        \<and> unat acc mod 65535 = bsum od out mod 65535)"

definition copy_aligned :: "bool \<Rightarrow> u8 list \<times> u64 \<times> u8 list \<Rightarrow> bool" where
  "copy_aligned od st \<longleftrightarrow> (od = odd (length (fst st)))"

lemma copy_ok_step:
  assumes ok: "copy_ok od src0 (out, acc, src)" and al: "copy_aligned od (out, acc, src)"
    and k: "0 < k" "k \<le> length src" and len: "length src0 < 4294967296"
    and v: "v mod 65535 = le_nat (take k src) mod 65535" "v \<le> k * 2 ^ 30"
    and s': "unat s' = (unat acc + v) mod 2 ^ 64"
    and o': "out' = out @ take k src"
  shows "copy_ok od src0 (out', s', drop k src)"
proof -
  have out: "out @ src = src0" and b: "unat acc \<le> length out * 2 ^ 30"
    and m: "unat acc mod 65535 = bsum od out mod 65535" using ok by (auto simp: copy_ok_def)
  have "length out + k \<le> length src0" using out k(2) by auto
  then have "(length out + k) * 2 ^ 30 < 4294967296 * (2 ^ 30 :: nat)" using len by (intro mult_less_mono1) auto
  then have nw: "unat acc + v < 2 ^ 64" "unat acc + v \<le> (length out + k) * 2 ^ 30"
    using b v(2) by (simp_all add: algebra_simps)
  have "bsum od (out @ take k src) = bsum od out + bsum False (take k src)"
    using al by (simp add: bsum_append copy_aligned_def)
  then have "(unat acc + v) mod 65535 = bsum od (out @ take k src) mod 65535"
    using m v(1) le_nat_mod [of "take k src"] by (auto intro: mod_add_cong)
  then show ?thesis using out nw s' k(2) by (simp add: copy_ok_def o')
qed

lemma copy_chunk_val:
  assumes "k \<le> 8" "k \<le> length src"
  shows "unat (of_nat (le_nat (take k src)) :: u64) = le_nat (take k src)"
    and "le_bytes k (le_nat (take k src)) = take k src"
proof -
  have "length (take k src) = k" using assms by simp
  then have "le_nat (take k src) < 256 ^ k" using le_nat_bound by metis
  moreover have "(256 :: nat) ^ k \<le> 256 ^ 8" using assms by (intro power_increasing) simp_all
  ultimately show "unat (of_nat (le_nat (take k src)) :: u64) = le_nat (take k src)"
    by (intro unat_of_nat_small) simp
  show "le_bytes k (le_nat (take k src)) = take k src"
    using le_bytes_le_nat [of "take k src"] assms by simp
qed

lemma copy8_ok:
  assumes "copy_ok od src0 (out, acc, src)" "copy_aligned od (out, acc, src)"
    and "length src0 < 4294967296" and "copy8 src acc = (out8, acc', src')"
  shows "copy_ok od src0 (out @ out8, acc', src') \<and> copy_aligned od (out @ out8, acc', src')
    \<and> length src' < 8"
  using assms
proof (induction src acc arbitrary: out out8 rule: copy8.induct)
  case (1 src acc)
  show ?case
  proof (cases "8 \<le> length src")
    case False
    then show ?thesis using 1(2-) by (simp add: copy8.simps [of src])
  next
    case True
    define n where "n = (of_nat (le_nat (take 8 src)) :: u64)"
    define a where "a = acc + drop_bit 32 n + (n AND 0xffffffff)"
    have n: "unat n = le_nat (take 8 src)" "le_bytes 8 (unat n) = take 8 src"
      using copy_chunk_val [of 8 src] True by (simp_all add: n_def)
    let ?v = "unat n div 4294967296 + unat n mod 4294967296"
    have "unat n div 4294967296 < 4294967296" using unat_lt_u64 [of n] by linarith
    moreover have "unat n mod 4294967296 < 4294967296" by simp
    ultimately have v: "?v \<le> 8 * 2 ^ 30" by simp
    have a: "unat a = (unat acc + ?v) mod 2 ^ 64"
      by (simp add: a_def unat_word_ariths unat_drop_bit unat_and_ffffffff mod_simps add.assoc)
    have "copy_ok od src0 (out @ take 8 src, a, drop 8 src)"
      by (rule copy_ok_step [OF 1(2,3) _ True 1(4) _ v a]) (simp_all add: split64_mod n)
    moreover have "copy_aligned od (out @ take 8 src, a, drop 8 src)"
      using 1(3) True by (simp add: copy_aligned_def)
    moreover obtain out8' where o8: "copy8 (drop 8 src) a = (out8', acc', src')" "out8 = take 8 src @ out8'"
      using 1(5) True n by (auto simp: copy8.simps [of src] Let_def n_def [symmetric]
          a_def [symmetric] split: prod.splits)
    ultimately show ?thesis
      using 1(1) [OF True n_def refl a_def, of "out @ take 8 src" out8'] 1(4) o8
      by (simp add: a_def)
  qed
qed

lemma copyTail_ok:
  assumes "copy_ok od src0 st" "copy_aligned od st" "length src0 < 4294967296" "0 < k" "k \<le> 4"
    and "length (snd (snd st)) < 2 * k"
  shows "copy_ok od src0 (copyTail k st) \<and> length (snd (snd (copyTail k st))) < k
    \<and> (even k \<longrightarrow> copy_aligned od (copyTail k st))"
proof -
  obtain out acc src where st: "st = (out, acc, src)" by (cases st)
  show ?thesis
  proof (cases "k \<le> length src")
    case True
    let ?n = "of_nat (le_nat (take k src)) :: u64"
    have n: "unat ?n = le_nat (take k src)" "le_bytes k (unat ?n) = take k src"
      using copy_chunk_val [of k src] True assms(5) by simp_all
    have "le_nat (take k src) < 256 ^ k" using le_nat_bound [of "take k src"] True by simp
    moreover have "k = 1 \<or> k = 2 \<or> k = 3 \<or> k = 4" using assms(4,5) by linarith
    then have "(256 :: nat) ^ k \<le> k * 2 ^ 30" by auto
    ultimately have v: "unat ?n \<le> k * 2 ^ 30" using n by simp
    have "copy_ok od src0 (out @ take k src, acc + ?n, drop k src)"
      by (rule copy_ok_step [OF assms(1,2) [unfolded st] assms(4) True assms(3) _ v])
        (simp_all add: n unat_word_ariths)
    then show ?thesis using True assms(2,6) n
      by (auto simp: copyTail_def st Let_def copy_aligned_def)
  next
    case False
    then show ?thesis using assms by (simp add: copyTail_def st)
  qed
qed

lemma copyAndSum_val:
  assumes "length src < 4294967296" and "src \<noteq> [] \<or> even (unat dst)"
  shows "\<exists>c. copyAndSum dst src = Some (src, c)
    \<and> unat (csum c) mod 65535 = bsum (odd (unat dst)) src mod 65535
    \<and> unat (csum c) \<le> length src div 4 + 131070"
proof -
  let ?od = "odd (unat dst)"
  obtain out0 acc0 src1 where pro: "(if ?od then (case src of [] \<Rightarrow> None
      | n # src \<Rightarrow> Some ([n], ucast n * 256, src)) else Some ([], 0, src)) = Some (out0, acc0 :: u64, src1)"
    and ok0: "copy_ok ?od src (out0, acc0, src1)" and al0: "copy_aligned ?od (out0, acc0, src1)"
  proof (cases ?od)
    case True
    then obtain n src1 where src: "src = n # src1" using assms(2) by (cases src) auto
    have "unat (ucast n * 256 :: u64) = 256 * unat n"
      using unat_lt_u8 [of n] by (simp add: unat_word_ariths del: unat_lt_u8)
    then show ?thesis using True src unat_lt_u8 [of n]
      by (intro that [of "[n]" "ucast n * 256" src1]) (simp_all add: copy_ok_def copy_aligned_def del: unat_lt_u8)
  qed (auto simp: copy_ok_def copy_aligned_def intro: that)
  obtain out8 acc8 src8 where c8: "copy8 src1 acc0 = (out8, acc8, src8)" by (cases "copy8 src1 acc0")
  have st8: "copy_ok ?od src (out0 @ out8, acc8, src8)" "copy_aligned ?od (out0 @ out8, acc8, src8)"
    "length src8 < 8" using copy8_ok [OF ok0 al0 assms(1) c8] by auto
  obtain out acc rest where fin: "copyTail 1 (copyTail 2 (copyTail 4 (out0 @ out8, acc8, src8))) = (out, acc, rest)"
    by (cases "copyTail 1 (copyTail 2 (copyTail 4 (out0 @ out8, acc8, src8)))")
  have "copy_ok ?od src (out, acc, rest) \<and> length rest < 1"
    using copyTail_ok [OF st8(1,2) assms(1), of 4] st8(3)
      copyTail_ok [of ?od src "copyTail 4 (out0 @ out8, acc8, src8)" 2]
      copyTail_ok [of ?od src "copyTail 2 (copyTail 4 (out0 @ out8, acc8, src8))" 1] assms(1) fin
    by auto
  then have out: "out = src" and le: "unat acc \<le> length src * 2 ^ 30"
    and m: "unat acc mod 65535 = bsum ?od src mod 65535" by (auto simp: copy_ok_def)
  have "unat acc < 2 ^ 62" using le assms(1) by simp
  then have "unat acc div 4294967296 < 2 ^ 30" by (simp add: less_mult_imp_div_less)
  let ?lo = "ucast acc :: u32" and ?hi = "ucast (drop_bit 32 acc) :: u32"
  have hi: "unat ?hi = unat acc div 4294967296"
    using \<open>unat acc div 4294967296 < 2 ^ 30\<close> by (simp add: unat_ucast_u64_u32 unat_drop_bit)
  have c: "unat (csum (CSum_add32 ?lo (CSum_of ?hi))) = unat acc div 4294967296 + u32_sum ?lo"
    using hi \<open>unat acc div 4294967296 < 2 ^ 30\<close> u32_sum_le [of ?lo] by (subst CSum_add32_val) simp_all
  have "(unat acc div 4294967296 + u32_sum ?lo) mod 65535
      = (unat acc div 4294967296 + unat acc mod 4294967296) mod 65535"
    by (rule mod_add_cong) (simp_all add: u32_sum_mod unat_ucast_u64_u32)
  also have "\<dots> = unat acc mod 65535" by (rule split64_mod)
  finally have m': "(unat acc div 4294967296 + u32_sum ?lo) mod 65535 = unat acc mod 65535" .
  have "unat acc div 4294967296 \<le> (length src * 2 ^ 30) div 4294967296" using le by (rule div_le_mono)
  also have "\<dots> = length src div 4" by (simp add: div_mult2_eq [of _ "2 ^ 30" 4, simplified])
  finally show ?thesis
    using c m m' out fin c8 pro u32_sum_le [of ?lo]
    by (intro exI [of _ "CSum_add32 ?lo (CSum_of ?hi)"]) (simp add: copyAndSum_def)
qed

text \<open>
  C38: \<^verbatim>\<open>copyAndSum\<close> writes exactly the source bytes, and the accumulator it returns is
  congruent, as a one's-complement sum, to the sum of the bytes at the address they were
  written to; an empty copy to an odd address is the only call that reads past the source.
\<close>

theorem copyAndSum_correct:
  assumes "length src < 4294967296" and "src \<noteq> [] \<or> even (unat dst)"
  shows "\<exists>c. copyAndSum dst src = Some (src, c)
    \<and> unat (csum c) mod 65535 = bsum (odd (unat dst)) src mod 65535
    \<and> unat (csum c) < 2 ^ 31"
proof -
  obtain c where c: "copyAndSum dst src = Some (src, c)" "unat (csum c) mod 65535 = bsum (odd (unat dst)) src mod 65535"
    "unat (csum c) \<le> length src div 4 + 131070" using copyAndSum_val [OF assms] by blast
  have "length src div 4 < 2 ^ 30" using assms(1) by (simp add: less_mult_imp_div_less)
  then show ?thesis using c by auto
qed

theorem copyAndSum_correct_witness:
  "\<exists>c. copyAndSum 7 [1, 2, 3] = Some ([1, 2, 3], c)
    \<and> unat (csum c) mod 65535 = bsum (odd (unat (7 :: u64))) [1, 2, 3] mod 65535
    \<and> unat (csum c) < 2 ^ 31"
  by (rule copyAndSum_correct) simp_all

end
