(* ===== verification/Packet.thy ===== *)
theory Packet
  imports Checksum
begin

text \<open>
  Frames: the packed header structures of \<^verbatim>\<open>efvitcp/Core.h\<close>, the flag bits of the TCP
  header, the send buffer, and what it means that the checksums of a frame verify. Multi-byte
  fields hold the value the host reads from memory, so values that are in network order on the
  wire appear under \<open>htons\<close>/\<open>htonl\<close> as in the sources.
\<close>

record EtherHeader =
  dst_mac :: "u8 list"
  src_mac :: "u8 list"
  ether_type :: u16

record IpHeader =
  header_len :: "4 word"
  ip_ver :: "4 word"
  tos :: u8
  tot_len :: u16
  ip_id :: u16
  frag_offset_flags :: u16
  ttl :: u8
  protocol :: u8
  ip_checksum :: u16
  src_ip :: u32
  dst_ip :: u32

record TcpHeader =
  src_port :: u16
  dst_port :: u16
  seq_num :: u32
  ack_num :: u32
  offset_flags :: u16
  window_size :: u16
  tcp_checksum :: u16
  urgent_pointer :: u16

text \<open>
  The bit fields that share \<^verbatim>\<open>offset_flags\<close>: four reserved bits, the data offset, then
  the flags from bit 8 on.
\<close>

definition put_bit :: "nat \<Rightarrow> bool \<Rightarrow> u16 \<Rightarrow> u16" where
  "put_bit n v w = (if v then set_bit n w else unset_bit n w)"

abbreviation flag_fin :: "TcpHeader \<Rightarrow> bool" where "flag_fin t \<equiv> bit (offset_flags t) 8"
abbreviation flag_syn :: "TcpHeader \<Rightarrow> bool" where "flag_syn t \<equiv> bit (offset_flags t) 9"
abbreviation flag_rst :: "TcpHeader \<Rightarrow> bool" where "flag_rst t \<equiv> bit (offset_flags t) 10"
abbreviation flag_psh :: "TcpHeader \<Rightarrow> bool" where "flag_psh t \<equiv> bit (offset_flags t) 11"
abbreviation flag_ack :: "TcpHeader \<Rightarrow> bool" where "flag_ack t \<equiv> bit (offset_flags t) 12"

definition set_fin :: "bool \<Rightarrow> TcpHeader \<Rightarrow> TcpHeader" where
  "set_fin v t = t\<lparr>offset_flags := put_bit 8 v (offset_flags t)\<rparr>"
definition set_syn :: "bool \<Rightarrow> TcpHeader \<Rightarrow> TcpHeader" where
  "set_syn v t = t\<lparr>offset_flags := put_bit 9 v (offset_flags t)\<rparr>"
definition set_rst :: "bool \<Rightarrow> TcpHeader \<Rightarrow> TcpHeader" where
  "set_rst v t = t\<lparr>offset_flags := put_bit 10 v (offset_flags t)\<rparr>"
definition set_psh :: "bool \<Rightarrow> TcpHeader \<Rightarrow> TcpHeader" where
  "set_psh v t = t\<lparr>offset_flags := put_bit 11 v (offset_flags t)\<rparr>"
definition set_ack :: "bool \<Rightarrow> TcpHeader \<Rightarrow> TcpHeader" where
  "set_ack v t = t\<lparr>offset_flags := put_bit 12 v (offset_flags t)\<rparr>"

definition data_offset :: "TcpHeader \<Rightarrow> u16" where
  "data_offset t = take_bit 4 (drop_bit 4 (offset_flags t))"
definition set_data_offset :: "u16 \<Rightarrow> TcpHeader \<Rightarrow> TcpHeader" where
  "set_data_offset v t = t\<lparr>offset_flags := (offset_flags t AND 0xff0f) OR push_bit 4 (take_bit 4 v)\<rparr>"

text \<open>
  A send buffer; \<open>body\<close> is the memory behind the headers, \<^verbatim>\<open>(uint8_t*)(buf + 1)\<close>. The DMA
  address and the padding byte play no role.
\<close>

record SendBuf =
  send_ts :: u32
  avail :: bool
  eth_hdr :: EtherHeader
  ip_hdr :: IpHeader
  tcp_hdr :: TcpHeader
  body :: "u8 list"

text \<open>A received packet; \<open>rest\<close> is the memory behind the TCP header up to the end of the buffer.\<close>

record Packet =
  p_eth :: EtherHeader
  p_ip :: IpHeader
  p_tcp :: TcpHeader
  p_rest :: "u8 list"

definition setOptDataLen :: "u16 \<Rightarrow> CSum \<Rightarrow> CSum \<Rightarrow> SendBuf \<Rightarrow> SendBuf" where
  "setOptDataLen len ipsum tcpsum buf =
     (let buf = buf\<lparr>ip_hdr := (ip_hdr buf)\<lparr>tot_len := htons (40 + len)\<rparr>\<rparr>;
          ipsum = CSum_add16 (tot_len (ip_hdr buf)) ipsum;
          buf = buf\<lparr>ip_hdr := (ip_hdr buf)\<lparr>ip_checksum := CSum_fold ipsum\<rparr>\<rparr>;
          tcpsum = CSum_add16 (htons (20 + len)) tcpsum
      in buf\<lparr>tcp_hdr := (tcp_hdr buf)\<lparr>tcp_checksum := CSum_fold tcpsum\<rparr>\<rparr>)"

subsection \<open>Valid frames\<close>

text \<open>The headers and the payload as the 16-bit words they occupy.\<close>

definition ip_words :: "IpHeader \<Rightarrow> u16 list" where
  "ip_words ip =
     [ucast (header_len ip) + push_bit 4 (ucast (ip_ver ip)) + push_bit 8 (ucast (tos ip)),
      tot_len ip, ip_id ip, frag_offset_flags ip,
      ucast (ttl ip) + push_bit 8 (ucast (protocol ip)), ip_checksum ip] @ halves (src_ip ip) @ halves (dst_ip ip)"

definition tcp_words :: "TcpHeader \<Rightarrow> u16 list" where
  "tcp_words t = [src_port t, dst_port t] @ halves (seq_num t) @ halves (ack_num t)
     @ [offset_flags t, window_size t, tcp_checksum t, urgent_pointer t]"

fun byte_words :: "u8 list \<Rightarrow> u16 list" where
  "byte_words [] = []"
| "byte_words [b] = [ucast b]"
| "byte_words (b0 # b1 # bs) = le16 b0 b1 # byte_words bs"

text \<open>A frame on the wire: headers and payload.\<close>

record Frame =
  f_eth :: EtherHeader
  f_ip :: IpHeader
  f_tcp :: TcpHeader
  f_payload :: "u8 list"

definition pseudo_words :: "IpHeader \<Rightarrow> u16 list" where
  "pseudo_words ip = halves (src_ip ip) @ halves (dst_ip ip) @ [htons 6, htons (htons (tot_len ip) - 20)]"

definition frame_valid :: "Frame \<Rightarrow> bool" where
  "frame_valid f \<longleftrightarrow> csum_valid (ip_words (f_ip f))
     \<and> csum_valid (pseudo_words (f_ip f) @ tcp_words (f_tcp f) @ byte_words (f_payload f))
     \<and> unat (htons (tot_len (f_ip f))) = 40 + length (f_payload f)"

lemma le16_unat: "unat (le16 b0 b1) = unat b0 + 256 * unat b1"
proof -
  have "unat b0 + 256 * unat b1 < 65536" using unat_lt_u8 [of b0] unat_lt_u8 [of b1] by linarith
  then show ?thesis unfolding le16_def by (subst unat_of_nat_small) simp_all
qed

lemma words_sum_bytes: "words_sum (byte_words bs) = bsum False bs"
  by (induction bs rule: byte_words.induct) (simp_all add: le16_unat unat_ucast_up)

lemma length_byte_words: "length (byte_words bs) = (length bs + 1) div 2"
  by (induction bs rule: byte_words.induct) simp_all

lemma htons_pos: "0 < unat (htons 6)"
  by (simp add: unat_htons)

text \<open>
  \<^verbatim>\<open>setOptDataLen\<close> completes both checksums: it is enough that the two accumulators are
  congruent to the words of the frame that are already final.
\<close>

lemma setOptDataLen_valid:
  assumes ip: "unat (csum ipsum) + 65535 < 4294967296"
      "unat (csum ipsum) mod 65535 = words_sum (ip_words ((ip_hdr buf)\<lparr>tot_len := 0, ip_checksum := 0\<rparr>)) mod 65535"
    and tcp: "unat (csum tcpsum) + 65535 < 4294967296"
      "unat (csum tcpsum) mod 65535
        = (u32_sum (src_ip (ip_hdr buf)) + u32_sum (dst_ip (ip_hdr buf)) + unat (htons 6)
           + words_sum (tcp_words ((tcp_hdr buf)\<lparr>tcp_checksum := 0\<rparr>)) + bsum False (take (unat len) (body buf))) mod 65535"
    and len: "unat len \<le> length (body buf)" "unat len \<le> 65495"
  defines "b \<equiv> setOptDataLen len ipsum tcpsum buf"
  shows "frame_valid \<lparr>f_eth = eth_hdr b, f_ip = ip_hdr b, f_tcp = tcp_hdr b, f_payload = take (unat len) (body b)\<rparr>"
proof -
  let ?i = "CSum_add16 (htons (40 + len)) ipsum" and ?t = "CSum_add16 (htons (20 + len)) tcpsum"
  let ?p = "take (unat len) (body buf)"
  have u40: "unat (40 + len) = 40 + unat len" "unat (20 + len) = 20 + unat len"
    using len(2) by (simp_all add: unat_word_ariths)
  then have d: "40 + len - 20 = 20 + len" by simp
  have vi: "unat (csum ?i) = unat (csum ipsum) + unat (htons (40 + len))"
    using ip(1) unat_le_u16 [of "htons (40 + len)"] by (intro CSum_add16_val) linarith
  have vt: "unat (csum ?t) = unat (csum tcpsum) + unat (htons (20 + len))"
    using tcp(1) unat_le_u16 [of "htons (20 + len)"] by (intro CSum_add16_val) linarith
  have bi: "ip_hdr b = (ip_hdr buf)\<lparr>tot_len := htons (40 + len), ip_checksum := CSum_fold ?i\<rparr>"
    and bt: "tcp_hdr b = (tcp_hdr buf)\<lparr>tcp_checksum := CSum_fold ?t\<rparr>" and bb: "body b = body buf"
    by (simp_all add: b_def setOptDataLen_def Let_def)
  let ?W = "words_sum (ip_words ((ip_hdr buf)\<lparr>tot_len := 0, ip_checksum := 0\<rparr>))"
  have wi: "words_sum (ip_words (ip_hdr b)) = ?W + unat (htons (40 + len)) + unat (CSum_fold ?i)"
    unfolding bi by (simp add: ip_words_def)
  have "(?W + unat (htons (40 + len)) + unat (CSum_fold ?i)) mod 65535
      = (unat (csum ?i) + unat (CSum_fold ?i)) mod 65535"
    unfolding vi using ip(2) by (metis (no_types, lifting) mod_add_left_eq)
  moreover have "(unat (csum ?i) + unat (CSum_fold ?i)) mod 65535 = 0"
    using fold_completes [of ?i] by (simp add: add.commute mod_eq_0_iff_dvd)
  ultimately have 1: "65535 dvd words_sum (ip_words (ip_hdr b))" unfolding wi by (simp add: mod_eq_0_iff_dvd)
  have "unat (htons (40 + len)) \<noteq> 0" using u40(1) unat_htons [of "htons (40 + len)"] by (auto intro!: Nat.gr0I)
  then have "0 < words_sum (ip_words (ip_hdr b))" unfolding wi by simp
  then have v1: "csum_valid (ip_words (ip_hdr b))" using 1 by (subst csum_valid_iff) (simp_all add: ip_words_def)
  let ?T = "u32_sum (src_ip (ip_hdr buf)) + u32_sum (dst_ip (ip_hdr buf)) + unat (htons 6)
           + words_sum (tcp_words ((tcp_hdr buf)\<lparr>tcp_checksum := 0\<rparr>)) + bsum False ?p"
  let ?ws = "pseudo_words (ip_hdr b) @ tcp_words (tcp_hdr b) @ byte_words ?p"
  have wt: "words_sum ?ws = ?T + unat (htons (20 + len)) + unat (CSum_fold ?t)"
    unfolding bi bt by (simp add: pseudo_words_def tcp_words_def words_sum_bytes d)
  have "(?T + unat (htons (20 + len)) + unat (CSum_fold ?t)) mod 65535
      = (unat (csum ?t) + unat (CSum_fold ?t)) mod 65535"
    unfolding vt using tcp(2) by (metis (no_types, lifting) mod_add_left_eq)
  moreover have "(unat (csum ?t) + unat (CSum_fold ?t)) mod 65535 = 0"
    using fold_completes [of ?t] by (simp add: add.commute mod_eq_0_iff_dvd)
  ultimately have 2: "65535 dvd words_sum ?ws" unfolding wt by (simp add: mod_eq_0_iff_dvd)
  have "0 < words_sum ?ws" unfolding wt using htons_pos by simp
  moreover have "length ?ws \<le> 65537"
    using len by (simp add: pseudo_words_def tcp_words_def length_byte_words)
  ultimately have v2: "csum_valid ?ws" using 2 by (subst csum_valid_iff) simp_all
  show ?thesis unfolding frame_valid_def using v1 v2 len bb u40 by (simp add: bi)
qed

end
