(* ===== verification/Core.thy ===== *)
theory Core
  imports ConnMap TimerTicks Packet
begin

text \<open>
  The class \<^verbatim>\<open>Core\<close> of \<^verbatim>\<open>efvitcp/Core.h\<close>: the state that the connections of an
  endpoint share (connection table, timer wheel, time-wait records, send buffers) and its
  operations. The network card is outside: what it reports enters as arguments, what it is told
  to do is recorded in ghost fields.
\<close>

abbreviation RecvMSS :: u32 where "RecvMSS \<equiv> 1460"
abbreviation TimeWaitTimeout :: u32 where "TimeWaitTimeout \<equiv> 60 * 1000"
abbreviation TsScale :: nat where "TsScale \<equiv> 20"

record TimeWaitConn =
  tw_dst_mac :: "u8 list"
  tw_has_ts :: bool
  tw_dst_ip :: u32
  tw_src_port :: u16
  tw_dst_port :: u16
  tw_seq_num :: u32
  tw_ack_num :: u32
  tw_tsecr :: u32

text \<open>
  The state. \<open>timers\<close> holds all timer nodes, those of \<open>tws\<close> included. \<open>wire\<close> is the list of
  frames handed to the card, \<open>rx_inits\<close> the receive buffers returned to it and \<open>rx_pushes\<close>
  the number of times it was told so.
\<close>

record Core = ConnTbl +
  now_ts :: u32
  timers :: timer_heap
  tws :: "TimeWaitConn list"
  send_bufs :: "SendBuf list"
  local_ip :: u32
  local_mac :: "u8 list"
  rst_ipsum :: CSum
  rst_tcpsum :: CSum
  wire :: "Frame list"
  rx_inits :: "u32 list"
  rx_pushes :: nat

definition SendBufSize :: "Conf \<Rightarrow> u32" where
  "SendBufSize cf = (if SendBuf1K cf then 1024 else 2048)"

definition MaxSendMTU :: "Conf \<Rightarrow> u32" where
  "MaxSendMTU cf = SendBufSize cf - 28"

definition SendMTU :: "Conf \<Rightarrow> u32" where
  "SendMTU cf = (if MaxSendMTU cf < 1500 then MaxSendMTU cf else 1500)"

definition SendBufCnt :: "Conf \<Rightarrow> u64" where
  "SendBufCnt cf = ucast (ConnSendBufCnt cf * MaxConnCnt cf + 1)"

definition TotalBufSize :: "Conf \<Rightarrow> u64" where
  "TotalBufSize cf = ucast (2048 * RecvBufCnt cf) + ucast (SendBufSize cf) * SendBufCnt cf"

definition TotalBufAlign :: "Conf \<Rightarrow> u64" where
  "TotalBufAlign cf =
     (if TotalBufSize cf \<le> 252444672 then push_bit 12 1
      else if TotalBufSize cf \<le> 4039114752 then push_bit 16 1
      else if TotalBufSize cf \<le> 64625836032 then push_bit 20 1 else push_bit 22 1)"

subsection \<open>Memory access in send buffers\<close>

text \<open>Reading and writing bytes of \<open>body\<close> as 16- and 32-bit values.\<close>

definition store_bytes :: "nat \<Rightarrow> u8 list \<Rightarrow> u8 list \<Rightarrow> u8 list option" where
  "store_bytes off bs mem =
     (if off + length bs \<le> length mem then Some (take off mem @ bs @ drop (off + length bs) mem) else None)"

definition load_bytes :: "nat \<Rightarrow> nat \<Rightarrow> u8 list \<Rightarrow> u8 list option" where
  "load_bytes off n mem = (if off + n \<le> length mem then Some (take n (drop off mem)) else None)"

definition bytes32 :: "u32 \<Rightarrow> u8 list" where
  "bytes32 v = le_bytes 4 (unat v)"

definition bytes16 :: "u16 \<Rightarrow> u8 list" where
  "bytes16 v = le_bytes 2 (unat v)"

definition word32 :: "u8 list \<Rightarrow> u32" where
  "word32 bs = of_nat (le_nat bs)"

definition word16 :: "u8 list \<Rightarrow> u16" where
  "word16 bs = of_nat (le_nat bs)"

subsection \<open>Initialisation\<close>

text \<open>What the operating system and the card answer while \<^verbatim>\<open>init\<close> runs.\<close>

record Device =
  ioctl_ok :: bool
  dev_ip :: u32
  driver_open_ok :: bool
  pd_alloc_ok :: bool
  vi_alloc_ok :: bool
  dev_mac :: "u8 list"
  memreg_ok :: bool
  receive_post_ok :: "u32 \<Rightarrow> bool"

text \<open>The header fields of a send buffer that never change.\<close>

definition initSendBuf :: "'a Core_scheme \<Rightarrow> SendBuf \<Rightarrow> SendBuf" where
  "initSendBuf c buf = buf
     \<lparr>avail := True,
      eth_hdr := (eth_hdr buf)\<lparr>src_mac := local_mac c, ether_type := ntohs 0x0800\<rparr>,
      ip_hdr := (ip_hdr buf)\<lparr>header_len := 5, ip_ver := 4, tos := 0, ip_id := 0,
        frag_offset_flags := ntohs 0x4000, ttl := 64, protocol := 6, src_ip := local_ip c\<rparr>\<rparr>"

definition rst_idx :: "'a Core_scheme \<Rightarrow> nat" where
  "rst_idx c = length (send_bufs c) - 1"

definition initRst :: "'a Core_scheme \<Rightarrow> 'a Core_scheme option" where
  "initRst c = do {
     rst \<leftarrow> arr_get (send_bufs c) (rst_idx c);
     let c = c\<lparr>rst_ipsum := CSum_addWords (ip_words (ip_hdr rst)) (CSum_of 0)\<rparr>;
     let c = c\<lparr>rst_tcpsum := CSum_add16 (ntohs 0x6) (CSum_add32 (src_ip (ip_hdr rst)) (CSum_of 0))\<rparr>;
     mem \<leftarrow> store_bytes 0 (bytes32 (ntohl 0x0101080a)) (body rst);
     Some (c\<lparr>send_bufs := (send_bufs c)[rst_idx c := rst\<lparr>body := mem\<rparr>]\<rparr>)
   }"

definition initTws :: "Conf \<Rightarrow> timer_heap \<Rightarrow> timer_heap" where
  "initTws cf h = (\<lambda>a. case a of
      TTw i \<Rightarrow> if i < unat (MaxTimeWaitConnCnt cf) then (h a)\<lparr>node_conn_id := MaxConnCnt cf + of_nat i\<rparr> else h a
    | _ \<Rightarrow> h a)"

definition core_init :: "Conf \<Rightarrow> Device \<Rightarrow> u64 \<Rightarrow> 'a Core_scheme \<Rightarrow> (string + 'a Core_scheme) option" where
  "core_init cf dev ns c =
     (let c = c\<lparr>now_ts := ucast (drop_bit TsScale ns)\<rparr> in
      if \<not> ioctl_ok dev then Some (Inl ''ioctl SIOCGIFADDR failed'')
      else if \<not> driver_open_ok dev then Some (Inl ''ef_driver_open failed'')
      else if \<not> pd_alloc_ok dev then Some (Inl ''ef_pd_alloc_by_name failed'')
      else if \<not> vi_alloc_ok dev then Some (Inl ''ef_vi_alloc_from_pd failed'')
      else if \<not> memreg_ok dev then Some (Inl ''ef_memreg_alloc failed'')
      else if \<not> (\<forall>i < unat (RecvBufCnt cf). receive_post_ok dev (of_nat i)) then Some (Inl ''ef_vi_receive_post failed'')
      else
        let c = c\<lparr>local_ip := dev_ip dev, local_mac := dev_mac dev\<rparr>;
            c = c\<lparr>send_bufs := map (initSendBuf c) (send_bufs c)\<rparr>
        in do {
          c \<leftarrow> initRst c;
          let c = c\<lparr>timers := initTws cf (timers c)\<rparr>;
          Some (Inr (initTbl cf c))
        })"

subsection \<open>Filters\<close>

text \<open>
  The choice of a local port. \<open>get_port i\<close> and \<open>filter_add i\<close> are what the operating system and
  the card answer on attempt \<open>i\<close>; \<open>-17\<close> says that the port is taken.
\<close>

fun clientFilterLoop ::
  "nat \<Rightarrow> bool \<Rightarrow> (nat \<Rightarrow> string + u16) \<Rightarrow> (nat \<Rightarrow> bool) \<Rightarrow> (nat \<Rightarrow> u16 \<Rightarrow> int) \<Rightarrow> nat \<Rightarrow> u16 \<Rightarrow> string + u16" where
  "clientFilterLoop 0 auto_gen get_port spec_ok filter_add i port = Inl ''no available port''"
| "clientFilterLoop (Suc retries) auto_gen get_port spec_ok filter_add i port =
     (case (if auto_gen then get_port i else Inr port) of
        Inl err \<Rightarrow> Inl err
      | Inr port \<Rightarrow>
          if \<not> spec_ok i then Inl ''ef_filter_spec_set_ip4_full failed''
          else if filter_add i port < 0 then
            if filter_add i port = - 17
            then clientFilterLoop retries auto_gen get_port spec_ok filter_add (Suc i) port
            else Inl ''ef_vi_filter_add failed''
          else Inr port)"

definition setClientFilter ::
  "(nat \<Rightarrow> string + u16) \<Rightarrow> (nat \<Rightarrow> bool) \<Rightarrow> (nat \<Rightarrow> u16 \<Rightarrow> int) \<Rightarrow> u16 \<Rightarrow> string + u16" where
  "setClientFilter get_port spec_ok filter_add local_port_be =
     (let auto_gen = (local_port_be = 0);
          retries = (if auto_gen then 10 else 1)
      in clientFilterLoop retries auto_gen get_port spec_ok filter_add 0 local_port_be)"

definition setServerFilter :: "bool \<Rightarrow> bool \<Rightarrow> string + unit" where
  "setServerFilter spec_ok filter_ok =
     (if \<not> spec_ok then Inl ''ef_filter_spec_set_ip4_local failed''
      else if \<not> filter_ok then Inl ''ef_vi_filter_add failed'' else Inr ())"

subsection \<open>Sending\<close>

text \<open>
  \<^verbatim>\<open>send\<close>: the frame of the buffer goes to the card, which owns the buffer until it reports
  completion.
\<close>

definition core_send :: "nat \<Rightarrow> 'a Core_scheme \<Rightarrow> 'a Core_scheme option" where
  "core_send i c = do {
     buf \<leftarrow> arr_get (send_bufs c) i;
     payload \<leftarrow> load_bytes 0 (unat (ntohs (tot_len (ip_hdr buf))) - 40) (body buf);
     let frame = \<lparr>f_eth = eth_hdr buf, f_ip = ip_hdr buf, f_tcp = tcp_hdr buf, f_payload = payload\<rparr>;
     Some (c\<lparr>wire := wire c @ [frame], send_bufs := (send_bufs c)[i := buf\<lparr>avail := False\<rparr>]\<rparr>)
   }"

definition sumRst :: "bool \<Rightarrow> 'a Core_scheme \<Rightarrow> SendBuf \<Rightarrow> SendBuf" where
  "sumRst has_ts c rst =
     (let ipsum = CSum_add32 (dst_ip (ip_hdr rst)) (rst_ipsum c);
          t = tcp_hdr rst;
          tcpsum = CSum_add32 (dst_ip (ip_hdr rst)) (rst_tcpsum c);
          tcpsum = CSum_add16 (src_port t) tcpsum;
          tcpsum = CSum_add16 (dst_port t) tcpsum;
          tcpsum = CSum_add32 (seq_num t) tcpsum;
          tcpsum = CSum_add32 (ack_num t) tcpsum;
          tcpsum = CSum_add16 (offset_flags t) tcpsum;
          tcpsum = (if has_ts then CSum_addWords (byte_words (take 12 (body rst))) tcpsum else tcpsum)
      in setOptDataLen (if has_ts then 12 else 0) ipsum tcpsum rst)"

definition seg_len :: "IpHeader \<Rightarrow> TcpHeader \<Rightarrow> int" where
  "seg_len ip t = uint (ntohs (tot_len ip)) - 20 - uint (data_offset t) * 4
     + of_bool (flag_syn t) + of_bool (flag_fin t)"

definition rspRst :: "Packet \<Rightarrow> 'a Core_scheme \<Rightarrow> 'a Core_scheme option" where
  "rspRst pkt c = do {
     rst \<leftarrow> arr_get (send_bufs c) (rst_idx c);
     let ip = p_ip pkt;
     let t = p_tcp pkt;
     if flag_rst t \<or> \<not> avail rst then Some c
     else do {
       let rst = rst\<lparr>eth_hdr := (eth_hdr rst)\<lparr>dst_mac := src_mac (p_eth pkt)\<rparr>,
                     ip_hdr := (ip_hdr rst)\<lparr>dst_ip := src_ip ip\<rparr>\<rparr>;
       let th = (tcp_hdr rst)\<lparr>src_port := dst_port t, dst_port := src_port t\<rparr>;
       let th = set_data_offset 5 (set_rst True th);
       let th = (if flag_ack t then (set_ack False th)\<lparr>seq_num := ack_num t\<rparr>
                 else (set_ack True th)\<lparr>seq_num := 0,
                   ack_num := htonl (ntohl (seq_num t) + of_int (seg_len ip t))\<rparr>);
       let rst = sumRst False c (rst\<lparr>tcp_hdr := th\<rparr>);
       core_send (rst_idx c) (c\<lparr>send_bufs := (send_bufs c)[rst_idx c := rst]\<rparr>)
     }
   }"

definition ackTW :: "TimeWaitConn \<Rightarrow> 'a Core_scheme \<Rightarrow> 'a Core_scheme option" where
  "ackTW tw c = do {
     ack \<leftarrow> arr_get (send_bufs c) (rst_idx c);
     if \<not> avail ack then Some c
     else do {
       let ack = ack\<lparr>eth_hdr := (eth_hdr ack)\<lparr>dst_mac := tw_dst_mac tw\<rparr>,
                     ip_hdr := (ip_hdr ack)\<lparr>dst_ip := tw_dst_ip tw\<rparr>\<rparr>;
       let th = (tcp_hdr ack)\<lparr>src_port := tw_src_port tw, dst_port := tw_dst_port tw\<rparr>;
       let th = (set_ack True (set_rst False th))\<lparr>seq_num := tw_seq_num tw, ack_num := tw_ack_num tw\<rparr>;
       ack \<leftarrow> (if tw_has_ts tw then do {
                  mem \<leftarrow> store_bytes 4 (bytes32 (now_ts c)) (body ack);
                  mem \<leftarrow> store_bytes 8 (bytes32 (tw_tsecr tw)) mem;
                  Some (ack\<lparr>tcp_hdr := set_data_offset 8 th, body := mem\<rparr>)
                } else Some (ack\<lparr>tcp_hdr := set_data_offset 5 th\<rparr>));
       let ack = sumRst (tw_has_ts tw) c ack;
       core_send (rst_idx c) (c\<lparr>send_bufs := (send_bufs c)[rst_idx c := ack]\<rparr>)
     }
   }"

subsection \<open>Time-wait\<close>

definition enterTW :: "Conf \<Rightarrow> u64 \<Rightarrow> SendBuf \<Rightarrow> bool \<Rightarrow> u32 \<Rightarrow> 'a Core_scheme \<Rightarrow> 'a Core_scheme option" where
  "enterTW cf k buf has_ts tsecr c =
     (if tw_cnt c = MaxTimeWaitConnCnt cf then delConnEntry cf k c
      else do {
        (tw_id, c) \<leftarrow> moveToTW cf k c;
        tws' \<leftarrow> arr_set (tws c) (unat tw_id)
          \<lparr>tw_dst_mac = dst_mac (eth_hdr buf), tw_has_ts = has_ts, tw_dst_ip = dst_ip (ip_hdr buf),
           tw_src_port = src_port (tcp_hdr buf), tw_dst_port = dst_port (tcp_hdr buf),
           tw_seq_num = seq_num (tcp_hdr buf), tw_ack_num = ack_num (tcp_hdr buf), tw_tsecr = tsecr\<rparr>;
        Some (c\<lparr>tws := tws', timers := addTimer (now_ts c) TimeWaitTimeout (TTw (unat tw_id)) (timers c)\<rparr>)
      })"

subsection \<open>Polling the clock\<close>

text \<open>
  The loop that fires the expired timers. A time-wait timer deletes its table entry; every other
  one is passed to the handler, which may arm and unlink timers itself.
\<close>

partial_function (option) fireLoop ::
  "Conf \<Rightarrow> (timer_addr \<Rightarrow> 'a Core_scheme \<Rightarrow> 'a Core_scheme option) \<Rightarrow> 'a Core_scheme \<Rightarrow> 'a Core_scheme option" where
  "fireLoop cf handler c =
     (let node = nxt (timers c TDump) in
      if node = TDump then Some c
      else
        let c = c\<lparr>timers := unlink node (timers c)\<rparr>;
            cid = node_conn_id (timers c node)
        in Option.bind
             (if MaxConnCnt cf \<le> cid
              then Option.bind (arr_get (tws c) (unat (cid - MaxConnCnt cf)))
                     (\<lambda>tw. delConnEntry cf (connHashKey (tw_dst_ip tw) (tw_dst_port tw)) c)
              else handler node c)
             (fireLoop cf handler))"

definition pollTime ::
  "Conf \<Rightarrow> (timer_addr \<Rightarrow> 'a Core_scheme \<Rightarrow> 'a Core_scheme option) \<Rightarrow> u64 \<Rightarrow> u64 \<Rightarrow> 'a Core_scheme \<Rightarrow> 'a Core_scheme option" where
  "pollTime cf handler getns ns c =
     (let ns = (if ns = 0 then getns else ns);
          ts = ucast (drop_bit TsScale ns) :: u32
      in if ts = now_ts c then Some c
         else do {
           let c = c\<lparr>now_ts := now_ts c + 1\<rparr>;
           h \<leftarrow> tick (now_ts c) (timers c);
           fireLoop cf handler (c\<lparr>timers := h\<rparr>)
         })"

subsection \<open>Polling the network\<close>

text \<open>The events of the card, with the packet that a receive event delivers.\<close>

datatype event = EvRx u32 Packet | EvRxDiscard u32 | EvTx "nat list"

type_synonym 'a recv_handler = "u64 \<Rightarrow> nat \<Rightarrow> Packet \<Rightarrow> 'a Core_scheme \<Rightarrow> 'a Core_scheme option"

definition recvPacket :: "Conf \<Rightarrow> 'a recv_handler \<Rightarrow> Packet \<Rightarrow> 'a Core_scheme \<Rightarrow> 'a Core_scheme option" where
  "recvPacket cf recv_handler pkt c = do {
     let ip = p_ip pkt;
     let t = p_tcp pkt;
     let k = connHashKey (src_ip ip) (src_port t);
     entry \<leftarrow> findConnEntry c k;
     e \<leftarrow> arr_get (conn_tbl c) entry;
     if key e = k \<and> MaxConnCnt cf \<le> conn_id e then do {
       let tw_id = unat (conn_id e - MaxConnCnt cf);
       tw \<leftarrow> arr_get (tws c) tw_id;
       let seq_expected = (seq_num t = tw_ack_num tw);
       if flag_rst t then
         if seq_expected then delConnEntry cf k (c\<lparr>timers := unlink (TTw tw_id) (timers c)\<rparr>)
         else Some c
       else if \<not> seq_expected \<or> seg_len ip t \<noteq> 0 then ackTW tw c
       else Some c
     } else recv_handler k entry pkt c
   }"

fun txComplete :: "nat list \<Rightarrow> 'a Core_scheme \<Rightarrow> 'a Core_scheme option" where
  "txComplete [] c = Some c"
| "txComplete (i # ids) c = do {
     buf \<leftarrow> arr_get (send_bufs c) i;
     txComplete ids (c\<lparr>send_bufs := (send_bufs c)[i := buf\<lparr>avail := True\<rparr>]\<rparr>)
   }"

fun pollEvents :: "Conf \<Rightarrow> 'a recv_handler \<Rightarrow> event list \<Rightarrow> bool \<Rightarrow> 'a Core_scheme \<Rightarrow> (bool \<times> 'a Core_scheme) option" where
  "pollEvents cf handler [] received c = Some (received, c)"
| "pollEvents cf handler (EvRx i pkt # evs) received c = do {
     c \<leftarrow> recvPacket cf handler pkt c;
     pollEvents cf handler evs True (c\<lparr>rx_inits := rx_inits c @ [i]\<rparr>)
   }"
| "pollEvents cf handler (EvRxDiscard i # evs) received c =
     pollEvents cf handler evs True (c\<lparr>rx_inits := rx_inits c @ [i]\<rparr>)"
| "pollEvents cf handler (EvTx ids # evs) received c = do {
     c \<leftarrow> txComplete ids c;
     pollEvents cf handler evs received c
   }"

definition pollNet :: "Conf \<Rightarrow> 'a recv_handler \<Rightarrow> event list \<Rightarrow> 'a Core_scheme \<Rightarrow> 'a Core_scheme option" where
  "pollNet cf handler evs c = do {
     (received, c) \<leftarrow> pollEvents cf handler evs False c;
     Some (if received then c\<lparr>rx_pushes := rx_pushes c + 1\<rparr> else c)
   }"

end
