(* ===== verification/TcpConn.thy ===== *)
theory TcpConn
  imports Core
begin

text \<open>
  One TCP connection: the class \<^verbatim>\<open>TcpConn\<close> of \<^verbatim>\<open>efvitcp/TcpConn.h\<close>. Its operations work on
  the connection and on the \<^verbatim>\<open>Core\<close> it points to, so they map a pair of the two to an option
  of such a pair: \<open>None\<close> is an access outside of a buffer, a division by zero, or a loop that does
  not end. The callbacks of the user are arbitrary functions on that pair.
\<close>

record TcpConn =
  tc_conn_id :: u32
  tc_base :: nat
  send_una :: u32
  send_next :: u32
  recover :: u32
  data_next :: u32
  data_next_size :: u32
  data_sum :: CSum
  rto :: u32
  srtt :: u32
  rttvar :: u32
  established :: bool
  fin_sent :: bool
  fin_received :: bool
  pending_ack :: bool
  has_ws :: bool
  has_ts :: bool
  fast_re :: bool
  cong_av :: bool
  in_recover :: bool
  retries :: "5 word"
  recv_wnd_shift :: u8
  send_wnd_shift :: u8
  smss :: u32
  send_wnd_seq :: u32
  cwnd :: u32
  both_wnd_seq :: u32
  ssthresh :: u32
  last_ack_seq :: u32
  recent_ts :: u32
  cong_av_ts :: u32
  dup_ack_cnt :: u32
  cubic_wmax :: u32
  cubic_k :: u32
  ipsum :: CSum
  tcpsum :: CSum
  recv_seg_cnt :: u32
  recv_buf_seq :: u32
  segs :: "(u32 \<times> u32) list"
  recv_buf :: "u8 list"

abbreviation MaxRecvSegs :: nat where "MaxRecvSegs \<equiv> 5"

type_synonym 'a cs = "TcpConn \<times> 'a Core_scheme"

record 'c EventHandler =
  onConnectionEstablished :: "'c \<Rightarrow> 'c option"
  onConnectionReset :: "'c \<Rightarrow> 'c option"
  onConnectionTimeout :: "'c \<Rightarrow> 'c option"
  onConnectionClosed :: "'c \<Rightarrow> 'c option"
  onConnectionRefused :: "'c \<Rightarrow> 'c option"
  onMoreSendable :: "'c \<Rightarrow> 'c option"
  onUserTimeout :: "u32 \<Rightarrow> 'c \<Rightarrow> 'c option"
  onData :: "u8 list \<Rightarrow> 'c \<Rightarrow> (u32 \<times> 'c) option"
  onFin :: "u8 list \<Rightarrow> 'c \<Rightarrow> 'c option"
  allowNewConnection :: "u32 \<Rightarrow> u16 \<Rightarrow> bool"

text \<open>Signed comparison of sequence numbers, \<^verbatim>\<open>(int)(a - b) < 0\<close> and so on.\<close>

abbreviation slt0 :: "u32 \<Rightarrow> bool" where "slt0 x \<equiv> sint x < 0"
abbreviation sle0 :: "u32 \<Rightarrow> bool" where "sle0 x \<equiv> sint x \<le> 0"

subsection \<open>Buffers and small accessors\<close>

definition sbuf_idx :: "Conf \<Rightarrow> TcpConn \<Rightarrow> u32 \<Rightarrow> nat" where
  "sbuf_idx cf t idx = tc_base t + unat (idx mod ConnSendBufCnt cf)"

definition getSendBuf :: "Conf \<Rightarrow> TcpConn \<Rightarrow> u32 \<Rightarrow> 'a Core_scheme \<Rightarrow> SendBuf option" where
  "getSendBuf cf t idx c = arr_get (send_bufs c) (sbuf_idx cf t idx)"

definition putSendBuf :: "Conf \<Rightarrow> TcpConn \<Rightarrow> u32 \<Rightarrow> SendBuf \<Rightarrow> 'a Core_scheme \<Rightarrow> 'a Core_scheme option" where
  "putSendBuf cf t idx b c = do {
     bufs \<leftarrow> arr_set (send_bufs c) (sbuf_idx cf t idx) b;
     Some (c\<lparr>send_bufs := bufs\<rparr>)
   }"

definition isClosed :: "TcpConn \<Rightarrow> bool" where
  "isClosed t \<longleftrightarrow> fin_received t \<and> \<not> established t"

definition hasTs :: "Conf \<Rightarrow> TcpConn \<Rightarrow> bool" where
  "hasTs cf t \<longleftrightarrow> TimestampOption cf \<and> has_ts t"

definition getSendSeq :: "Conf \<Rightarrow> TcpConn \<Rightarrow> u32 \<Rightarrow> 'a Core_scheme \<Rightarrow> u32 option" where
  "getSendSeq cf t idx c = do { b \<leftarrow> getSendBuf cf t idx c; Some (ntohl (seq_num (tcp_hdr b))) }"

definition getRMSS :: "Conf \<Rightarrow> TcpConn \<Rightarrow> u32" where
  "getRMSS cf t = RecvMSS - (if hasTs cf t then 12 else 0)"

definition updateRto :: "Conf \<Rightarrow> TcpConn \<Rightarrow> TcpConn" where
  "updateRto cf t = t\<lparr>rto := max (MinRtoMS cf) (srtt t + max 1 (push_bit 2 (rttvar t)))\<rparr>"

definition genISN :: "u32 \<Rightarrow> u16 \<Rightarrow> 'a Core_scheme \<Rightarrow> u32" where
  "genISN dip dport c = ucast (connHashKey dip dport + ucast (now_ts c))"

definition ctimer :: "TcpConn \<Rightarrow> nat \<Rightarrow> timer_addr" where
  "ctimer t i = TConn (unat (tc_conn_id t)) i"

definition getPeername :: "Conf \<Rightarrow> 'a cs \<Rightarrow> (u32 \<times> u16) option" where
  "getPeername cf s = (case s of (t, c) \<Rightarrow> do {
     buf \<leftarrow> getSendBuf cf t 0 c;
     Some (dst_ip (ip_hdr buf), dst_port (tcp_hdr buf))
   })"

definition getSendable :: "Conf \<Rightarrow> TcpConn \<Rightarrow> u32" where
  "getSendable cf t =
     (if fin_sent t then 0
      else (send_una t + ConnSendBufCnt cf - 1 - data_next t) * smss t - data_next_size t)"

definition getImmediatelySendable :: "Conf \<Rightarrow> 'a cs \<Rightarrow> u32 option" where
  "getImmediatelySendable cf s = (case s of (t, c) \<Rightarrow>
     if data_next t \<noteq> send_next t then Some 0
     else do {
       sq \<leftarrow> getSendSeq cf t (send_next t) c;
       let wnd_sendable = of_int (max 0 (sint (both_wnd_seq t - sq - data_next_size t)));
       Some (min wnd_sendable (getSendable cf t))
     })"

subsection \<open>Lifecycle\<close>

definition conn_init :: "Conf \<Rightarrow> nat \<Rightarrow> u32 \<Rightarrow> 'a cs \<Rightarrow> 'a cs" where
  "conn_init cf send_buf cid s = (case s of (t, c) \<Rightarrow>
     (t\<lparr>tc_base := send_buf, tc_conn_id := cid\<rparr>,
      c\<lparr>timers := (\<lambda>a. case a of
           TConn k i \<Rightarrow> if k = unat cid \<and> i < 2 + unat (UserTimerCnt cf) then (timers c a)\<lparr>node_conn_id := cid\<rparr>
                         else timers c a
         | _ \<Rightarrow> timers c a)\<rparr>))"

definition conn_reset :: "Conf \<Rightarrow> u16 \<Rightarrow> u8 list \<Rightarrow> u32 \<Rightarrow> u16 \<Rightarrow> 'a cs \<Rightarrow> 'a cs option" where
  "conn_reset cf src_port_be dmac dip dst_port_be s = (case s of (t, c) \<Rightarrow> do {
     let t = t\<lparr>established := False, fin_sent := False, fin_received := False, pending_ack := False,
               has_ws := False, has_ts := False, fast_re := False, cong_av := False, in_recover := False,
               retries := 0\<rparr>;
     let t = t\<lparr>recv_buf_seq := 0, segs := (segs t)[0 := (0, 0)], send_una := 0, send_next := 0,
               data_next_size := 0, dup_ack_cnt := 0, data_next := 1, smss := 536, recv_seg_cnt := 1,
               data_sum := CSum_of 0\<rparr>;
     syn \<leftarrow> getSendBuf cf t 0 c;
     let syn = syn\<lparr>eth_hdr := (eth_hdr syn)\<lparr>dst_mac := dmac\<rparr>,
                   ip_hdr := (ip_hdr syn)\<lparr>dst_ip := dip, tot_len := 0, ip_checksum := 0\<rparr>\<rparr>;
     let t = t\<lparr>ipsum := CSum_addWords (ip_words (ip_hdr syn)) (CSum_of 0)\<rparr>;
     let ts = CSum_add32 (src_ip (ip_hdr syn)) (CSum_of 0);
     let ts = CSum_add32 (dst_ip (ip_hdr syn)) ts;
     let ts = CSum_add16 (ntohs 0x6) ts;
     let (ts, sp) = CSum_setVar16 False (src_port (tcp_hdr syn)) src_port_be ts;
     let (ts, dp) = CSum_setVar16 False (dst_port (tcp_hdr syn)) dst_port_be ts;
     let isn = genISN dip dst_port_be c;
     let syn = syn\<lparr>tcp_hdr := (tcp_hdr syn)\<lparr>src_port := sp, dst_port := dp, seq_num := htonl isn\<rparr>\<rparr>;
     let t = t\<lparr>tcpsum := ts, send_wnd_seq := isn\<rparr>;
     let t = (if WindowScaleOption cf
              then t\<lparr>has_ws := True, recv_wnd_shift := of_int (min 14 (max 0 (int (getMSB (ConnRecvBufSize cf)) - 16))),
                     send_wnd_shift := 0\<rparr>
              else t);
     (t, syn) \<leftarrow> (if TimestampOption cf then do {
                     mem \<leftarrow> store_bytes 0 [1, 1, 8, 10] (body syn);
                     Some (t\<lparr>has_ts := True, recent_ts := 0, tcpsum := CSum_addWords (byte_words [1, 1, 8, 10]) (tcpsum t)\<rparr>,
                           syn\<lparr>body := mem\<rparr>)
                   } else Some (t, syn));
     c \<leftarrow> putSendBuf cf t 0 syn c;
     Some (t, c)
   })"

definition updateBothWndSeq :: "Conf \<Rightarrow> 'a cs \<Rightarrow> 'a cs option" where
  "updateBothWndSeq cf s = (case s of (t, c) \<Rightarrow>
     if CongestionControlAlgo cf = 0 then Some (t\<lparr>both_wnd_seq := send_wnd_seq t\<rparr>, c)
     else do {
       una \<leftarrow> getSendSeq cf t (send_una t) c;
       let cwnd_seq = una + cwnd t;
       Some (t\<lparr>both_wnd_seq := (if slt0 (cwnd_seq - send_wnd_seq t) then cwnd_seq else send_wnd_seq t)\<rparr>, c)
     })"

subsection \<open>Sending segments\<close>

definition updateLastAck :: "'a cs \<Rightarrow> u32 \<times> 'a cs" where
  "updateLastAck s = (case s of (t, c) \<Rightarrow>
     let c = c\<lparr>timers := unlink (ctimer t 1) (timers c)\<rparr>;
         las = recv_buf_seq t + snd (segs t ! 0);
         t = t\<lparr>pending_ack := False, last_ack_seq := las\<rparr>
     in (htonl las, (t, c)))"

definition getRecvWindowSize :: "Conf \<Rightarrow> TcpConn \<Rightarrow> u16" where
  "getRecvWindowSize cf t =
     (let w = ConnRecvBufSize cf - snd (segs t ! 0);
          w = (if WindowScaleOption cf \<and> established t then drop_bit (unat (recv_wnd_shift t)) w else min 65535 w)
      in htons (ucast w))"

definition sendBuf :: "Conf \<Rightarrow> u32 \<Rightarrow> CSum \<Rightarrow> u32 \<Rightarrow> 'a cs \<Rightarrow> 'a cs option" where
  "sendBuf cf opt_data_size sm idx s = (case s of (t, c) \<Rightarrow> do {
     buf \<leftarrow> getSendBuf cf t idx c;
     let sm = CSum_add32 (seq_num (tcp_hdr buf)) sm;
     let (a, t, c) = updateLastAck (t, c);
     let (sm, a) = CSum_setVar32 False (ack_num (tcp_hdr buf)) a sm;
     let (sm, w) = CSum_setVar16 False (window_size (tcp_hdr buf)) (getRecvWindowSize cf t) sm;
     let buf = buf\<lparr>tcp_hdr := (tcp_hdr buf)\<lparr>ack_num := a, window_size := w\<rparr>\<rparr>;
     (sm, buf, opt_data_size) \<leftarrow> (if hasTs cf t then do {
         let sm = CSum_add32 (htonl (now_ts c)) sm;
         mem \<leftarrow> store_bytes 4 (bytes32 (htonl (now_ts c))) (body buf);
         let sm = CSum_add32 (htonl (recent_ts t)) sm;
         mem \<leftarrow> store_bytes 8 (bytes32 (htonl (recent_ts t))) mem;
         Some (sm, buf\<lparr>body := mem\<rparr>, opt_data_size + 12)
       } else Some (sm, buf, opt_data_size));
     let sm = CSum_add (tcpsum t) sm;
     let buf = setOptDataLen (ucast opt_data_size) (ipsum t) sm buf;
     c \<leftarrow> putSendBuf cf t idx buf c;
     c \<leftarrow> core_send (sbuf_idx cf t idx) c;
     Some (t, c)
   })"

definition startResendTimer :: "'a cs \<Rightarrow> 'a cs" where
  "startResendTimer s = (case s of (t, c) \<Rightarrow>
     (t, c\<lparr>timers := addTimer (now_ts c) (rto t) (ctimer t 0) (timers c)\<rparr>))"

definition advanceNext :: "Conf \<Rightarrow> u32 \<Rightarrow> 'a cs \<Rightarrow> 'a cs option" where
  "advanceNext cf inc_seq s = (case s of (t, c) \<Rightarrow> do {
     nb \<leftarrow> getSendBuf cf t (send_next t) c;
     c \<leftarrow> putSendBuf cf t (send_next t) (nb\<lparr>send_ts := now_ts c\<rparr>) c;
     let (t, c) = (if send_next t = send_una t then startResendTimer (t, c) else (t, c));
     let sq = ntohl (seq_num (tcp_hdr nb));
     let t = t\<lparr>send_next := send_next t + 1\<rparr>;
     b \<leftarrow> getSendBuf cf t (send_next t) c;
     c \<leftarrow> putSendBuf cf t (send_next t) (b\<lparr>tcp_hdr := (tcp_hdr b)\<lparr>seq_num := htonl (sq + inc_seq)\<rparr>\<rparr>) c;
     Some (t, c)
   })"

definition advanceData :: "TcpConn \<Rightarrow> TcpConn" where
  "advanceData t = t\<lparr>data_next := data_next t + 1, data_sum := CSum_of 0, data_next_size := 0\<rparr>"

definition sendSyn :: "Conf \<Rightarrow> 'a cs \<Rightarrow> 'a cs option" where
  "sendSyn cf s = (case s of (t, c) \<Rightarrow> do {
     let t = t\<lparr>rto := 1000\<rparr>;
     syn \<leftarrow> getSendBuf cf t (send_next t) c;
     let th = set_ack (pending_ack t) (set_syn True ((tcp_hdr syn)\<lparr>offset_flags := 0\<rparr>));
     let opt = (if hasTs cf t then 12 else 0 :: nat);
     let additional_opt = opt;
     let mss = [2, 4] @ bytes16 (htons (ucast RecvMSS));
     mem \<leftarrow> store_bytes opt mss (body syn);
     let sm = CSum_addWords (byte_words mss) (CSum_of 0);
     let opt = opt + 4;
     (mem, sm, opt) \<leftarrow> (if WindowScaleOption cf \<and> has_ws t then do {
         let ws = [1, 3, 3, recv_wnd_shift t];
         mem \<leftarrow> store_bytes opt ws mem;
         Some (mem, CSum_addWords (byte_words ws) sm, opt + 4)
       } else Some (mem, sm, opt));
     let th = set_data_offset (drop_bit 2 (of_nat opt + 20)) th;
     let sm = CSum_add16 (offset_flags th) sm;
     c \<leftarrow> putSendBuf cf t (send_next t) (syn\<lparr>tcp_hdr := th, body := mem\<rparr>) c;
     s \<leftarrow> sendBuf cf (of_nat (opt - additional_opt)) sm (send_next t) (t, c);
     advanceNext cf 1 s
   })"

text \<open>
  The loop of \<^verbatim>\<open>sendPartial\<close>. Send buffers start at even addresses, so the parity of the
  destination is that of the offset in the body.
\<close>

partial_function (option) sendPartialLoop :: "Conf \<Rightarrow> bool \<Rightarrow> u8 list \<Rightarrow> nat \<Rightarrow> 'a cs \<Rightarrow> (u32 \<times> 'a cs) option" where
  "sendPartialLoop cf lst data sent s = (case s of (t, c) \<Rightarrow>
     if data = [] \<or> send_una t + ConnSendBufCnt cf - 1 = data_next t then Some (of_nat sent, s)
     else
       Option.bind (getSendBuf cf t (data_next t) c) (\<lambda>nb.
         let size_to_append = unat (min (smss t - data_next_size t) (of_nat (length data)));
             off = (if hasTs cf t then 12 else 0) + unat (data_next_size t)
         in Option.bind (copyAndSum (of_nat off) (take size_to_append data)) (\<lambda>(bytes, cks).
            Option.bind (store_bytes off bytes (body nb)) (\<lambda>mem.
            let t = t\<lparr>data_sum := CSum_add cks (data_sum t),
                      data_next_size := data_next_size t + of_nat size_to_append\<rparr>;
                nb = nb\<lparr>body := mem\<rparr>
            in Option.bind (putSendBuf cf t (data_next t) nb c) (\<lambda>c.
               let can_send = (data_next t = send_next t
                     \<and> sle0 (ntohl (seq_num (tcp_hdr nb)) + data_next_size t - both_wnd_seq t))
               in Option.bind
                  (if data_next_size t = smss t \<or> lst \<and> can_send then
                     Option.bind
                       (if can_send then
                          Option.bind (sendBuf cf (data_next_size t) (data_sum t) (data_next t) (t, c))
                            (advanceNext cf (data_next_size t))
                        else
                          map_option (Pair t) (putSendBuf cf t (data_next t)
                            (nb\<lparr>tcp_hdr := (tcp_hdr nb)\<lparr>ack_num := csum (data_sum t)\<rparr>\<rparr>) c))
                       (\<lambda>(t, c). Some (advanceData t, c))
                   else Some (t, c))
                  (sendPartialLoop cf lst (drop size_to_append data) (sent + size_to_append)))))))"

definition sendPartial :: "Conf \<Rightarrow> u8 list \<Rightarrow> bool \<Rightarrow> 'a cs \<Rightarrow> (u32 \<times> 'a cs) option" where
  "sendPartial cf data lst s = sendPartialLoop cf lst data 0 s"

definition conn_send :: "Conf \<Rightarrow> u8 list \<Rightarrow> bool \<Rightarrow> 'a cs \<Rightarrow> (u32 \<times> 'a cs) option" where
  "conn_send cf data more_data s = (if fin_sent (fst s) then Some (0, s) else sendPartial cf data (\<not> more_data) s)"

fun sendvLoop :: "Conf \<Rightarrow> u8 list list \<Rightarrow> u32 \<Rightarrow> 'a cs \<Rightarrow> (u32 \<times> 'a cs) option" where
  "sendvLoop cf [] tot s = Some (tot, s)"
| "sendvLoop cf (d # ds) tot s = do {
     (n, s) \<leftarrow> sendPartial cf d (ds = []) s;
     sendvLoop cf ds (tot + n) s
   }"

definition conn_sendv :: "Conf \<Rightarrow> u8 list list \<Rightarrow> 'a cs \<Rightarrow> (u32 \<times> 'a cs) option" where
  "conn_sendv cf iov s = (if fin_sent (fst s) then Some (0, s) else sendvLoop cf iov 0 s)"


subsection \<open>Acknowledgements and closing\<close>

text \<open>A free buffer for a segment without data, from the end of the ring down to the data.\<close>

function getAckBufLoop :: "Conf \<Rightarrow> TcpConn \<Rightarrow> u32 \<Rightarrow> 'a Core_scheme \<Rightarrow> (u32 option \<times> 'a Core_scheme) option" where
  "getAckBufLoop cf t idx c =
     (if idx = data_next t - 1 then Some (None, c)
      else case getSendBuf cf t idx c of
             None \<Rightarrow> None
           | Some buf \<Rightarrow>
               if avail buf then
                 map_option (Pair (Some idx)) (putSendBuf cf t idx (buf\<lparr>tcp_hdr := set_fin False (tcp_hdr buf)\<rparr>) c)
               else getAckBufLoop cf t (idx - 1) c)"
  by pat_completeness auto
termination
proof (relation "measure (\<lambda>(cf, t, idx, c). unat (idx - (data_next t - 1)))", goal_cases)
  case (2 cf t idx c buf)
  then have "idx - (data_next t - 1) \<noteq> 0" by simp
  then have "unat (idx - (data_next t - 1) - 1) < unat (idx - (data_next t - 1))" by (rule unat_dec_less)
  moreover have "idx - 1 - (data_next t - 1) = idx - (data_next t - 1) - 1" by simp
  ultimately show ?case by (simp only: in_measure prod.case)
qed simp

declare getAckBufLoop.simps [simp del]

definition getAckBuf :: "Conf \<Rightarrow> 'a cs \<Rightarrow> (u32 option \<times> 'a Core_scheme) option" where
  "getAckBuf cf s = (case s of (t, c) \<Rightarrow> getAckBufLoop cf t (send_una t + ConnSendBufCnt cf - 1) c)"

definition set_buf_seq :: "Conf \<Rightarrow> u32 \<Rightarrow> 'a cs \<Rightarrow> 'a Core_scheme option" where
  "set_buf_seq cf idx s = (case s of (t, c) \<Rightarrow> do {
     nb \<leftarrow> getSendBuf cf t (send_next t) c;
     ack \<leftarrow> getSendBuf cf t idx c;
     putSendBuf cf t idx (ack\<lparr>tcp_hdr := (tcp_hdr ack)\<lparr>seq_num := seq_num (tcp_hdr nb)\<rparr>\<rparr>) c
   })"

definition sendAck :: "Conf \<Rightarrow> bool \<Rightarrow> 'a cs \<Rightarrow> 'a cs option" where
  "sendAck cf immediate s = (case s of (t, c) \<Rightarrow> do {
     (ack, c) \<leftarrow> getAckBuf cf (t, c);
     case (if DelayedAckMS cf = 0 \<or> immediate then ack else None) of
       Some idx \<Rightarrow> do {
         c \<leftarrow> set_buf_seq cf idx (t, c);
         sendBuf cf 0 (CSum_of 0) idx (t, c)
       }
     | None \<Rightarrow>
         Some (t, if isUnlinked (ctimer t 1) (timers c)
                  then c\<lparr>timers := addTimer (now_ts c) (max 1 (DelayedAckMS cf)) (ctimer t 1) (timers c)\<rparr>
                  else c)
   })"

fun unlinkTimers :: "TcpConn \<Rightarrow> nat \<Rightarrow> timer_heap \<Rightarrow> timer_heap" where
  "unlinkTimers t 0 h = h"
| "unlinkTimers t (Suc n) h = unlink (ctimer t n) (unlinkTimers t n h)"

definition onClose :: "Conf \<Rightarrow> bool \<Rightarrow> 'a cs \<Rightarrow> 'a cs option" where
  "onClose cf tw s = (case s of (t, c) \<Rightarrow>
     if isClosed t then Some (t, c)
     else do {
       let t = t\<lparr>fin_sent := True, fin_received := True, established := False\<rparr>;
       let c = c\<lparr>timers := unlinkTimers t (2 + unat (UserTimerCnt cf)) (timers c)\<rparr>;
       buf \<leftarrow> getSendBuf cf t 0 c;
       let k = connHashKey (dst_ip (ip_hdr buf)) (dst_port (tcp_hdr buf));
       if tw then do {
         nb \<leftarrow> getSendBuf cf t (send_next t) c;
         let buf = buf\<lparr>tcp_hdr := (tcp_hdr buf)\<lparr>seq_num := seq_num (tcp_hdr nb),
                        ack_num := htonl (recv_buf_seq t + snd (segs t ! 0))\<rparr>\<rparr>;
         c \<leftarrow> putSendBuf cf t 0 buf c;
         c \<leftarrow> enterTW cf k buf (has_ts t) (recent_ts t) c;
         Some (t, c)
       } else do {
         c \<leftarrow> delConnEntry cf k c;
         Some (t, c)
       }
     })"

definition conn_close :: "Conf \<Rightarrow> 'a cs \<Rightarrow> 'a cs option" where
  "conn_close cf s = (case s of (t, c) \<Rightarrow>
     if isClosed t then Some (t, c)
     else do {
       (ack, c) \<leftarrow> getAckBuf cf (t, c);
       s \<leftarrow> (case (if established t then ack else None) of
                Some idx \<Rightarrow> do {
                  c \<leftarrow> set_buf_seq cf idx (t, c);
                  ab \<leftarrow> getSendBuf cf t idx c;
                  c \<leftarrow> putSendBuf cf t idx (ab\<lparr>tcp_hdr := set_rst True (tcp_hdr ab)\<rparr>) c;
                  sendBuf cf 0 (CSum_of (ucast (ntohs 4))) idx (t, c)
                }
              | None \<Rightarrow> Some (t, c));
       onClose cf False s
     })"

definition sendFin :: "Conf \<Rightarrow> 'a cs \<Rightarrow> 'a cs option" where
  "sendFin cf s = (case s of (t, c) \<Rightarrow>
     if fin_sent t then Some (t, c)
     else if send_una t + ConnSendBufCnt cf - 1 = data_next t then conn_close cf (t, c)
     else do {
       let t = t\<lparr>fin_sent := True\<rparr>;
       nb \<leftarrow> getSendBuf cf t (data_next t) c;
       let t = t\<lparr>data_sum := CSum_add16 (ntohs 1) (data_sum t), data_next_size := data_next_size t + 1\<rparr>;
       if data_next t = send_next t \<and> data_next_size t = 1 then do {
         c \<leftarrow> putSendBuf cf t (data_next t) (nb\<lparr>tcp_hdr := set_fin True (tcp_hdr nb)\<rparr>) c;
         s \<leftarrow> sendBuf cf 0 (data_sum t) (data_next t) (t, c);
         (t, c) \<leftarrow> advanceNext cf 1 s;
         Some (advanceData t, c)
       } else Some (t, c)
     })"

definition setUserTimer :: "u32 \<Rightarrow> u32 \<Rightarrow> 'a cs \<Rightarrow> 'a cs" where
  "setUserTimer timer_id duration s = (case s of (t, c) \<Rightarrow>
     let a = ctimer t (2 + unat timer_id);
         h = unlink a (timers c)
     in (t, c\<lparr>timers := (if duration \<noteq> 0 then addTimer (now_ts c) duration a h else h)\<rparr>))"

subsection \<open>The handshake\<close>

text \<open>The option list of a SYN: \<open>pos\<close> is the offset behind the header, \<open>end\<close> where the data starts.\<close>

function synOptions :: "Conf \<Rightarrow> u8 list \<Rightarrow> nat \<Rightarrow> nat \<Rightarrow> TcpConn \<Rightarrow> TcpConn option" where
  "synOptions cf mem pos end t =
     (if pos < end then
        case arr_get mem pos of
          None \<Rightarrow> None
        | Some kind \<Rightarrow>
            if kind \<le> 1 then synOptions cf mem (pos + 1) end t
            else case arr_get mem (pos + 1) of
              None \<Rightarrow> None
            | Some len \<Rightarrow>
                (case (if kind = 2 \<and> len = 4 then
                         map_option (\<lambda>v. t\<lparr>smss := ucast (min (ucast (SendMTU cf - 40)) (ntohs (word16 v)))\<rparr>)
                           (load_bytes (pos + 2) 2 mem)
                       else if kind = 3 \<and> WindowScaleOption cf \<and> len = 3 then
                         map_option (\<lambda>v. t\<lparr>has_ws := True, send_wnd_shift := min 14 v\<rparr>) (arr_get mem (pos + 2))
                       else if kind = 8 \<and> TimestampOption cf \<and> len = 10 then
                         map_option (\<lambda>v. t\<lparr>has_ts := True, recent_ts := ntohl (word32 v)\<rparr>) (load_bytes (pos + 2) 4 mem)
                       else Some t) of
                   None \<Rightarrow> None
                 | Some t \<Rightarrow> synOptions cf mem (pos + 2 + (if 2 < len then unat (len - 2) else 0)) end t)
      else Some t)"
  by pat_completeness auto
termination
  by (relation "measure (\<lambda>(cf, mem, pos, end, t). end - pos)") auto

declare synOptions.simps [simp del]

definition data_start :: "TcpHeader \<Rightarrow> int" where
  "data_start th = uint (data_offset th) * 4 - 20"

definition onSyn :: "Conf \<Rightarrow> Packet \<Rightarrow> 'a cs \<Rightarrow> 'a cs option" where
  "onSyn cf pkt s = (case s of (t, c) \<Rightarrow> do {
     let th = p_tcp pkt;
     let t = t\<lparr>recv_buf_seq := ntohl (seq_num th) + 1, pending_ack := True, has_ws := False, has_ts := False\<rparr>;
     t \<leftarrow> synOptions cf (p_rest pkt) 0 (nat (data_start th)) t;
     let t = (if \<not> has_ws t then t\<lparr>recv_wnd_shift := 0\<rparr> else t);
     if TimestampOption cf then
       if \<not> has_ts t then do {
         una \<leftarrow> getSendBuf cf t (send_una t) c;
         opt \<leftarrow> load_bytes 0 4 (body una);
         Some (t\<lparr>tcpsum := CSum_sub32 (word32 opt) (tcpsum t)\<rparr>, c)
       } else Some (t\<lparr>smss := smss t - 12\<rparr>, c)
     else Some (t, c)
   })"

text \<open>The headers of the connection are copied to all buffers from \<open>i\<close> on.\<close>

definition copyHeader :: "Conf \<Rightarrow> TcpConn \<Rightarrow> SendBuf \<Rightarrow> SendBuf \<Rightarrow> SendBuf option" where
  "copyHeader cf t syn buf = do {
     let buf = buf\<lparr>eth_hdr := (eth_hdr buf)\<lparr>dst_mac := dst_mac (eth_hdr syn)\<rparr>,
                   ip_hdr := (ip_hdr buf)\<lparr>dst_ip := dst_ip (ip_hdr syn)\<rparr>,
                   tcp_hdr := (tcp_hdr buf)\<lparr>src_port := src_port (tcp_hdr syn), dst_port := dst_port (tcp_hdr syn),
                     offset_flags := offset_flags (tcp_hdr syn)\<rparr>\<rparr>;
     if hasTs cf t then do {
       opt \<leftarrow> load_bytes 0 4 (body syn);
       mem \<leftarrow> store_bytes 0 opt (body buf);
       Some (buf\<lparr>body := mem\<rparr>)
     } else Some buf
   }"

fun copyHeaders :: "Conf \<Rightarrow> TcpConn \<Rightarrow> SendBuf \<Rightarrow> u32 list \<Rightarrow> 'a Core_scheme \<Rightarrow> 'a Core_scheme option" where
  "copyHeaders cf t syn [] c = Some c"
| "copyHeaders cf t syn (i # is) c = do {
     buf \<leftarrow> getSendBuf cf t i c;
     buf \<leftarrow> copyHeader cf t syn buf;
     c \<leftarrow> putSendBuf cf t i buf c;
     copyHeaders cf t syn is c
   }"

definition onEstablished :: "Conf \<Rightarrow> 'a cs EventHandler \<Rightarrow> Packet \<Rightarrow> 'a cs \<Rightarrow> 'a cs option" where
  "onEstablished cf hdl pkt s = (case s of (t, c) \<Rightarrow> do {
     let th = p_tcp pkt;
     let wnd = (ucast (ntohs (window_size th)) :: u32);
     let wnd = (if WindowScaleOption cf \<and> \<not> flag_syn th then push_bit (unat (send_wnd_shift t)) wnd else wnd);
     let t = t\<lparr>send_wnd_seq := ntohl (ack_num th) + wnd\<rparr>;
     let t = (if CongestionControlAlgo cf \<noteq> 0
              then t\<lparr>cwnd := smss t * (if 1095 < smss t then 3 else 4), ssthresh := push_bit 30 1\<rparr> else t);
     (t, c) \<leftarrow> updateBothWndSeq cf (t, c);
     let t = t\<lparr>established := True\<rparr>;
     syn \<leftarrow> getSendBuf cf t (send_una t) c;
     let h = (tcp_hdr syn)\<lparr>offset_flags := 0\<rparr>;
     let h = set_ack True (set_psh True (set_data_offset (if hasTs cf t then 8 else 5) h));
     let syn = syn\<lparr>tcp_hdr := h\<rparr>;
     c \<leftarrow> putSendBuf cf t (send_una t) syn c;
     let t = t\<lparr>tcpsum := CSum_add16 (offset_flags h) (tcpsum t)\<rparr>;
     let t = t\<lparr>srtt := max 1 (now_ts c - send_ts syn)\<rparr>;
     let t = t\<lparr>rttvar := drop_bit 1 (srtt t)\<rparr>;
     let t = updateRto cf t;
     c \<leftarrow> copyHeaders cf t syn (map of_nat [unat (send_next t)..<unat (ConnSendBufCnt cf)]) c;
     onConnectionEstablished hdl (t, c)
   })"

end
