(* ===== verification/TcpInput.thy ===== *)
theory TcpInput
  imports TcpConn
begin

text \<open>
  The input side of \<^verbatim>\<open>TcpConn\<close>: retransmission, timers, round-trip and congestion state, the
  reassembly of received segments, and \<^verbatim>\<open>onPack\<close>, which processes one packet of an
  established connection.
\<close>

subsection \<open>Retransmission\<close>

definition resendUna :: "Conf \<Rightarrow> bool \<Rightarrow> 'a cs \<Rightarrow> 'a cs option" where
  "resendUna cf reset_ssthresh s = (case s of (t, c) \<Rightarrow> do {
     let t = t\<lparr>retries := retries t + 1\<rparr>;
     una \<leftarrow> getSendBuf cf t (send_una t) c;
     let sm = CSum_of (ucast (NOT (tcp_checksum (tcp_hdr una))));
     let (a, t, c) = updateLastAck (t, c);
     let (sm, a) = CSum_setVar32 True (ack_num (tcp_hdr una)) a sm;
     let (sm, w) = CSum_setVar16 True (window_size (tcp_hdr una)) (getRecvWindowSize cf t) sm;
     let una = una\<lparr>tcp_hdr := (tcp_hdr una)\<lparr>ack_num := a, window_size := w\<rparr>\<rparr>;
     (sm, una) \<leftarrow> (if hasTs cf t then do {
         old \<leftarrow> load_bytes 4 4 (body una);
         let (sm, v) = CSum_setVar32 True (word32 old) (htonl (now_ts c)) sm;
         mem \<leftarrow> store_bytes 4 (bytes32 v) (body una);
         old \<leftarrow> load_bytes 8 4 mem;
         let (sm, v) = CSum_setVar32 True (word32 old) (htonl (recent_ts t)) sm;
         mem \<leftarrow> store_bytes 8 (bytes32 v) mem;
         Some (sm, una\<lparr>body := mem\<rparr>)
       } else Some (sm, una));
     let una = una\<lparr>tcp_hdr := (tcp_hdr una)\<lparr>tcp_checksum := CSum_fold sm\<rparr>\<rparr>;
     c \<leftarrow> putSendBuf cf t (send_una t) una c;
     c \<leftarrow> core_send (sbuf_idx cf t (send_una t)) c;
     una \<leftarrow> getSendBuf cf t (send_una t) c;
     c \<leftarrow> putSendBuf cf t (send_una t) (una\<lparr>send_ts := now_ts c\<rparr>) c;
     if reset_ssthresh then
       if CongestionControlAlgo cf = 1 then do {
         sn \<leftarrow> getSendSeq cf t (send_next t) c;
         Some (t\<lparr>ssthresh := max (drop_bit 1 (sn - ntohl (seq_num (tcp_hdr una)))) (push_bit 1 (smss t))\<rparr>, c)
       }
       else if CongestionControlAlgo cf = 2
       then Some (t\<lparr>ssthresh := max (cwnd t - drop_bit 2 (cwnd t)) (push_bit 1 (smss t))\<rparr>, c)
       else Some (t, c)
     else Some (t, c)
   })"

definition onTimer :: "Conf \<Rightarrow> 'a cs EventHandler \<Rightarrow> nat \<Rightarrow> 'a cs \<Rightarrow> 'a cs option" where
  "onTimer cf hdl timer_id s = (case s of (t, c) \<Rightarrow>
     if timer_id = 0 then
       if min 31 (if \<not> established t then SynRetries cf + 0 else TcpRetries cf) \<le> ucast (retries t) then do {
         s \<leftarrow> onConnectionTimeout hdl (t, c);
         conn_close cf s
       } else do {
         (t, c) \<leftarrow> resendUna cf (retries t = 0) (t, c);
         (t, c) \<leftarrow> (if CongestionControlAlgo cf \<noteq> 0 then do {
                        (t, c) \<leftarrow> updateBothWndSeq cf (t\<lparr>cwnd := smss t\<rparr>, c);
                        let t = t\<lparr>cong_av := False\<rparr>;
                        if CongestionControlAlgo cf = 2 then
                          if smss t = 0 then None
                          else Some (t\<lparr>cubic_k := 0, cubic_wmax := ssthresh t div smss t\<rparr>, c)
                        else Some (t, c)
                      } else Some (t, c));
         let t = t\<lparr>fast_re := False, in_recover := True, recover := send_next t, rto := push_bit 1 (rto t)\<rparr>;
         let t = (if MaxRtoMS cf < rto t then t\<lparr>rto := MaxRtoMS cf\<rparr> else t);
         Some (startResendTimer (t, c))
       }
     else if timer_id = 1 then sendAck cf True (t, c)
     else onUserTimeout hdl (of_nat (timer_id - 2)) (t, c))"

subsection \<open>Round-trip time and congestion window\<close>

definition updateRtt :: "int \<Rightarrow> TcpConn \<Rightarrow> TcpConn" where
  "updateRtt rtt t =
     (let t = t\<lparr>rttvar := rttvar t - of_int (sint (rttvar t - of_int \<bar>rtt - sint (srtt t)\<bar>) div 4)\<rparr>
      in t\<lparr>srtt := srtt t - of_int (sint (srtt t - of_int rtt) div 8)\<rparr>)"

text \<open>Congestion avoidance of the two algorithms; \<open>None\<close> is a division by zero.\<close>

definition congAvoid :: "Conf \<Rightarrow> u32 \<Rightarrow> TcpConn \<Rightarrow> TcpConn option" where
  "congAvoid cf now t =
     (let t = (if \<not> cong_av t then t\<lparr>cong_av_ts := now, cong_av := True\<rparr> else t);
          duration = ucast (now - cong_av_ts t) :: u64
      in if CongestionControlAlgo cf = 1 then
           if srtt t = 0 then None
           else Some (t\<lparr>cwnd := ucast (min (push_bit 30 1)
                  (ucast (ssthresh t) + ucast (smss t) * duration div ucast (srtt t)) :: u64)\<rparr>)
         else if CongestionControlAlgo cf = 2 then
           if 7 * srtt t = 0 then None
           else
             let w_est = (ucast (ssthresh t) + ucast (3 * smss t) * duration div ucast (7 * srtt t) :: u64);
                 t_k = drop_bit 10 duration - ucast (cubic_k t);
                 w_cubic = (signed_drop_bit 2 (t_k * t_k * t_k) + ucast (cubic_wmax t)) * ucast (smss t)
             in if w_cubic < w_est then Some (t\<lparr>cwnd := ucast (min (push_bit 30 1) w_est)\<rparr>)
                else if ucast (cwnd t) < w_cubic then
                  if cwnd t = 0 then None
                  else Some (t\<lparr>cwnd := cwnd t + ucast (ucast (smss t) * (w_cubic - ucast (cwnd t)) div ucast (cwnd t) :: u64)\<rparr>)
                else Some t
         else Some t)"

text \<open>The binary search for the cube root of \<^verbatim>\<open>cubic_wmax\<close>.\<close>

partial_function (option) cubicRoot :: "u32 \<Rightarrow> u32 \<Rightarrow> u32 \<Rightarrow> u32 option" where
  "cubicRoot wmax l r =
     (if l \<le> r then
        let m = drop_bit 1 (l + r)
        in if m * m * m \<le> wmax then cubicRoot wmax (m + 1) r else cubicRoot wmax l (m - 1)
      else Some r)"

declare cubicRoot.simps [code]

subsection \<open>Reassembly\<close>

text \<open>The two searches of the segment list, and the two loops that move its entries.\<close>

function seg_i :: "(u32 \<times> u32) list \<Rightarrow> nat \<Rightarrow> u32 \<Rightarrow> nat \<Rightarrow> nat" where
  "seg_i sg cnt b i = (if i < cnt \<and> snd (sg ! i) < b then seg_i sg cnt b (Suc i) else i)"
  by pat_completeness auto
termination by (relation "measure (\<lambda>(sg, cnt, b, i). cnt - i)") auto

function seg_j :: "(u32 \<times> u32) list \<Rightarrow> nat \<Rightarrow> u32 \<Rightarrow> nat \<Rightarrow> nat" where
  "seg_j sg cnt e j = (if j < cnt \<and> fst (sg ! j) \<le> e then seg_j sg cnt e (Suc j) else j)"
  by pat_completeness auto
termination by (relation "measure (\<lambda>(sg, cnt, e, j). cnt - j)") auto

fun shiftUp :: "(u32 \<times> u32) list \<Rightarrow> nat \<Rightarrow> nat \<Rightarrow> (u32 \<times> u32) list" where
  "shiftUp sg i 0 = sg"
| "shiftUp sg i (Suc j) = (if i < Suc j then shiftUp (sg[Suc j := sg ! j]) i j else sg)"

function shiftDown :: "(u32 \<times> u32) list \<Rightarrow> nat \<Rightarrow> nat \<Rightarrow> nat \<Rightarrow> (u32 \<times> u32) list \<times> nat" where
  "shiftDown sg i2 j cnt = (if j < cnt then shiftDown (sg[i2 := sg ! j]) (Suc i2) (Suc j) cnt else (sg, i2))"
  by pat_completeness auto
termination by (relation "measure (\<lambda>(sg, i2, j, cnt). cnt - j)") auto

declare seg_i.simps [simp del] seg_j.simps [simp del] shiftDown.simps [simp del]

text \<open>
  Entering the range from \<open>b\<close> to \<open>e\<close>: the result says where it went, whether it made a new hole,
  and gives the segments and their number.
\<close>

definition insertSeg :: "u32 \<Rightarrow> u32 \<Rightarrow> (u32 \<times> u32) list \<Rightarrow> nat \<Rightarrow> nat \<times> bool \<times> (u32 \<times> u32) list \<times> nat" where
  "insertSeg b e sg cnt =
     (let i = seg_i sg cnt b 0;
          j = seg_j sg cnt e i
      in if i = j then
           if i < MaxRecvSegs then
             let cnt = (if cnt = MaxRecvSegs then cnt - 1 else cnt);
                 sg = (shiftUp sg i cnt)[i := (b, e)]
             in (i, True, sg, cnt + 1)
           else (i, False, sg, cnt)
         else
           let sg = sg[i := (min (fst (sg ! i)) b, max (snd (sg ! (j - 1))) e)]
           in if i + 1 < j then
                let (sg, i2) = shiftDown sg (i + 1) j cnt in (i, False, sg, i2)
              else (i, False, sg, cnt))"

subsection \<open>Processing a packet\<close>

function tsOptions :: "u8 list \<Rightarrow> nat \<Rightarrow> nat \<Rightarrow> (bool \<times> u32 \<times> u32) option" where
  "tsOptions mem pos end =
     (if pos + 10 \<le> end then
        case arr_get mem pos of
          None \<Rightarrow> None
        | Some kind \<Rightarrow>
            if kind \<le> 1 then tsOptions mem (pos + 1) end
            else case arr_get mem (pos + 1) of
              None \<Rightarrow> None
            | Some len \<Rightarrow>
                if kind = 8 \<and> len = 10 then do {
                  v \<leftarrow> load_bytes (pos + 2) 4 mem;
                  w \<leftarrow> load_bytes (pos + 6) 4 mem;
                  Some (True, ntohl (word32 v), ntohl (word32 w))
                } else tsOptions mem (pos + 2 + (if 2 < len then unat (len - 2) else 0)) end
      else Some (False, 0, 0))"
  by pat_completeness auto
termination
  by (relation "measure (\<lambda>(mem, pos, end). end - pos)") auto

declare tsOptions.simps [simp del]

definition parseTs :: "Packet \<Rightarrow> (bool \<times> u32 \<times> u32) option" where
  "parseTs pkt = do {
     let end = nat (data_start (p_tcp pkt));
     let mem = p_rest pkt;
     first \<leftarrow> (if 12 \<le> end then map_option word32 (load_bytes 0 4 mem) else Some 0);
     if 12 \<le> end \<and> first = ntohl 0x0101080a then do {
       v \<leftarrow> load_bytes 4 4 mem;
       w \<leftarrow> load_bytes 8 4 mem;
       Some (True, ntohl (word32 v), ntohl (word32 w))
     } else tsOptions mem 0 end
   }"

text \<open>The acknowledgement moves \<^verbatim>\<open>send_una\<close> over every segment it covers.\<close>

function ackLoop :: "Conf \<Rightarrow> u32 \<Rightarrow> TcpConn \<Rightarrow> 'a Core_scheme \<Rightarrow> TcpConn option" where
  "ackLoop cf ack t c =
     (if send_una t = send_next t then Some t
      else case getSendSeq cf t (send_una t + 1) c of
             None \<Rightarrow> None
           | Some sq \<Rightarrow> if slt0 (ack - sq) then Some t
                        else ackLoop cf ack (t\<lparr>send_una := send_una t + 1\<rparr>) c)"
  by pat_completeness auto
termination
proof (relation "measure (\<lambda>(cf, ack, t, c). unat (send_next t - send_una t))", goal_cases)
  case (2 cf ack t c sq)
  then have "send_next t - send_una t \<noteq> 0" by simp
  then have "unat (send_next t - send_una t - 1) < unat (send_next t - send_una t)" by (rule unat_dec_less)
  then show ?case by (simp add: diff_diff_eq)
qed simp

declare ackLoop.simps [simp del]

text \<open>New data was acknowledged.\<close>

definition newlyAcked :: "Conf \<Rightarrow> bool \<Rightarrow> u32 \<Rightarrow> u32 \<Rightarrow> 'a cs \<Rightarrow> 'a cs option" where
  "newlyAcked cf got_ts tsecr old_una s = (case s of (t, c) \<Rightarrow> do {
     let t = t\<lparr>dup_ack_cnt := 0, retries := 0\<rparr>;
     acked \<leftarrow> getSendBuf cf t old_una c;
     una_seq \<leftarrow> getSendSeq cf t (send_una t) c;
     let newly_acked_size = una_seq - ntohl (seq_num (tcp_hdr acked));
     let sts = (if TimestampOption cf \<and> got_ts then tsecr else send_ts acked);
     let rtt = max 1 (sint (now_ts c - sts));
     let t = updateRto cf (updateRtt rtt t);
     let c = c\<lparr>timers := unlink (ctimer t 0) (timers c)\<rparr>;
     let (t, c) = (if send_una t \<noteq> send_next t then startResendTimer (t, c) else (t, c));
     if in_recover t then
       if slt0 (send_una t - recover t) then resendUna cf False (t, c)
       else
         let t = (if sint (send_una t - recover t) > 0 then t\<lparr>in_recover := False\<rparr> else t);
             t = t\<lparr>fast_re := False\<rparr>
         in Some (if CongestionControlAlgo cf \<noteq> 0 then t\<lparr>cwnd := ssthresh t\<rparr> else t, c)
     else if CongestionControlAlgo cf \<noteq> 0 then
       if cwnd t < ssthresh t then Some (t\<lparr>cwnd := cwnd t + min (smss t) newly_acked_size\<rparr>, c)
       else if cwnd t < push_bit 30 1 then do { t \<leftarrow> congAvoid cf (now_ts c) t; Some (t, c) }
       else Some (t, c)
     else Some (t, c)
   })"

text \<open>A duplicate acknowledgement; the result includes the temporary increase of the window.\<close>

definition dupAck :: "Conf \<Rightarrow> 'a cs \<Rightarrow> (u32 \<times> 'a cs) option" where
  "dupAck cf s = (case s of (t, c) \<Rightarrow>
     let t = t\<lparr>dup_ack_cnt := dup_ack_cnt t + 1\<rparr>
     in if dup_ack_cnt t = 3 \<and> \<not> in_recover t then do {
          let t = t\<lparr>fast_re := True, in_recover := True, recover := send_next t\<rparr>;
          (t, c) \<leftarrow> resendUna cf True (t, c);
          let t = (if CongestionControlAlgo cf \<noteq> 0 then t\<lparr>cong_av := False\<rparr> else t);
          let t = (if CongestionControlAlgo cf = 1 then t\<lparr>cwnd := ssthresh t + 3 * smss t\<rparr> else t);
          if CongestionControlAlgo cf = 2 then
            if smss t = 0 then None
            else do {
              let t = t\<lparr>cubic_wmax := cwnd t div smss t, cwnd := ssthresh t\<rparr>;
              k \<leftarrow> cubicRoot (cubic_wmax t) 1 124;
              Some (0, t\<lparr>cubic_k := k\<rparr>, c)
            }
          else Some (0, t, c)
        }
        else if CongestionControlAlgo cf \<noteq> 0 then
          if fast_re t then Some (0, t\<lparr>cwnd := cwnd t + smss t\<rparr>, c)
          else let tmp = dup_ack_cnt t * smss t in Some (tmp, t\<lparr>cwnd := cwnd t + tmp\<rparr>, c)
        else Some (0, t, c))"

text \<open>The loop that sends what the window now allows.\<close>

partial_function (option) sendUnsent :: "Conf \<Rightarrow> 'a cs \<Rightarrow> 'a cs option" where
  "sendUnsent cf s = (case s of (t, c) \<Rightarrow>
     let data_size = (if data_next t = send_next t then data_next_size t else smss t) in
     if data_size = 0 then Some s
     else Option.bind (getSendBuf cf t (send_next t) c) (\<lambda>nb.
       if sint (ntohl (seq_num (tcp_hdr nb)) + data_size - both_wnd_seq t) > 0 then Some s
       else
         Option.bind
           (if data_next t = send_next t then
              Option.bind (putSendBuf cf t (send_next t) (nb\<lparr>tcp_hdr := set_fin (fin_sent t) (tcp_hdr nb)\<rparr>) c) (\<lambda>c.
              Option.bind (sendBuf cf (data_size - of_bool (fin_sent t)) (data_sum t) (send_next t) (t, c)) (\<lambda>(t, c).
              Some (advanceData t, c)))
            else sendBuf cf data_size (CSum_of (ack_num (tcp_hdr nb))) (send_next t) (t, c))
           (\<lambda>s. Option.bind (advanceNext cf data_size s) (sendUnsent cf))))"


text \<open>
  Bytes move inside the receive buffer with \<^verbatim>\<open>memcpy\<close>, which is undefined when the two
  ranges overlap.
\<close>

definition memcpy_down :: "nat \<Rightarrow> nat \<Rightarrow> u8 list \<Rightarrow> u8 list option" where
  "memcpy_down src n mem = do {
     bs \<leftarrow> load_bytes src n mem;
     if src < n then None else store_bytes 0 bs mem
   }"

abbreviation seg_first :: "TcpConn \<Rightarrow> u32" where "seg_first t \<equiv> fst (segs t ! 0)"
abbreviation seg_second :: "TcpConn \<Rightarrow> u32" where "seg_second t \<equiv> snd (segs t ! 0)"
abbreviation set_seg_first :: "u32 \<Rightarrow> TcpConn \<Rightarrow> TcpConn" where
  "set_seg_first v t \<equiv> t\<lparr>segs := (segs t)[0 := (v, seg_second t)]\<rparr>"

text \<open>The first segment is offered to the user, who says how many bytes at its end remain.\<close>

definition deliver ::
  "Conf \<Rightarrow> 'a cs EventHandler \<Rightarrow> nat \<Rightarrow> u8 list \<Rightarrow> u32 \<Rightarrow> u32 \<Rightarrow> 'a cs \<Rightarrow> 'a cs option" where
  "deliver cf hdl i data b e s = (case s of (t, c) \<Rightarrow>
     if (seg_first t - b) OR (seg_second t - e) = 0 then do {
       (remaining, t, c) \<leftarrow> onData hdl data (t, c);
       let t = set_seg_first (seg_second t - remaining) t;
       if length data < unat remaining then None
       else do {
         mem \<leftarrow> store_bytes (unat (seg_first t)) (drop (length data - unat remaining) data) (recv_buf t);
         Some (t\<lparr>recv_buf := mem\<rparr>, c)
       }
     } else do {
       mem \<leftarrow> store_bytes (unat b) data (recv_buf t);
       let t = t\<lparr>recv_buf := mem\<rparr>;
       if i = 0 then do {
         bytes \<leftarrow> load_bytes (unat (seg_first t)) (unat (seg_second t - seg_first t)) (recv_buf t);
         (remaining, t, c) \<leftarrow> onData hdl bytes (t, c);
         Some (set_seg_first (seg_second t - remaining) t, c)
       } else Some (t, c)
     })"

text \<open>Moving the window of the receive buffer once enough of it is consumed.\<close>

definition compact :: "Conf \<Rightarrow> TcpConn \<Rightarrow> TcpConn option" where
  "compact cf t =
     (if getRMSS cf t \<le> seg_first t then do {
        lst \<leftarrow> arr_get (segs t) (unat (recv_seg_cnt t - 1));
        if seg_first t = snd lst then
          Some (t\<lparr>recv_buf_seq := recv_buf_seq t + seg_first t, segs := (segs t)[0 := (0, 0)]\<rparr>)
        else if ConnRecvBufSize cf div 2 \<le> seg_first t then do {
          mem \<leftarrow> memcpy_down (unat (seg_first t)) (unat (snd lst - seg_first t)) (recv_buf t);
          let diff = seg_first t;
          Some (t\<lparr>recv_buf := mem, recv_buf_seq := recv_buf_seq t + diff,
                  segs := map (\<lambda>(a, b). (a - diff, b - diff)) (take (unat (recv_seg_cnt t)) (segs t))
                    @ drop (unat (recv_seg_cnt t)) (segs t)\<rparr>)
        } else Some t
      } else Some t)"

text \<open>
  The data of a segment in the window. The result says whether the connection was given up because
  the buffer is full of data that the user does not take, whether to acknowledge at once, and
  whether a FIN may be processed.
\<close>

definition recvData ::
  "Conf \<Rightarrow> 'a cs EventHandler \<Rightarrow> u8 list \<Rightarrow> u32 \<Rightarrow> u32 \<Rightarrow> bool \<Rightarrow> 'a cs \<Rightarrow> (bool \<times> bool \<times> bool \<times> 'a cs) option" where
  "recvData cf hdl data b e fin_available s = (case s of (t, c) \<Rightarrow> do {
     let t = t\<lparr>pending_ack := True\<rparr>;
     let immediate_ack = (1 < recv_seg_cnt t);
     let (i, hole, sg, cnt) = insertSeg b e (segs t) (unat (recv_seg_cnt t));
     let t = t\<lparr>segs := sg, recv_seg_cnt := of_nat cnt\<rparr>;
     let fin_available = (fin_available \<and> seg_second t = e);
     (t, c) \<leftarrow> deliver cf hdl i data b e (t, c);
     t \<leftarrow> compact cf t;
     if seg_second t = ConnRecvBufSize cf then do {
       s \<leftarrow> onConnectionReset hdl (t, c);
       s \<leftarrow> conn_close cf s;
       Some (True, False, False, s)
     } else Some (False, immediate_ack \<or> hole, fin_available, t, c)
   })"

definition recvFin :: "'a cs EventHandler \<Rightarrow> 'a cs \<Rightarrow> 'a cs option" where
  "recvFin hdl s = (case s of (t, c) \<Rightarrow> do {
     let t = t\<lparr>pending_ack := True, fin_received := True, segs := (segs t)[0 := (seg_first t, seg_second t + 1)]\<rparr>;
     bytes \<leftarrow> load_bytes (unat (seg_first t)) (unat (seg_second t - seg_first t - 1)) (recv_buf t);
     onFin hdl bytes (t, c)
   })"

definition recvSegment ::
  "Conf \<Rightarrow> 'a cs EventHandler \<Rightarrow> Packet \<Rightarrow> u32 \<Rightarrow> u32 \<Rightarrow> 'a cs \<Rightarrow> (bool \<times> bool \<times> 'a cs) option" where
  "recvSegment cf hdl pkt data_buf_loc data_end_loc s = (case s of (t, c) \<Rightarrow> do {
     let th = p_tcp pkt;
     let data = data_start th;
     let seq_expect_diff = sint (data_buf_loc - seg_second t);
     let (data_buf_loc, data) = (if seq_expect_diff < 0
        then (data_buf_loc - of_int seq_expect_diff, data - seq_expect_diff) else (data_buf_loc, data));
     if \<not> fin_received t then do {
       let data_end_loc = data_end_loc - of_bool (flag_fin th);
       let fin_available = flag_fin th;
       let (data_end_loc, fin_available) = (if ConnRecvBufSize cf < data_end_loc
          then (ConnRecvBufSize cf, False) else (data_end_loc, fin_available));
       let data_size = sint (data_end_loc - data_buf_loc);
       (returned, immediate_ack, fin_available, s) \<leftarrow>
         (if data_size > 0 then
            if data < 0 then None
            else do {
              bytes \<leftarrow> load_bytes (nat data) (nat data_size) (p_rest pkt);
              recvData cf hdl bytes data_buf_loc data_end_loc fin_available (t, c)
            }
          else Some (False, False, fin_available \<and> data_buf_loc = seg_second t, t, c));
       if returned then Some (True, False, s)
       else if fin_available then do {
         s \<leftarrow> recvFin hdl s;
         Some (False, True, s)
       } else Some (False, immediate_ack, s)
     } else Some (False, False, t, c)
   })"

text \<open>The window test: neither end of the segment lies in the window.\<close>

definition outOfWindow :: "Conf \<Rightarrow> TcpConn \<Rightarrow> u32 \<Rightarrow> u32 \<Rightarrow> bool" where
  "outOfWindow cf t b e \<longleftrightarrow>
     (slt0 (b - seg_second t) \<or> \<not> slt0 (b - ConnRecvBufSize cf))
     \<and> (sle0 (e - seg_second t) \<or> \<not> sle0 (e - ConnRecvBufSize cf))"

definition onPack :: "Conf \<Rightarrow> 'a cs EventHandler \<Rightarrow> Packet \<Rightarrow> 'a cs \<Rightarrow> 'a cs option" where
  "onPack cf hdl pkt s = (case s of (t, c) \<Rightarrow> do {
     let th = p_tcp pkt;
     let data = data_start th;
     let data_end = min (uint (ntohs (tot_len (p_ip pkt)))) 1500 - 40;
     let sq = ntohl (seq_num th) + of_bool (flag_syn th);
     (got_ts, tsval, tsecr) \<leftarrow> (if hasTs cf t then parseTs pkt else Some (False, 0, 0));
     let t = (if got_ts \<and> sle0 (sq - last_ack_seq t) \<and> \<not> slt0 (tsval - recent_ts t)
              then t\<lparr>recent_ts := tsval\<rparr> else t);
     let data_buf_loc = sq - recv_buf_seq t;
     let data_end_loc = data_buf_loc + of_int (data_end - data + of_bool (flag_fin th));
     if outOfWindow cf t data_buf_loc data_end_loc
        \<or> (TimestampOption cf \<and> got_ts \<and> slt0 (tsval - recent_ts t))
     then if \<not> flag_rst th then sendAck cf False (t, c) else Some (t, c)
     else if flag_rst th then do {
       s \<leftarrow> (if \<not> fin_sent t \<or> \<not> fin_received t then onConnectionReset hdl (t, c) else Some (t, c));
       onClose cf False s
     }
     else if \<not> flag_ack th then Some (t, c)
     else do {
       let ack = ntohl (ack_num th);
       let wnd = (ucast (ntohs (window_size th)) :: u32);
       let wnd = (if WindowScaleOption cf \<and> \<not> flag_syn th then push_bit (unat (send_wnd_shift t)) wnd else wnd);
       let window_updated = (\<not> fin_sent t \<and> sint (ack + wnd - send_wnd_seq t) > 0);
       let t = (if window_updated then t\<lparr>send_wnd_seq := ack + wnd\<rparr> else t);
       let old_una = send_una t;
       t \<leftarrow> ackLoop cf ack t c;
       (tmp_cwnd, s) \<leftarrow>
         (if old_una \<noteq> send_una t then map_option (Pair 0) (newlyAcked cf got_ts tsecr old_una (t, c))
          else if send_una t \<noteq> send_next t \<and> \<not> window_updated \<and> data_buf_loc = data_end_loc then dupAck cf (t, c)
          else Some (0, t, c));
       let acked = (old_una \<noteq> send_una t);
       s \<leftarrow> updateBothWndSeq cf s;
       s \<leftarrow> sendUnsent cf s;
       s \<leftarrow> (if CongestionControlAlgo cf \<noteq> 0
             then case s of (t, c) \<Rightarrow> updateBothWndSeq cf (t\<lparr>cwnd := cwnd t - tmp_cwnd\<rparr>, c)
             else Some s);
       s \<leftarrow> (if acked then onMoreSendable hdl s else Some s);
       (returned, immediate_ack, t, c) \<leftarrow> recvSegment cf hdl pkt data_buf_loc data_end_loc s;
       if returned then Some (t, c)
       else do {
         (t, c) \<leftarrow> (if pending_ack t
           then sendAck cf (immediate_ack \<or> 2 * getRMSS cf t \<le> recv_buf_seq t + seg_second t - last_ack_seq t) (t, c)
           else Some (t, c));
         if fin_sent t \<and> fin_received t \<and> established t \<and> send_una t = data_next t then do {
           s \<leftarrow> onConnectionClosed hdl (t, c);
           onClose cf True s
         } else Some (t, c)
       }
     }
   })"

end
