(* ===== verification/Segments.thy ===== *)
theory Segments
  imports TcpInput
begin

text \<open>
  The list of received ranges that \<^verbatim>\<open>TcpConn::onPack\<close> keeps in the array \<^verbatim>\<open>segs\<close>:
  a specification of the insertion on lists, the refinement of the array code to it, and what
  insertion means for the set of received positions.
\<close>

type_synonym seg = "u32 \<times> u32"

subsection \<open>The array loops\<close>

lemma seg_i_val:
  "i \<le> cnt \<Longrightarrow> cnt \<le> length sg \<Longrightarrow>
     seg_i sg cnt b i = i + length (takeWhile (\<lambda>s. snd s < b) (drop i (take cnt sg)))"
proof (induction sg cnt b i rule: seg_i.induct)
  case (1 sg cnt b i)
  show ?case
  proof (cases "i < cnt")
    case True
    then have "drop i (take cnt sg) = sg ! i # drop (Suc i) (take cnt sg)"
      using 1(3) by (metis Cons_nth_drop_Suc length_take min.absorb2 nth_take)
    with 1 True show ?thesis by (simp add: seg_i.simps [of sg cnt b i])
  next
    case False
    with 1 show ?thesis by (subst seg_i.simps) simp
  qed
qed

lemma seg_j_val:
  "j \<le> cnt \<Longrightarrow> cnt \<le> length sg \<Longrightarrow>
     seg_j sg cnt e j = j + length (takeWhile (\<lambda>s. fst s \<le> e) (drop j (take cnt sg)))"
proof (induction sg cnt e j rule: seg_j.induct)
  case (1 sg cnt e j)
  show ?case
  proof (cases "j < cnt")
    case True
    then have "drop j (take cnt sg) = sg ! j # drop (Suc j) (take cnt sg)"
      using 1(3) by (metis Cons_nth_drop_Suc length_take min.absorb2 nth_take)
    with 1 True show ?thesis by (simp add: seg_j.simps [of sg cnt e j])
  next
    case False
    with 1 show ?thesis by (subst seg_j.simps) simp
  qed
qed

lemma shiftUp_val:
  "j < length sg \<Longrightarrow> length (shiftUp sg i j) = length sg \<and>
     (\<forall>k < length sg. shiftUp sg i j ! k = (if i < k \<and> k \<le> j then sg ! (k - 1) else sg ! k))"
proof (induction j arbitrary: sg)
  case (Suc j)
  show ?case
  proof (cases "i < Suc j")
    case True
    let ?s = "sg[Suc j := sg ! j]"
    have "j < length ?s" using Suc.prems by simp
    from Suc.IH [OF this] True Suc.prems show ?thesis
      by (auto simp: nth_list_update le_Suc_eq)
  qed auto
qed auto

lemma shiftDown_val:
  "i2 \<le> j \<Longrightarrow> j \<le> cnt \<Longrightarrow> cnt \<le> length sg \<Longrightarrow>
     snd (shiftDown sg i2 j cnt) = i2 + (cnt - j) \<and> length (fst (shiftDown sg i2 j cnt)) = length sg \<and>
     (\<forall>k < length sg. fst (shiftDown sg i2 j cnt) ! k
        = (if i2 \<le> k \<and> k < i2 + (cnt - j) then sg ! (k + (j - i2)) else sg ! k))"
proof (induction sg i2 j cnt rule: shiftDown.induct)
  case (1 sg i2 j cnt)
  show ?case
  proof (cases "j < cnt")
    case True
    let ?s = "sg[i2 := sg ! j]"
    have IH: "snd (shiftDown ?s (Suc i2) (Suc j) cnt) = Suc i2 + (cnt - Suc j)"
        "length (fst (shiftDown ?s (Suc i2) (Suc j) cnt)) = length sg"
        "\<And>k. k < length sg \<Longrightarrow> fst (shiftDown ?s (Suc i2) (Suc j) cnt) ! k
          = (if Suc i2 \<le> k \<and> k < Suc i2 + (cnt - Suc j) then ?s ! (k + (Suc j - Suc i2)) else ?s ! k)"
      using 1(1) [OF True] 1(2-4) True by auto
    have "fst (shiftDown sg i2 j cnt) ! k = (if i2 \<le> k \<and> k < i2 + (cnt - j) then sg ! (k + (j - i2)) else sg ! k)"
      if k: "k < length sg" for k
      using IH(3) [OF k] True k 1(2-4) by (subst shiftDown.simps) (auto simp: nth_list_update)
    then show ?thesis using IH(1,2) True by (subst (1 2) shiftDown.simps) auto
  next
    case False
    then have "shiftDown sg i2 j cnt = (sg, i2)" by (subst shiftDown.simps) simp
    with False 1(2-4) show ?thesis by simp
  qed
qed

subsection \<open>Refinement to lists\<close>

definition seg_insert :: "u32 \<Rightarrow> u32 \<Rightarrow> seg list \<Rightarrow> seg list" where
  "seg_insert b e xs =
     (let pre = takeWhile (\<lambda>s. snd s < b) xs;
          rest = drop (length pre) xs;
          mid = takeWhile (\<lambda>s. fst s \<le> e) rest;
          post = drop (length mid) rest
      in if mid = [] then
           if length pre < MaxRecvSegs then pre @ (b, e) # take (MaxRecvSegs - 1 - length pre) post else xs
         else pre @ (min (fst (hd mid)) b, max (snd (last mid)) e) # post)"

lemma takeWhile_take_length: "takeWhile P xs = take (length (takeWhile P xs)) xs"
  by (metis append_eq_conv_conj takeWhile_dropWhile_id)

lemma insertSeg_refines:
  assumes len: "length sg = MaxRecvSegs" "cnt \<le> MaxRecvSegs" and r: "insertSeg b e sg cnt = (i, hole, sg', cnt')"
  shows "length sg' = MaxRecvSegs \<and> cnt' \<le> MaxRecvSegs \<and> take cnt' sg' = seg_insert b e (take cnt sg)
    \<and> i = length (takeWhile (\<lambda>s. snd s < b) (take cnt sg))
    \<and> (hole \<longleftrightarrow> i < MaxRecvSegs \<and> takeWhile (\<lambda>s. fst s \<le> e) (drop i (take cnt sg)) = [])"
proof -
  let ?xs = "take cnt sg"
  define pre where "pre = takeWhile (\<lambda>s. snd s < b) ?xs"
  define mid where "mid = takeWhile (\<lambda>s. fst s \<le> e) (drop (length pre) ?xs)"
  define n where "n = length pre"
  define j where "j = n + length mid"
  have si: "seg_i sg cnt b 0 = n" using seg_i_val [of 0 cnt sg b] len by (simp add: n_def pre_def)
  have ncnt: "n \<le> cnt" using length_takeWhile_le [of _ ?xs] len by (auto simp: n_def pre_def)
  have sj: "seg_j sg cnt e n = j" using seg_j_val [of n cnt sg e] ncnt len by (simp add: j_def mid_def n_def)
  have jcnt: "j \<le> cnt"
    using length_takeWhile_le [of "\<lambda>s. fst s \<le> e" "drop n ?xs"] ncnt len by (simp add: j_def mid_def n_def)
  have pre: "take n ?xs = pre" unfolding n_def pre_def by (rule takeWhile_take_length [symmetric])
  have mid': "takeWhile (\<lambda>s. fst s \<le> e) (drop n ?xs) = mid" by (simp add: mid_def n_def)
  have midt: "mid = take (length mid) (drop n ?xs)" unfolding n_def mid_def by (rule takeWhile_take_length)
  have spec: "seg_insert b e ?xs = (if mid = [] then
       if n < MaxRecvSegs then pre @ (b, e) # take (MaxRecvSegs - 1 - n) (drop n ?xs) else ?xs
     else pre @ (min (fst (hd mid)) b, max (snd (last mid)) e) # drop j ?xs)"
    unfolding seg_insert_def Let_def pre_def [symmetric] mid_def [symmetric]
    by (simp add: n_def j_def add.commute)
  show ?thesis
  proof (cases "mid = []")
    case True
    then have nj: "j = n" by (simp add: j_def)
    show ?thesis
    proof (cases "n < MaxRecvSegs")
      case n: True
      define m where "m = (if cnt = MaxRecvSegs then cnt - 1 else cnt)"
      have m: "n \<le> m" "m < length sg" "m \<le> cnt" using n ncnt len by (auto simp: m_def)
      have res: "i = n" "hole" "sg' = (shiftUp sg n m)[n := (b, e)]" "cnt' = m + 1"
        using r n by (auto simp: insertSeg_def si sj nj Let_def m_def)
      have up: "length (shiftUp sg n m) = length sg"
          "\<And>k. k < length sg \<Longrightarrow> shiftUp sg n m ! k = (if n < k \<and> k \<le> m then sg ! (k - 1) else sg ! k)"
        using shiftUp_val [OF m(2), of n] by auto
      have "take (m + 1) sg' = take n ?xs @ (b, e) # take (m - n) (drop n ?xs)"
      proof (rule nth_equalityI)
        show "length (take (m + 1) sg') = length (take n ?xs @ (b, e) # take (m - n) (drop n ?xs))"
          using m ncnt len by (simp add: res up(1))
        fix k assume "k < length (take (m + 1) sg')"
        then have k: "k \<le> m" "k < length sg" using m by (auto simp: res up(1))
        show "take (m + 1) sg' ! k = (take n ?xs @ (b, e) # take (m - n) (drop n ?xs)) ! k"
          using k m ncnt len up(2) [OF k(2)] by (auto simp: res up(1) nth_list_update nth_append nth_Cons')
      qed
      moreover have "take (m - n) (drop n ?xs) = take (MaxRecvSegs - 1 - n) (drop n ?xs)"
        using len by (auto simp: m_def)
      ultimately show ?thesis
        using True n len m pre unfolding spec pre_def [symmetric] n_def [symmetric] by (simp add: res up(1) mid')
    next
      case False
      then have "i = n" "\<not> hole" "sg' = sg" "cnt' = cnt" using r by (auto simp: insertSeg_def si sj nj Let_def)
      with False True len show ?thesis
        unfolding spec pre_def [symmetric] n_def [symmetric] by (simp add: mid')
    qed
  next
    case False
    then have nj: "n < j" by (simp add: j_def)
    have hm: "hd mid = sg ! n"
    proof -
      have "hd mid = drop n ?xs ! 0" using False midt by (metis gr0I hd_conv_nth length_0_conv nth_take)
      then show ?thesis using nj jcnt len by simp
    qed
    have lm: "last mid = sg ! (j - 1)"
    proof -
      have "last mid = drop n ?xs ! (length mid - 1)"
        using False midt by (metis diff_less last_conv_nth length_greater_0_conv less_one nth_take)
      moreover have "n + (length mid - 1) = j - 1" "j - 1 < cnt" using False nj jcnt by (cases mid; simp add: j_def)+
      ultimately show ?thesis using jcnt len by simp
    qed
    let ?m = "(min (fst (sg ! n)) b, max (snd (sg ! (j - 1))) e)"
    define s where "s = sg[n := ?m]"
    have sn: "s ! q = (if q = n then ?m else sg ! q)" if "q < length sg" for q
      using that by (simp add: s_def nth_list_update)
    have ih: "i = n" "\<not> hole" using r nj by (auto simp: insertSeg_def si sj Let_def split: if_splits prod.splits)
    have act: "length sg' = MaxRecvSegs \<and> cnt' = n + 1 + (cnt - j) \<and> take cnt' sg' = take n ?xs @ ?m # drop j ?xs"
    proof (cases "n + 1 < j")
      case True
      have down: "snd (shiftDown s (Suc n) j cnt) = n + 1 + (cnt - j)" "length (fst (shiftDown s (Suc n) j cnt)) = length sg"
        "\<And>k. k < length sg \<Longrightarrow> fst (shiftDown s (Suc n) j cnt) ! k
          = (if n + 1 \<le> k \<and> k < n + 1 + (cnt - j) then s ! (k + (j - (Suc n))) else s ! k)"
        using shiftDown_val [of "Suc n" j cnt s] True jcnt len by (auto simp: s_def)
      have res: "sg' = fst (shiftDown s (Suc n) j cnt)" "cnt' = snd (shiftDown s (Suc n) j cnt)"
        using r nj True by (auto simp: insertSeg_def si sj Let_def s_def split: prod.splits)
      have "take cnt' sg' = take n ?xs @ ?m # drop j ?xs"
      proof (rule nth_equalityI)
        show "length (take cnt' sg') = length (take n ?xs @ ?m # drop j ?xs)"
          using True jcnt len ncnt by (simp add: res down(1,2))
        fix k assume "k < length (take cnt' sg')"
        then have k: "k < n + 1 + (cnt - j)" "k < length sg" by (auto simp: res down(1,2))
        show "take cnt' sg' ! k = (take n ?xs @ ?m # drop j ?xs) ! k"
          using k True jcnt len ncnt down(3) [OF k(2)]
          by (auto simp: res down(1) sn nth_append nth_Cons' add.commute [of j k])
      qed
      then show ?thesis using len by (simp add: res down(1,2))
    next
      case False
      then have j: "j = n + 1" using nj by simp
      have res: "sg' = s" "cnt' = cnt" using r j by (auto simp: insertSeg_def si sj Let_def s_def)
      have "take cnt s = take n ?xs @ ?m # drop j ?xs"
        using jcnt len j by (simp add: s_def upd_conv_take_nth_drop take_Cons' drop_take)
      then show ?thesis using len jcnt j by (simp add: res s_def)
    qed
    then show ?thesis using False jcnt nj ncnt len
      unfolding spec pre_def [symmetric] n_def [symmetric] pre by (auto simp: ih hm lm mid')
  qed
qed

subsection \<open>Ranges\<close>

text \<open>The ranges are in order and no two touch; \<open>seg_set\<close> is the set of positions they hold.\<close>

definition segs_ok :: "seg list \<Rightarrow> bool" where
  "segs_ok xs \<longleftrightarrow> (\<forall>s \<in> set xs. fst s \<le> snd s) \<and> sorted_wrt (\<lambda>s t. snd s < fst t) xs"

definition seg_set :: "seg list \<Rightarrow> u32 set" where
  "seg_set xs = (\<Union>s \<in> set xs. {fst s..<snd s})"

lemma seg_set_simps [simp]:
  "seg_set [] = {}" "seg_set (s # xs) = {fst s..<snd s} \<union> seg_set xs" "seg_set (xs @ ys) = seg_set xs \<union> seg_set ys"
  by (auto simp: seg_set_def)

lemma segs_ok_append:
  "segs_ok (xs @ ys) \<longleftrightarrow> segs_ok xs \<and> segs_ok ys \<and> (\<forall>s \<in> set xs. \<forall>t \<in> set ys. snd s < fst t)"
  by (auto simp: segs_ok_def sorted_wrt_append)

lemma segs_ok_Cons:
  "segs_ok (s # xs) \<longleftrightarrow> fst s \<le> snd s \<and> segs_ok xs \<and> (\<forall>t \<in> set xs. snd s < fst t)"
  by (auto simp: segs_ok_def)

lemma segs_ok_take: "segs_ok xs \<Longrightarrow> segs_ok (take n xs)"
  using segs_ok_append [of "take n xs" "drop n xs"] by simp

lemma segs_ok_last:
  assumes "segs_ok xs" "s \<in> set xs"
  shows "snd s \<le> snd (last xs)"
  using assms
proof (induction xs)
  case (Cons x xs)
  show ?case
  proof (cases "xs = []")
    case False
    have "snd x < fst (last xs)" "fst (last xs) \<le> snd (last xs)"
      using Cons.prems(1) False by (auto simp: segs_ok_def)
    then have "snd x \<le> snd (last xs)" by simp
    then show ?thesis using Cons False by (auto simp: segs_ok_Cons)
  qed (use Cons in simp)
qed simp

lemma segs_ok_first:
  assumes "segs_ok xs" "s \<in> set xs"
  shows "fst (hd xs) \<le> fst s" "snd (hd xs) \<le> snd s"
proof -
  obtain x ys where xs: "xs = x # ys" using assms(2) by (cases xs) auto
  have "s = x \<or> fst x \<le> snd x \<and> snd x < fst s \<and> fst s \<le> snd s"
    using assms by (auto simp: xs segs_ok_def)
  then show "fst (hd xs) \<le> fst s" "snd (hd xs) \<le> snd s" by (auto simp: xs)
qed

text \<open>The three parts of a list at a range, as the insertion computes them.\<close>

definition seg_parts :: "u32 \<Rightarrow> u32 \<Rightarrow> seg list \<Rightarrow> seg list \<Rightarrow> seg list \<Rightarrow> seg list \<Rightarrow> bool" where
  "seg_parts b e xs pre mid post \<longleftrightarrow> xs = pre @ mid @ post \<and> (\<forall>s \<in> set pre. snd s < b)
     \<and> (\<forall>s \<in> set mid. b \<le> snd s \<and> fst s \<le> e) \<and> (\<forall>s \<in> set post. b \<le> snd s \<and> e < fst s)"

lemma seg_insert_parts:
  assumes ok: "segs_ok xs"
  obtains pre mid post where "seg_parts b e xs pre mid post" "pre = takeWhile (\<lambda>s. snd s < b) xs"
    "seg_insert b e xs = (if mid = [] then
       if length pre < MaxRecvSegs then pre @ (b, e) # take (MaxRecvSegs - 1 - length pre) post else xs
     else pre @ (min (fst (hd mid)) b, max (snd (last mid)) e) # post)"
proof -
  define pre where "pre = takeWhile (\<lambda>s. snd s < b) xs"
  define rest where "rest = dropWhile (\<lambda>s. snd s < b) xs"
  define mid where "mid = takeWhile (\<lambda>s. fst s \<le> e) rest"
  define post where "post = dropWhile (\<lambda>s. fst s \<le> e) rest"
  have xr: "xs = pre @ rest" and rm: "rest = mid @ post" by (simp_all add: pre_def rest_def mid_def post_def)
  have okr: "segs_ok rest" and okp: "segs_ok post" using ok by (simp_all add: xr rm segs_ok_append)
  have "b \<le> snd s" if "s \<in> set rest" for s
  proof -
    have "rest \<noteq> []" using that by auto
    then have "\<not> snd (hd rest) < b" unfolding rest_def by (rule hd_dropWhile)
    then show ?thesis using segs_ok_first(2) [OF okr that] by simp
  qed
  moreover have "e < fst s" if "s \<in> set post" for s
  proof -
    have "post \<noteq> []" using that by auto
    then have "\<not> fst (hd post) \<le> e" unfolding post_def by (rule hd_dropWhile)
    then show ?thesis using segs_ok_first(1) [OF okp that] by simp
  qed
  moreover have "\<forall>s \<in> set pre. snd s < b" "\<forall>s \<in> set mid. fst s \<le> e"
    by (auto simp: pre_def mid_def dest: set_takeWhileD)
  ultimately have parts: "seg_parts b e xs pre mid post" by (auto simp: seg_parts_def xr rm)
  have dr: "drop (length pre) xs = rest" "drop (length mid) rest = post" by (simp_all add: xr rm)
  show ?thesis
    by (rule that [OF parts pre_def]) (simp only: seg_insert_def Let_def pre_def [symmetric] dr mid_def [symmetric])
qed

lemma seg_insert_ok:
  assumes ok: "segs_ok xs" and be: "b < e" and len: "length xs \<le> MaxRecvSegs"
  shows "segs_ok (seg_insert b e xs)" "length (seg_insert b e xs) \<le> MaxRecvSegs"
    "seg_set (seg_insert b e xs) \<subseteq> seg_set xs \<union> {b..<e}"
    "length xs < MaxRecvSegs \<Longrightarrow> seg_set (seg_insert b e xs) = seg_set xs \<union> {b..<e}"
proof -
  obtain pre mid post where p: "seg_parts b e xs pre mid post"
    and ins: "seg_insert b e xs = (if mid = [] then
       if length pre < MaxRecvSegs then pre @ (b, e) # take (MaxRecvSegs - 1 - length pre) post else xs
     else pre @ (min (fst (hd mid)) b, max (snd (last mid)) e) # post)"
    using seg_insert_parts [OF ok] by metis
  have xs: "xs = pre @ mid @ post" and pre: "\<forall>s \<in> set pre. snd s < b"
    and mid: "\<forall>s \<in> set mid. b \<le> snd s \<and> fst s \<le> e" and post: "\<forall>s \<in> set post. e < fst s"
    using p by (auto simp: seg_parts_def)
  have okm: "segs_ok pre" "segs_ok mid" "segs_ok post"
    and pm: "\<forall>s \<in> set pre. \<forall>t \<in> set mid \<union> set post. snd s < fst t" "\<forall>s \<in> set mid. \<forall>t \<in> set post. snd s < fst t"
    using ok by (auto simp: xs segs_ok_append)
  let ?r = "seg_insert b e xs"
  have "segs_ok ?r \<and> length ?r \<le> MaxRecvSegs \<and> seg_set ?r \<subseteq> seg_set xs \<union> {b..<e}
      \<and> (length xs < MaxRecvSegs \<longrightarrow> seg_set ?r = seg_set xs \<union> {b..<e})"
  proof (cases "mid = []")
    case True
    define q where "q = take (MaxRecvSegs - 1 - length pre) post"
    have q: "segs_ok q" "set q \<subseteq> set post" "seg_set q \<subseteq> seg_set post" "length xs < MaxRecvSegs \<Longrightarrow> q = post"
      using okm(3) set_take_subset [of _ post] True by (auto simp: q_def segs_ok_take seg_set_def xs dest: in_set_takeD)
    have sub: "\<forall>t \<in> set q. t \<in> set post" using q(2) by auto
    have r: "?r = (if length pre < MaxRecvSegs then pre @ (b, e) # q else xs)" using ins True by (simp add: q_def)
    have "segs_ok (pre @ (b, e) # q)"
      using okm(1) q(1) sub pre post pm(1) be by (auto simp: segs_ok_append segs_ok_Cons)
    moreover have "seg_set xs = seg_set pre \<union> seg_set post" "length xs = length pre + length post"
      by (simp_all add: xs True)
    ultimately show ?thesis using q(3,4) ok len unfolding r by (auto simp: q_def)
  next
    case False
    have h: "hd mid \<in> set mid" "last mid \<in> set mid" using False by auto
    let ?m = "(min (fst (hd mid)) b, max (snd (last mid)) e)"
    have r: "?r = pre @ ?m # post" using ins False by simp
    have "min (fst (hd mid)) b \<le> max (snd (last mid)) e" using be by (auto simp: min_def max_def)
    then have "segs_ok ?r" using okm(1,3) pre post pm h by (auto simp: r segs_ok_append segs_ok_Cons)
    moreover have "{fst ?m..<snd ?m} = seg_set mid \<union> {b..<e}"
    proof
      show "seg_set mid \<union> {b..<e} \<subseteq> {fst ?m..<snd ?m}"
        using segs_ok_first(1) [OF okm(2)] segs_ok_last [OF okm(2)]
        by (fastforce simp: seg_set_def min_le_iff_disj less_max_iff_disj intro: order_trans less_le_trans)
      show "{fst ?m..<snd ?m} \<subseteq> seg_set mid \<union> {b..<e}"
      proof
        fix x assume x: "x \<in> {fst ?m..<snd ?m}"
        consider "x < b" | "b \<le> x" "x < e" | "e \<le> x" by fastforce
        then show "x \<in> seg_set mid \<union> {b..<e}"
        proof cases
          case 1
          then have "fst (hd mid) \<le> x" "x < snd (hd mid)" using x mid h by (auto simp: min_le_iff_disj intro: less_le_trans)
          then show ?thesis using h(1) by (auto simp: seg_set_def)
        next
          case 3
          then have "fst (last mid) \<le> x" "x < snd (last mid)" using x mid h by (auto simp: less_max_iff_disj intro: order_trans)
          then show ?thesis using h(2) by (auto simp: seg_set_def)
        qed simp
      qed
    qed
    moreover have "seg_set xs = seg_set pre \<union> seg_set mid \<union> seg_set post"
        "length xs = length pre + length mid + length post" by (auto simp: xs)
    moreover have "length pre + length post + 1 \<le> MaxRecvSegs" using len False by (cases mid) (simp_all add: xs)
    ultimately show ?thesis unfolding r by auto
  qed
  then show "segs_ok ?r" "length ?r \<le> MaxRecvSegs" "seg_set ?r \<subseteq> seg_set xs \<union> {b..<e}"
    "length xs < MaxRecvSegs \<Longrightarrow> seg_set ?r = seg_set xs \<union> {b..<e}" by auto
qed

text \<open>The first range: it grows when the new one starts at its end and otherwise stays.\<close>

lemma seg_insert_head:
  assumes ok: "segs_ok xs" and be: "b < e" and xs: "xs \<noteq> []" "snd (hd xs) \<le> b"
  shows "seg_insert b e xs \<noteq> []" "fst (hd (seg_insert b e xs)) = fst (hd xs)"
    "b = snd (hd xs) \<Longrightarrow> e \<le> snd (hd (seg_insert b e xs))"
    "b \<noteq> snd (hd xs) \<Longrightarrow> hd (seg_insert b e xs) = hd xs"
proof -
  obtain x ys where x: "xs = x # ys" using xs(1) by (cases xs) auto
  obtain pre mid post where p: "seg_parts b e xs pre mid post" and pre: "pre = takeWhile (\<lambda>s. snd s < b) xs"
    and ins: "seg_insert b e xs = (if mid = [] then
       if length pre < MaxRecvSegs then pre @ (b, e) # take (MaxRecvSegs - 1 - length pre) post else xs
     else pre @ (min (fst (hd mid)) b, max (snd (last mid)) e) # post)"
    using seg_insert_parts [OF ok] by metis
  have fx: "fst x \<le> snd x" using ok by (simp add: x segs_ok_Cons)
  let ?r = "seg_insert b e xs"
  have "?r \<noteq> [] \<and> fst (hd ?r) = fst x \<and> (b = snd x \<longrightarrow> e \<le> snd (hd ?r)) \<and> (b \<noteq> snd x \<longrightarrow> hd ?r = x)"
  proof (cases "b = snd x")
    case True
    then have "pre = []" by (simp add: pre x)
    moreover have "\<forall>s \<in> set post. e < fst s" "x # ys = mid @ post" using p by (auto simp: seg_parts_def x \<open>pre = []\<close>)
    moreover have "fst x < e" using fx True be by simp
    ultimately obtain m where "mid = x # m" by (cases mid) auto
    then show ?thesis using ins \<open>pre = []\<close> True fx by simp
  next
    case False
    then have "snd x < b" using xs(2) by (simp add: x)
    then obtain q where "pre = x # q" by (simp add: pre x)
    then show ?thesis using ins False x by auto
  qed
  then show "?r \<noteq> []" "fst (hd ?r) = fst (hd xs)" "b = snd (hd xs) \<Longrightarrow> e \<le> snd (hd ?r)"
    "b \<noteq> snd (hd xs) \<Longrightarrow> hd ?r = hd xs" by (auto simp: x)
qed

subsection \<open>The interface of a reassembly buffer\<close>

text \<open>
  What the receivers rely on: an insertion keeps the ranges in order, records nothing that did
  not arrive, extends the first range exactly when the new one continues it, and records
  everything as long as there is room. Both the connections of the stack and the stream sniffer
  have one.
\<close>

locale reassembly =
  fixes ins :: "u32 \<Rightarrow> u32 \<Rightarrow> seg list \<Rightarrow> seg list"
  assumes ins_ok: "segs_ok xs \<Longrightarrow> b < e \<Longrightarrow> length xs \<le> MaxRecvSegs \<Longrightarrow>
      segs_ok (ins b e xs) \<and> length (ins b e xs) \<le> MaxRecvSegs"
    and ins_sub: "segs_ok xs \<Longrightarrow> b < e \<Longrightarrow> length xs \<le> MaxRecvSegs \<Longrightarrow> seg_set (ins b e xs) \<subseteq> seg_set xs \<union> {b..<e}"
    and ins_head: "segs_ok xs \<Longrightarrow> b < e \<Longrightarrow> xs \<noteq> [] \<Longrightarrow> snd (hd xs) \<le> b \<Longrightarrow>
      ins b e xs \<noteq> [] \<and> fst (hd (ins b e xs)) = fst (hd xs)"
    and ins_next: "segs_ok xs \<Longrightarrow> b < e \<Longrightarrow> xs \<noteq> [] \<Longrightarrow> snd (hd xs) = b \<Longrightarrow> e \<le> snd (hd (ins b e xs))"
    and ins_gap: "segs_ok xs \<Longrightarrow> b < e \<Longrightarrow> xs \<noteq> [] \<Longrightarrow> snd (hd xs) < b \<Longrightarrow> hd (ins b e xs) = hd xs"
begin

text \<open>A segment as it arrives: what lies before the expected position is cut off.\<close>

definition receive :: "seg \<Rightarrow> seg list \<Rightarrow> seg list" where
  "receive s xs =
     (let b = max (fst s) (snd (hd xs)) in if b < snd s then ins b (snd s) xs else xs)"

definition good :: "u32 \<Rightarrow> u32 set \<Rightarrow> seg list \<Rightarrow> bool" where
  "good a got xs \<longleftrightarrow> segs_ok xs \<and> xs \<noteq> [] \<and> length xs \<le> MaxRecvSegs \<and> fst (hd xs) = a \<and> seg_set xs \<subseteq> got"

lemma receive_good:
  assumes "good a got xs"
  shows "good a (got \<union> {fst s..<snd s}) (receive s xs)" "snd (hd xs) \<le> snd (hd (receive s xs))"
proof -
  let ?b = "max (fst s) (snd (hd xs))"
  have xs: "segs_ok xs" "xs \<noteq> []" "length xs \<le> MaxRecvSegs" "fst (hd xs) = a" "seg_set xs \<subseteq> got"
    using assms by (auto simp: good_def)
  have "good a (got \<union> {fst s..<snd s}) (receive s xs) \<and> snd (hd xs) \<le> snd (hd (receive s xs))"
  proof (cases "?b < snd s")
    case True
    have r: "receive s xs = ins ?b (snd s) xs" using True by (simp add: receive_def Let_def)
    have "{?b..<snd s} \<subseteq> {fst s..<snd s}" by auto
    then have "good a (got \<union> {fst s..<snd s}) (ins ?b (snd s) xs)"
      using ins_ok [OF xs(1) True xs(3)] ins_sub [OF xs(1) True xs(3)] ins_head [OF xs(1) True xs(2)] xs(4,5)
      unfolding good_def by fastforce
    moreover have "snd (hd xs) \<le> snd (hd (ins ?b (snd s) xs))"
    proof (cases "?b = snd (hd xs)")
      case eq: True
      have "snd s \<le> snd (hd (ins ?b (snd s) xs))" using ins_next [OF xs(1) True xs(2)] eq by simp
      then show ?thesis using True eq by simp
    next
      case False
      then have "snd (hd xs) < ?b" by (auto simp: max_def split: if_splits)
      then show ?thesis using ins_gap [OF xs(1) True xs(2)] by simp
    qed
    ultimately show ?thesis by (simp add: r)
  next
    case False
    then show ?thesis using xs by (auto simp: receive_def Let_def good_def)
  qed
  then show "good a (got \<union> {fst s..<snd s}) (receive s xs)" "snd (hd xs) \<le> snd (hd (receive s xs))" by auto
qed

lemma receive_all:
  "good a got xs \<Longrightarrow> good a (got \<union> (\<Union>s \<in> set ss. {fst s..<snd s})) (fold receive ss xs)
     \<and> snd (hd xs) \<le> snd (hd (fold receive ss xs))"
proof (induction ss arbitrary: xs got)
  case (Cons s ss)
  from receive_good [OF Cons.prems, of s] Cons.IH [OF receive_good(1) [OF Cons.prems, of s]]
  show ?case by (auto simp: Un_assoc intro: order_trans)
qed (simp add: good_def)

text \<open>
  In-order data is complete: whatever arrives in whatever order, every position from the start of
  the first range to the expected position was part of some segment that arrived.
\<close>

lemma in_order_complete:
  assumes "xs = fold receive ss [(a, a)]"
  shows "segs_ok xs \<and> xs \<noteq> [] \<and> length xs \<le> MaxRecvSegs \<and> fst (hd xs) = a
    \<and> {a..<snd (hd xs)} \<subseteq> (\<Union>s \<in> set ss. {fst s..<snd s})"
proof -
  have "good a {} [(a, a)]" by (simp add: good_def segs_ok_def)
  from receive_all [OF this, of ss] have "good a (\<Union>s \<in> set ss. {fst s..<snd s}) xs" by (simp add: assms)
  then have g: "segs_ok xs" "xs \<noteq> []" "length xs \<le> MaxRecvSegs" "fst (hd xs) = a"
      "seg_set xs \<subseteq> (\<Union>s \<in> set ss. {fst s..<snd s})" by (auto simp: good_def)
  then have "{fst (hd xs)..<snd (hd xs)} \<subseteq> seg_set xs" by (cases xs) auto
  then show ?thesis using g by auto
qed

end

interpretation conn_segs: reassembly seg_insert
proof
  fix xs :: "seg list" and b e :: u32
  assume a: "segs_ok xs" "b < e"
  show "length xs \<le> MaxRecvSegs \<Longrightarrow> segs_ok (seg_insert b e xs) \<and> length (seg_insert b e xs) \<le> MaxRecvSegs"
    using seg_insert_ok(1,2) [OF a] by simp
  show "length xs \<le> MaxRecvSegs \<Longrightarrow> seg_set (seg_insert b e xs) \<subseteq> seg_set xs \<union> {b..<e}"
    by (rule seg_insert_ok(3) [OF a])
  assume n: "xs \<noteq> []"
  show "snd (hd xs) \<le> b \<Longrightarrow> seg_insert b e xs \<noteq> [] \<and> fst (hd (seg_insert b e xs)) = fst (hd xs)"
    using seg_insert_head(1,2) [OF a n] by simp
  show "snd (hd xs) = b \<Longrightarrow> e \<le> snd (hd (seg_insert b e xs))"
    by (rule seg_insert_head(3) [OF a n]) simp_all
  show "snd (hd xs) < b \<Longrightarrow> hd (seg_insert b e xs) = hd xs"
    by (rule seg_insert_head(4) [OF a n]) auto
qed

subsection \<open>Properties of the received ranges\<close>

text \<open>The array part of the state while segments arrive, trimmed as \<^verbatim>\<open>onPack\<close> trims them.\<close>

definition conn_receive :: "seg \<Rightarrow> seg list \<times> nat \<Rightarrow> seg list \<times> nat" where
  "conn_receive s a = (case a of (sg, cnt) \<Rightarrow>
     let b = max (fst s) (snd (sg ! 0)) in
     if b < snd s then (case insertSeg b (snd s) sg cnt of (i, hole, sg', cnt') \<Rightarrow> (sg', cnt')) else (sg, cnt))"

definition arr_ok :: "seg list \<times> nat \<Rightarrow> bool" where
  "arr_ok a \<longleftrightarrow> length (fst a) = MaxRecvSegs \<and> 1 \<le> snd a \<and> snd a \<le> MaxRecvSegs"

abbreviation arr_list :: "seg list \<times> nat \<Rightarrow> seg list" where "arr_list a \<equiv> take (snd a) (fst a)"

lemma arr_hd: "arr_ok a \<Longrightarrow> hd (arr_list a) = fst a ! 0 \<and> arr_list a \<noteq> []"
  by (cases "fst a") (auto simp: arr_ok_def)

lemma conn_receive_refines:
  assumes a: "arr_ok a" and ok: "segs_ok (arr_list a)"
  shows "arr_ok (conn_receive s a)" "arr_list (conn_receive s a) = conn_segs.receive s (arr_list a)"
proof -
  obtain sg cnt where sc: "a = (sg, cnt)" by (cases a)
  let ?b = "max (fst s) (snd (sg ! 0))"
  have len: "length sg = MaxRecvSegs" "cnt \<le> MaxRecvSegs" and h: "hd (take cnt sg) = sg ! 0" "take cnt sg \<noteq> []"
    using a arr_hd [OF a] by (auto simp: sc arr_ok_def)
  obtain i hole sg' cnt' where r: "insertSeg ?b (snd s) sg cnt = (i, hole, sg', cnt')" by (metis prod_cases4)
  from insertSeg_refines [OF len r]
  have ref: "length sg' = MaxRecvSegs" "cnt' \<le> MaxRecvSegs" "take cnt' sg' = seg_insert ?b (snd s) (take cnt sg)" by auto
  have "arr_ok (conn_receive s a) \<and> arr_list (conn_receive s a) = conn_segs.receive s (arr_list a)"
  proof (cases "?b < snd s")
    case True
    have "seg_insert ?b (snd s) (take cnt sg) \<noteq> []"
      using seg_insert_head(1) [of "take cnt sg" ?b "snd s"] ok True h by (simp add: sc)
    then have "1 \<le> cnt'" unfolding ref(3) [symmetric] by (cases cnt') auto
    then show ?thesis using True ref h(1) by (simp add: sc conn_receive_def r Let_def conn_segs.receive_def arr_ok_def)
  next
    case False
    then show ?thesis using a h(1) by (auto simp: sc conn_receive_def Let_def conn_segs.receive_def)
  qed
  then show "arr_ok (conn_receive s a)" "arr_list (conn_receive s a) = conn_segs.receive s (arr_list a)" by auto
qed

lemma conn_receive_fold:
  "arr_ok a \<Longrightarrow> conn_segs.good p got (arr_list a) \<Longrightarrow>
     arr_ok (fold conn_receive ss a) \<and> arr_list (fold conn_receive ss a) = fold conn_segs.receive ss (arr_list a)"
proof (induction ss arbitrary: a got)
  case (Cons s ss)
  have ok: "segs_ok (arr_list a)" using Cons.prems(2) by (simp add: conn_segs.good_def)
  note r = conn_receive_refines [OF Cons.prems(1) ok, of s]
  have "conn_segs.good p (got \<union> {fst s..<snd s}) (arr_list (conn_receive s a))"
    unfolding r(2) by (rule conn_segs.receive_good(1) [OF Cons.prems(2)])
  from Cons.IH [OF r(1) this] show ?case by (simp only: fold_simps r(2))
qed simp

text \<open>
  C7: The array code that enters a received range refines the insertion into a list of ranges: on
  an array of five whose first \<open>cnt\<close> entries are in order and do not touch, the entries afterwards
  are again in order and do not touch, and they hold exactly the old positions and the new ones as
  long as the array was not full. When it was, only positions of the old or the new range are held.
\<close>

theorem insertSeg_correct:
  assumes "length sg = MaxRecvSegs" and "cnt \<le> MaxRecvSegs" and "segs_ok (take cnt sg)" and "b < e"
    and "insertSeg b e sg cnt = (i, hole, sg', cnt')"
  shows "length sg' = MaxRecvSegs \<and> cnt' \<le> MaxRecvSegs \<and> take cnt' sg' = seg_insert b e (take cnt sg)
    \<and> segs_ok (take cnt' sg') \<and> seg_set (take cnt' sg') \<subseteq> seg_set (take cnt sg) \<union> {b..<e}
    \<and> (cnt < MaxRecvSegs \<longrightarrow> seg_set (take cnt' sg') = seg_set (take cnt sg) \<union> {b..<e})"
  using insertSeg_refines [OF assms(1,2,5)] seg_insert_ok [OF assms(3,4)] assms(1,2) by simp

theorem insertSeg_correct_witness:
  "segs_ok (take 3 [(0, 10), (20, 30), (50, 60), (0, 0), (0, 0)])
    \<and> seg_set (take 2 [(0, 10), (20, 60), (50, 60), (0, 0), (0, 0)])
      = seg_set (take 3 [(0, 10), (20, 30), (50, 60), (0, 0), (0, 0)]) \<union> {25..<50}"
proof -
  have i: "seg_i [(0, 10), (20, 30), (50, 60), (0, 0), (0, 0)] 3 25 0 = 1"
    using seg_i_val [of 0 3 "[(0, 10), (20, 30), (50, 60), (0, 0), (0, 0)]" 25] by simp
  have j: "seg_j [(0, 10), (20, 30), (50, 60), (0, 0), (0, 0)] 3 50 1 = 3"
    using seg_j_val [of 1 3 "[(0, 10), (20, 30), (50, 60), (0, 0), (0, 0)]" 50] by simp
  have r: "insertSeg 25 50 [(0, 10), (20, 30), (50, 60), (0, 0), (0, 0)] 3
      = (1, False, [(0, 10), (20, 60), (50, 60), (0, 0), (0, 0)], 2)"
    by (simp add: insertSeg_def i j [simplified] shiftDown.simps)
  have ok: "segs_ok (take 3 [(0, 10), (20, 30), (50, 60), (0, 0), (0, 0)])" by (simp add: segs_ok_def)
  have p: "length [(0, 10), (20, 30), (50, 60), (0, 0), (0, 0) :: seg] = MaxRecvSegs" "3 \<le> MaxRecvSegs" "(25 :: u32) < 50"
    by simp_all
  from insertSeg_correct [OF p(1,2) ok p(3) r] show ?thesis
    by (intro conjI ok) (elim conjE, erule mp, simp)
qed



end
