(* ===== verification/TcpStream.thy ===== *)
theory TcpStream
  imports Segments
begin

text \<open>
  The stream sniffer \<^verbatim>\<open>TcpStream.h\<close>: filtering of sniffed packets and the reassembly of one
  direction of a TCP stream, whose data goes to a handler that says how many bytes at the end it
  did not consume. The header structures of that file have the layout of those in
  \<^verbatim>\<open>Core.h\<close>, so packets are those of \<open>Packet\<close>.
\<close>

record TcpStream =
  init_stream :: bool
  filter_src_ip :: u32
  filter_dst_ip :: u32
  filter_src_port :: u16
  filter_dst_port :: u16
  buf_seq :: u32
  n_seg :: nat
  st_segs :: "seg list"
  recvbuf :: "u8 list"

text \<open>\<open>pton\<close> is \<^verbatim>\<open>inet_pton\<close>, which leaves its result alone when it fails.\<close>

definition initFilter :: "(string \<Rightarrow> u32 option) \<Rightarrow> string \<Rightarrow> u16 \<Rightarrow> string \<Rightarrow> u16 \<Rightarrow> TcpStream \<Rightarrow> TcpStream" where
  "initFilter pton sip sport dip dport st = st
     \<lparr>filter_src_ip := (case pton sip of None \<Rightarrow> filter_src_ip st | Some a \<Rightarrow> a),
      filter_dst_ip := (case pton dip of None \<Rightarrow> filter_dst_ip st | Some a \<Rightarrow> a),
      filter_src_port := htons sport, filter_dst_port := htons dport\<rparr>"

definition filterPacket :: "Packet \<Rightarrow> TcpStream \<Rightarrow> bool" where
  "filterPacket pkt st =
     (if ether_type (p_eth pkt) \<noteq> 0x0008 then False
      else if protocol (p_ip pkt) \<noteq> 6 then False
      else if filter_src_ip st \<noteq> 0 \<and> filter_src_ip st \<noteq> src_ip (p_ip pkt) then False
      else if filter_dst_ip st \<noteq> 0 \<and> filter_dst_ip st \<noteq> dst_ip (p_ip pkt) then False
      else if filter_src_port st \<noteq> 0 \<and> filter_src_port st \<noteq> src_port (p_tcp pkt) then False
      else if filter_dst_port st \<noteq> 0 \<and> filter_dst_port st \<noteq> dst_port (p_tcp pkt) then False
      else True)"

text \<open>The segment list; \<open>None\<close> when there are too many.\<close>

definition streamInsert :: "u32 \<Rightarrow> u32 \<Rightarrow> seg list \<Rightarrow> nat \<Rightarrow> (nat \<times> seg list \<times> nat) option" where
  "streamInsert loc loc_end sg n =
     (let i = seg_i sg n loc 0;
          j = seg_j sg n loc_end i
      in if i = j then
           if n = 5 then None
           else Some (i, (shiftUp sg i n)[i := (loc, loc_end)], n + 1)
         else
           let sg = sg[i := (min (fst (sg ! i)) loc, max (snd (sg ! (j - 1))) loc_end)]
           in if i + 1 < j then
                let (sg, i2) = shiftDown sg (i + 1) j n in Some (i, sg, i2)
              else Some (i, sg, n))"

text \<open>
  What happens to the new bytes once their range is entered: the handler gets the first range, straight
  from the packet when it is all of it. The result says whether there was data for the handler.
\<close>

definition streamDeliver ::
  "(u8 list \<Rightarrow> 's \<Rightarrow> u32 \<times> 's) \<Rightarrow> nat \<Rightarrow> u8 list \<Rightarrow> u32 \<Rightarrow> u32 \<Rightarrow> TcpStream \<times> 's \<Rightarrow> (bool \<times> TcpStream \<times> 's) option" where
  "streamDeliver handler i new_data loc loc_end s = (case s of (st, u) \<Rightarrow>
     if st_segs st ! 0 = (loc, loc_end) then
       (case handler new_data u of (remaining, u) \<Rightarrow>
          let st = st\<lparr>st_segs := (st_segs st)[0 := (loc_end - remaining, loc_end)]\<rparr> in
          if remaining = 0 then Some (True, st, u)
          else if length new_data < unat remaining then None
          else do {
            mem \<leftarrow> store_bytes (unat (loc_end - remaining)) (drop (length new_data - unat remaining) new_data) (recvbuf st);
            Some (True, st\<lparr>recvbuf := mem\<rparr>, u)
          })
     else do {
       mem \<leftarrow> store_bytes (unat loc) new_data (recvbuf st);
       let st = st\<lparr>recvbuf := mem\<rparr>;
       if i \<noteq> 0 then Some (False, st, u)
       else do {
         let (a, b) = st_segs st ! 0;
         bytes \<leftarrow> load_bytes (unat a) (unat (b - a)) (recvbuf st);
         (case handler bytes u of (remaining, u) \<Rightarrow>
            Some (True, st\<lparr>st_segs := (st_segs st)[0 := (b - remaining, b)]\<rparr>, u))
       }
     })"

definition streamCompact :: "u32 \<Rightarrow> TcpStream \<Rightarrow> TcpStream option" where
  "streamCompact BUFSIZE st =
     (let diff = fst (st_segs st ! 0) in
      if BUFSIZE div 2 \<le> diff then do {
        lst \<leftarrow> arr_get (st_segs st) (n_seg st - 1);
        let total_size = snd lst - diff;
        mem \<leftarrow> (if total_size \<noteq> 0 then memcpy_down (unat diff) (unat total_size) (recvbuf st) else Some (recvbuf st));
        Some (st\<lparr>recvbuf := mem, buf_seq := buf_seq st + diff,
                 st_segs := map (\<lambda>(a, b). (a - diff, b - diff)) (take (n_seg st) (st_segs st)) @ drop (n_seg st) (st_segs st)\<rparr>)
      } else Some st)"

text \<open>The state when a stream starts, and the location of the data of a packet.\<close>

definition streamStart :: "Packet \<Rightarrow> TcpStream \<Rightarrow> u32 \<times> TcpStream" where
  "streamStart pkt st =
     (let sq = ntohl (seq_num (p_tcp pkt));
          (sq, st) = (if flag_syn (p_tcp pkt) then (sq + 1, st\<lparr>init_stream := False\<rparr>) else (sq, st));
          st = (if \<not> init_stream st
                then st\<lparr>init_stream := True, buf_seq := sq, n_seg := 1, st_segs := (st_segs st)[0 := (0, 0)]\<rparr> else st)
      in (sq, st))"

definition handlePacket ::
  "bool \<Rightarrow> u32 \<Rightarrow> (u8 list \<Rightarrow> 's \<Rightarrow> u32 \<times> 's) \<Rightarrow> Packet \<Rightarrow> TcpStream \<times> 's \<Rightarrow> (bool \<times> TcpStream \<times> 's) option" where
  "handlePacket WaitForResend BUFSIZE handler pkt s = (case s of (st, u) \<Rightarrow> do {
     let (sq, st) = streamStart pkt st;
     let header_len = (20 + ucast (data_offset (p_tcp pkt)) * 4 :: u32);
     let new_data = data_start (p_tcp pkt);
     let new_size = (ucast (ntohs (tot_len (p_ip pkt))) - header_len :: u32);
     let loc = sq - buf_seq st;
     let loc_end = loc + new_size;
     let diff = sint (loc - snd (st_segs st ! 0));
     let (loc, new_data, new_size) = (if diff < 0
       then (loc - of_int diff, new_data - diff, new_size + of_int diff) else (loc, new_data, new_size));
     if sint new_size \<le> 0 then Some (False, st, u)
     else if BUFSIZE < loc_end then Some (False, st, u)
     else do {
       let st = (if \<not> WaitForResend \<and> snd (st_segs st ! 0) < loc then st\<lparr>st_segs := (st_segs st)[0 := (loc, loc)]\<rparr> else st);
       case streamInsert loc loc_end (st_segs st) (n_seg st) of
         None \<Rightarrow> Some (False, st, u)
       | Some (i, sg, n) \<Rightarrow>
           if new_data < 0 then None
           else do {
             bytes \<leftarrow> load_bytes (nat new_data) (unat new_size) (p_rest pkt);
             (called, st, u) \<leftarrow> streamDeliver handler i bytes loc loc_end (st\<lparr>st_segs := sg, n_seg := n\<rparr>, u);
             if called then do {
               st \<leftarrow> streamCompact BUFSIZE st;
               Some (True, st, u)
             } else Some (False, st, u)
           }
     }
   })"

subsection \<open>The segment list of the sniffer\<close>

definition stream_insert :: "u32 \<Rightarrow> u32 \<Rightarrow> seg list \<Rightarrow> seg list" where
  "stream_insert b e xs =
     (if length xs = 5 \<and> takeWhile (\<lambda>s. fst s \<le> e) (dropWhile (\<lambda>s. snd s < b) xs) = [] then xs
      else seg_insert b e xs)"

lemma streamInsert_refines:
  assumes len: "length sg = 5" "n \<le> 5"
  shows "case streamInsert b e sg n of
      None \<Rightarrow> stream_insert b e (take n sg) = take n sg
    | Some (i, sg', n') \<Rightarrow> length sg' = 5 \<and> n' \<le> 5 \<and> take n' sg' = stream_insert b e (take n sg)
        \<and> stream_insert b e (take n sg) = seg_insert b e (take n sg)
        \<and> i = length (takeWhile (\<lambda>s. snd s < b) (take n sg))"
proof -
  let ?xs = "take n sg"
  obtain i hole sg' n' where r: "insertSeg b e sg n = (i, hole, sg', n')" by (metis prod_cases4)
  note ref = insertSeg_refines [OF len r]
  have i: "seg_i sg n b 0 = i" using ref seg_i_val [of 0 n sg b] len by simp
  have il: "i \<le> n" using ref length_takeWhile_le [of "\<lambda>s. snd s < b" ?xs] len by simp
  have dw: "drop i ?xs = dropWhile (\<lambda>s. snd s < b) ?xs" using ref by (simp add: dropWhile_eq_drop)
  have j: "seg_j sg n e i = i + length (takeWhile (\<lambda>s. fst s \<le> e) (drop i ?xs))"
    using seg_j_val [OF il, of sg e] len by simp
  show ?thesis
  proof (cases "takeWhile (\<lambda>s. fst s \<le> e) (drop i ?xs) = []")
    case True
    then have ji: "seg_j sg n e i = i" by (simp add: j)
    show ?thesis
    proof (cases "n = 5")
      case n: True
      then have "streamInsert b e sg n = None" unfolding streamInsert_def Let_def i ji by simp
      then show ?thesis using True n len unfolding stream_insert_def dw [symmetric] by simp
    next
      case False
      then have "streamInsert b e sg n = Some (i, sg', n')"
        using r len il by (auto simp: streamInsert_def insertSeg_def i ji Let_def)
      then show ?thesis using ref False len by (auto simp: stream_insert_def)
    qed
  next
    case False
    then have ji: "seg_j sg n e i \<noteq> i" by (simp add: j)
    then have "streamInsert b e sg n = Some (i, sg', n')"
      using r by (auto simp: streamInsert_def insertSeg_def i Let_def split: prod.splits if_splits)
    moreover have "stream_insert b e ?xs = seg_insert b e ?xs"
      using False unfolding stream_insert_def dw [symmetric] by simp
    ultimately show ?thesis using ref by simp
  qed
qed

interpretation stream_segs: reassembly stream_insert
proof
  fix xs :: "seg list" and b e :: u32
  assume a: "segs_ok xs" "b < e"
  show "length xs \<le> MaxRecvSegs \<Longrightarrow> segs_ok (stream_insert b e xs) \<and> length (stream_insert b e xs) \<le> MaxRecvSegs"
    using conn_segs.ins_ok [OF a] a by (simp add: stream_insert_def)
  show "length xs \<le> MaxRecvSegs \<Longrightarrow> seg_set (stream_insert b e xs) \<subseteq> seg_set xs \<union> {b..<e}"
    using conn_segs.ins_sub [OF a] by (auto simp: stream_insert_def)
  assume n: "xs \<noteq> []"
  show "snd (hd xs) \<le> b \<Longrightarrow> stream_insert b e xs \<noteq> [] \<and> fst (hd (stream_insert b e xs)) = fst (hd xs)"
    using conn_segs.ins_head [OF a n] n by (simp add: stream_insert_def)
  show "snd (hd xs) < b \<Longrightarrow> hd (stream_insert b e xs) = hd xs"
    using conn_segs.ins_gap [OF a n] by (simp add: stream_insert_def)
  assume s: "snd (hd xs) = b"
  obtain x ys where x: "xs = x # ys" using n by (cases xs) auto
  have "fst x \<le> snd x" using a(1) by (simp add: x segs_ok_Cons)
  then have "fst x \<le> e" using a(2) s by (simp add: x)
  moreover have "\<not> snd x < b" using s by (simp add: x)
  ultimately have "stream_insert b e xs = seg_insert b e xs" by (simp add: stream_insert_def x)
  then show "e \<le> snd (hd (stream_insert b e xs))" using conn_segs.ins_next [OF a n s] by simp
qed

subsection \<open>The invariant of a stream\<close>

text \<open>
  \<open>S\<close> is the byte stream the peer sends, by offset, and \<open>M\<close> a bound on its length; \<open>base\<close> is the
  offset the start of the buffer stands for. The buffer holds the right bytes wherever a range is entered.
\<close>

abbreviation act :: "TcpStream \<Rightarrow> seg list" where "act st \<equiv> take (n_seg st) (st_segs st)"

definition stream_inv :: "u32 \<Rightarrow> nat \<Rightarrow> (nat \<Rightarrow> u8) \<Rightarrow> u32 \<Rightarrow> nat \<Rightarrow> TcpStream \<Rightarrow> bool" where
  "stream_inv B M S isn base st \<longleftrightarrow> init_stream st \<and> buf_seq st = isn + of_nat base \<and> length (st_segs st) = 5
     \<and> 1 \<le> n_seg st \<and> n_seg st \<le> 5 \<and> segs_ok (act st) \<and> (\<forall>s \<in> set (act st). snd s \<le> B \<and> base + unat (snd s) \<le> M)
     \<and> length (recvbuf st) = unat B \<and> (\<forall>p \<in> seg_set (act st). recvbuf st ! unat p = S (base + unat p))"

definition consumed :: "nat \<Rightarrow> TcpStream \<Rightarrow> nat" where
  "consumed base st = base + unat (fst (st_segs st ! 0))"

definition expected :: "nat \<Rightarrow> TcpStream \<Rightarrow> nat" where
  "expected base st = base + unat (snd (st_segs st ! 0))"

lemma stream_invD:
  assumes "stream_inv B M S isn base st"
  shows "init_stream st" "buf_seq st = isn + of_nat base" "length (st_segs st) = 5" "1 \<le> n_seg st" "n_seg st \<le> 5"
    "segs_ok (act st)" "\<And>s. s \<in> set (act st) \<Longrightarrow> snd s \<le> B" "length (recvbuf st) = unat B"
    "\<And>p. p \<in> seg_set (act st) \<Longrightarrow> recvbuf st ! unat p = S (base + unat p)"
    "hd (act st) = st_segs st ! 0" "act st \<noteq> []" "act st = st_segs st ! 0 # take (n_seg st - 1) (tl (st_segs st))"
    "fst (st_segs st ! 0) \<le> snd (st_segs st ! 0)" "snd (st_segs st ! 0) \<le> B"
    "\<And>s. s \<in> set (act st) \<Longrightarrow> base + unat (snd s) \<le> M" "base + unat (snd (st_segs st ! 0)) \<le> M"
proof -
  show *: "init_stream st" "buf_seq st = isn + of_nat base" "length (st_segs st) = 5" "1 \<le> n_seg st" "n_seg st \<le> 5"
    "segs_ok (act st)" "\<And>s. s \<in> set (act st) \<Longrightarrow> snd s \<le> B" "length (recvbuf st) = unat B"
    "\<And>p. p \<in> seg_set (act st) \<Longrightarrow> recvbuf st ! unat p = S (base + unat p)"
    using assms by (auto simp: stream_inv_def)
  obtain x xs m where "st_segs st = x # xs" "n_seg st = Suc m" using *(3,4) by (cases "st_segs st"; cases "n_seg st") auto
  then show "hd (act st) = st_segs st ! 0" "act st \<noteq> []" and a: "act st = st_segs st ! 0 # take (n_seg st - 1) (tl (st_segs st))" by auto
  show "fst (st_segs st ! 0) \<le> snd (st_segs st ! 0)" "snd (st_segs st ! 0) \<le> B"
    using *(6,7) by (simp_all add: a segs_ok_Cons)
  show b: "\<And>s. s \<in> set (act st) \<Longrightarrow> base + unat (snd s) \<le> M" using assms by (auto simp: stream_inv_def)
  show "base + unat (snd (st_segs st ! 0)) \<le> M" by (rule b) (simp add: a)
qed

lemma nth_store_bytes:
  "store_bytes off bs mem = Some mem' \<Longrightarrow> p < length mem \<Longrightarrow>
     mem' ! p = (if off \<le> p \<and> p < off + length bs then bs ! (p - off) else mem ! p)"
  by (auto simp: store_bytes_def nth_append split: if_splits)

lemma length_store_bytes: "store_bytes off bs mem = Some mem' \<Longrightarrow> length mem' = length mem"
  by (auto simp: store_bytes_def split: if_splits)

lemma unat_sub_less: "(x :: u32) < y \<Longrightarrow> unat x < unat y"
  by (simp add: word_less_nat_alt)

text \<open>Replacing the first range by a part of it at its end.\<close>

lemma segs_ok_shrink:
  assumes "segs_ok (x # xs)" "fst x \<le> a" "a \<le> snd x"
  shows "segs_ok ((a, snd x) # xs)" "seg_set ((a, snd x) # xs) \<subseteq> seg_set (x # xs)"
  using assms by (auto simp: segs_ok_Cons intro: order_trans)

text \<open>Moving the start of the buffer to the first range.\<close>

lemma segs_ok_shift:
  assumes ok: "segs_ok xs" and d: "\<forall>s \<in> set xs. d \<le> fst s"
  shows "segs_ok (map (\<lambda>(a, b). (a - d, b - d)) xs)"
    and "p \<in> seg_set (map (\<lambda>(a, b). (a - d, b - d)) xs) \<Longrightarrow> p + d \<in> seg_set xs \<and> unat (p + d) = unat p + unat d"
proof -
  have sub: "unat (a - d) = unat a - unat d" if "d \<le> a" for a using that by (rule unat_sub)
  have le: "d \<le> fst s" "d \<le> snd s" if "s \<in> set xs" for s
    using that d ok by (auto simp: segs_ok_def intro: order_trans)
  have mono: "a - d < b - d \<longleftrightarrow> a < b" "a - d \<le> b - d \<longleftrightarrow> a \<le> b" if "d \<le> a" "d \<le> b" for a b
    using that by (auto simp: word_less_nat_alt word_le_nat_alt sub)
  show "segs_ok (map (\<lambda>(a, b). (a - d, b - d)) xs)"
    using ok le by (auto simp: segs_ok_def sorted_wrt_map mono split: prod.splits elim!: sorted_wrt_mono_rel [rotated])
  assume "p \<in> seg_set (map (\<lambda>(a, b). (a - d, b - d)) xs)"
  then obtain a b where s: "(a, b) \<in> set xs" "a - d \<le> p" "p < b - d" by (auto simp: seg_set_def)
  have "unat p < unat b - unat d" using s(3) le [OF s(1)] by (simp add: word_less_nat_alt sub)
  moreover have "unat b < 4294967296" using unsigned_less [of b] by simp
  ultimately have u: "unat (p + d) = unat p + unat d" by (intro unat_add_u32_nowrap) linarith
  moreover have "unat a - unat d \<le> unat p" using s(2) le [OF s(1)] by (simp add: word_le_nat_alt sub)
  moreover have "unat d \<le> unat a" using le(1) [OF s(1)] by (simp add: word_le_nat_alt)
  ultimately have "a \<le> p + d" "p + d < b"
    using \<open>unat p < unat b - unat d\<close> by (simp_all add: word_less_nat_alt word_le_nat_alt)
  then show "p + d \<in> seg_set xs \<and> unat (p + d) = unat p + unat d" using s(1) u
    by (auto simp: seg_set_def intro!: bexI [of _ "(a, b)"])
qed

lemma memcpy_down_Some:
  assumes "n \<le> src" "src + n \<le> length mem"
  shows "\<exists>mem'. memcpy_down src n mem = Some mem' \<and> length mem' = length mem \<and> (\<forall>q < n. mem' ! q = mem ! (src + q))"
proof -
  have "length (take n (drop src mem)) = n" using assms(2) by simp
  then show ?thesis using assms by (simp add: memcpy_down_def load_bytes_def store_bytes_def nth_append)
qed

lemma streamCompact_ok:
  assumes inv: "stream_inv B M S isn base st" and ev: "even (unat B)"
  shows "\<exists>st' base'. streamCompact B st = Some st' \<and> stream_inv B M S isn base' st'
    \<and> consumed base' st' = consumed base st \<and> expected base' st' = expected base st"
proof -
  note D = stream_invD [OF inv]
  let ?d = "fst (st_segs st ! 0)"
  let ?f = "\<lambda>(a, b). (a - ?d, b - ?d)"
  show ?thesis
  proof (cases "B div 2 \<le> ?d")
    case True
    define lst where "lst = st_segs st ! (n_seg st - 1)"
    have lst: "arr_get (st_segs st) (n_seg st - 1) = Some lst" "lst = last (act st)"
      using D(3-5,11) by (auto simp: lst_def last_conv_nth)
    have "lst \<in> set (act st)" unfolding lst(2) by (rule last_in_set [OF D(11)])
    note lst = lst(1) this lst(2)
    have first: "\<forall>s \<in> set (act st). ?d \<le> fst s" using segs_ok_first(1) [OF D(6)] D(10) by auto
    have dl: "?d \<le> snd lst" "snd lst \<le> B"
      using first lst(2) D(6,7) by (auto simp: segs_ok_def intro: order_trans)
    let ?n = "unat (snd lst - ?d)"
    have n: "?n = unat (snd lst) - unat ?d" using dl(1) by (rule unat_sub)
    have half: "unat B div 2 \<le> unat ?d" using True by (simp add: word_le_nat_alt unat_div)
    have b: "unat (snd lst) \<le> unat B" "unat ?d \<le> unat (snd lst)" using dl by (simp_all add: word_le_nat_alt)
    have fits: "?n \<le> unat ?d" using half b ev n by (auto elim!: evenE)
    obtain mem where mem: "(if snd lst - ?d \<noteq> 0 then memcpy_down (unat ?d) ?n (recvbuf st) else Some (recvbuf st)) = Some mem"
      and len: "length mem = unat B"
      and cp: "\<And>q. q < ?n \<Longrightarrow> mem ! q = recvbuf st ! (unat ?d + q)"
    proof (cases "snd lst - ?d = 0")
      case z: True
      then have "?n = 0" by simp
      with that [of "recvbuf st"] z D(8) show ?thesis by simp
    next
      case nz: False
      obtain mem where "memcpy_down (unat ?d) ?n (recvbuf st) = Some mem" "length mem = unat B"
          "\<forall>q < ?n. mem ! q = recvbuf st ! (unat ?d + q)"
        using memcpy_down_Some [OF fits, of "recvbuf st"] b n D(8) by auto
      with that nz show ?thesis by simp
    qed
    let ?st = "st\<lparr>recvbuf := mem, buf_seq := buf_seq st + ?d, st_segs := map ?f (act st) @ drop (n_seg st) (st_segs st)\<rparr>"
    have act: "act ?st = map ?f (act st)" using D(3,5) by simp
    have zero: "st_segs ?st ! 0 = ?f (st_segs st ! 0)" using D(11,12) by (simp add: nth_append)
    have sd: "unat (snd s - ?d) = unat (snd s) - unat ?d" if "s \<in> set (act st)" for s
    proof (rule unat_sub)
      show "?d \<le> snd s" using first that D(6) by (auto simp: segs_ok_def intro: order_trans)
    qed
    have "stream_inv B M S isn (base + unat ?d) ?st"
      unfolding stream_inv_def act
    proof (intro conjI ballI)
      show "segs_ok (map ?f (act st))" by (rule segs_ok_shift(1) [OF D(6) first])
      fix s assume "s \<in> set (map ?f (act st))"
      then obtain u where u: "u \<in> set (act st)" "s = ?f u" by auto
      have "unat (snd u - ?d) \<le> unat B" using sd [OF u(1)] D(7) [OF u(1)] by (simp add: word_le_nat_alt)
      then show "snd s \<le> B" by (cases u) (simp add: u(2) word_le_nat_alt)
      have "?d \<le> snd u" using first u(1) D(6) by (auto simp: segs_ok_def intro: order_trans)
      then show "base + unat ?d + unat (snd s) \<le> M"
        using sd [OF u(1)] D(15) [OF u(1)] by (cases u) (simp add: u(2) word_le_nat_alt)
    next
      fix p assume p: "p \<in> seg_set (map ?f (act st))"
      from segs_ok_shift(2) [OF D(6) first p]
      have q: "p + ?d \<in> seg_set (act st)" "unat (p + ?d) = unat p + unat ?d" by auto
      obtain s where s: "s \<in> set (act st)" "p + ?d < snd s" using q(1) by (auto simp: seg_set_def)
      have "snd s \<le> snd lst" using segs_ok_last [OF D(6) s(1)] lst(3) by simp
      then have "unat p < ?n" using s(2) q(2) n by (simp add: word_le_nat_alt word_less_nat_alt)
      then show "recvbuf ?st ! unat p = S (base + unat ?d + unat p)"
        using cp D(9) [OF q(1)] q(2) by (simp add: ac_simps)
    qed (use D(1-5) len in simp_all)
    moreover have "streamCompact B st = Some ?st"
      using True lst(1) mem by (simp add: streamCompact_def Let_def)
    moreover have "consumed (base + unat ?d) ?st = consumed base st"
      unfolding consumed_def zero by (simp split: prod.splits)
    moreover have "expected (base + unat ?d) ?st = expected base st"
      unfolding expected_def zero using sd [of "st_segs st ! 0"] D(12,13)
      by (cases "st_segs st ! 0") (simp add: word_le_nat_alt)
    ultimately show ?thesis by blast
  next
    case False
    then show ?thesis using inv by (auto simp: streamCompact_def Let_def)
  qed
qed

lemma seg_insert_bound:
  assumes "\<forall>s \<in> set xs. P (snd s)" "P e"
  shows "\<forall>s \<in> set (seg_insert b e xs). P (snd s)"
proof -
  define pre where "pre = takeWhile (\<lambda>s. snd s < b) xs"
  define mid where "mid = takeWhile (\<lambda>s. fst s \<le> e) (drop (length pre) xs)"
  define post where "post = drop (length mid) (drop (length pre) xs)"
  have sub: "set pre \<subseteq> set xs" "set mid \<subseteq> set xs" "set post \<subseteq> set xs"
    unfolding pre_def mid_def post_def by (auto dest!: set_takeWhileD in_set_dropD)
  have "P (snd (last mid))" if "mid \<noteq> []" using sub(2) assms(1) last_in_set [OF that] by blast
  then have "mid \<noteq> [] \<Longrightarrow> P (max (snd (last mid)) e)" using assms(2) by (simp add: max_def)
  then show ?thesis using sub assms
    unfolding seg_insert_def Let_def pre_def [symmetric] mid_def [symmetric] post_def [symmetric]
    by (auto dest!: in_set_takeD)
qed

lemma stream_inv_first:
  assumes inv: "stream_inv B M S isn base st" and sg: "length sg = 5" "n \<le> 5" "take n sg = x # ys"
    and ok: "segs_ok (x # ys)" and bd: "\<forall>s \<in> set (x # ys). snd s \<le> B \<and> base + unat (snd s) \<le> M" and mem: "length mem = unat B"
    and a: "fst x \<le> a" "a \<le> snd x" and val: "\<forall>p \<in> seg_set ((a, snd x) # ys). mem ! unat p = S (base + unat p)"
  shows "stream_inv B M S isn base (st\<lparr>st_segs := sg[0 := (a, snd x)], n_seg := n, recvbuf := mem\<rparr>)"
    "consumed base (st\<lparr>st_segs := sg[0 := (a, snd x)], n_seg := n, recvbuf := mem\<rparr>) = base + unat a"
    "expected base (st\<lparr>st_segs := sg[0 := (a, snd x)], n_seg := n, recvbuf := mem\<rparr>) = base + unat (snd x)"
proof -
  note D = stream_invD [OF inv]
  obtain sg' where sg': "sg = x # sg'" using sg(1,3) by (cases sg; cases n) auto
  obtain m where m: "n = Suc m" using sg(3) by (cases n) auto
  have "act (st\<lparr>st_segs := sg[0 := (a, snd x)], n_seg := n, recvbuf := mem\<rparr>) = (a, snd x) # ys"
    using sg(3) by (simp add: sg' m)
  then show "stream_inv B M S isn base (st\<lparr>st_segs := sg[0 := (a, snd x)], n_seg := n, recvbuf := mem\<rparr>)"
    unfolding stream_inv_def using D(1,2) sg mem val bd segs_ok_shrink(1) [OF ok a] m by simp
  show "consumed base (st\<lparr>st_segs := sg[0 := (a, snd x)], n_seg := n, recvbuf := mem\<rparr>) = base + unat a"
    "expected base (st\<lparr>st_segs := sg[0 := (a, snd x)], n_seg := n, recvbuf := mem\<rparr>) = base + unat (snd x)"
    by (simp_all add: consumed_def expected_def sg')
qed

text \<open>The handler leaves at most the bytes it was given.\<close>

definition handler_ok :: "(u8 list \<Rightarrow> 's \<Rightarrow> u32 \<times> 's) \<Rightarrow> bool" where
  "handler_ok h \<longleftrightarrow> (\<forall>bs u. unat (fst (h bs u)) \<le> length bs)"

text \<open>
  What one packet does to the stream: either there is nothing for the handler, or it gets exactly the
  bytes between what it consumed and what is now complete.
\<close>

definition stream_effect ::
  "(nat \<Rightarrow> u8) \<Rightarrow> (u8 list \<Rightarrow> 's \<Rightarrow> u32 \<times> 's) \<Rightarrow> nat \<times> nat \<times> 's \<Rightarrow> bool \<Rightarrow> nat \<times> nat \<times> 's \<Rightarrow> bool" where
  "stream_effect S h s called s' = (case s of (c, x, u) \<Rightarrow> case s' of (c', x', u') \<Rightarrow>
     if called then x < x' \<and> (case h (map S [c..<x']) u of (r, v) \<Rightarrow> u' = v \<and> c' = x' - unat r)
     else u' = u \<and> c' = c \<and> x' = x)"

lemma streamDeliver_ok:
  assumes inv: "stream_inv B M S isn base st" and sg: "length sg = 5" "n \<le> 5" "take n sg = seg_insert loc en (act st)"
    and i: "i = length (takeWhile (\<lambda>s. snd s < loc) (act st))"
    and loc: "snd (st_segs st ! 0) \<le> loc" "loc < en" "en \<le> B" "base + unat en \<le> M"
    and bs: "bs = map S [base + unat loc..<base + unat en]" and h: "handler_ok h"
  shows "\<exists>called st' u'. streamDeliver h i bs loc en (st\<lparr>st_segs := sg, n_seg := n\<rparr>, u) = Some (called, st', u')
    \<and> stream_inv B M S isn base st'
    \<and> stream_effect S h (consumed base st, expected base st, u) called (consumed base st', expected base st', u')
    \<and> (called \<longleftrightarrow> loc = snd (st_segs st ! 0)) \<and> (called \<longrightarrow> base + unat en \<le> expected base st')"
proof -
  note D = stream_invD [OF inv]
  let ?x = "st_segs st ! 0"
  have len: "length (act st) \<le> MaxRecvSegs" using D(3,5) by simp
  have hd: "hd (act st) = ?x" by (rule D(10))
  note ok = seg_insert_ok(1,3) [OF D(6) loc(2) len]
  note hdp = seg_insert_head [OF D(6) loc(2) D(11), unfolded hd, OF loc(1)]
  obtain y ys where y: "take n sg = y # ys" using hdp(1) unfolding sg(3) [symmetric] by (meson list.exhaust)
  have y0: "sg ! 0 = y" and yh: "y = hd (seg_insert loc en (act st))"
    using y sg by (metis list.sel(1) nth_Cons_0 nth_take take_eq_Nil2 list.distinct(1) gr0I) (simp add: sg(3) [symmetric] y)
  have yok: "segs_ok (y # ys)" and ysub: "seg_set (y # ys) \<subseteq> seg_set (act st) \<union> {loc..<en}"
    using ok by (simp_all add: sg(3) [symmetric] y)
  have ybd: "\<forall>s \<in> set (y # ys). snd s \<le> B \<and> base + unat (snd s) \<le> M"
    using seg_insert_bound [of "act st" "\<lambda>v. v \<le> B \<and> base + unat v \<le> M" en loc] D(7,15) loc(3,4)
    by (simp add: sg(3) [symmetric] y)
  have fy: "fst y = fst ?x" "fst y \<le> snd y" using hdp(2) yh yok by (simp_all add: segs_ok_Cons)
  have yu: "unat (fst y) \<le> unat (snd y)" "unat (snd y) \<le> unat B" using fy(2) ybd by (simp_all add: word_le_nat_alt)
  have lu: "unat loc < unat en" "unat en \<le> unat B" using loc(2,3) by (simp_all add: word_less_nat_alt word_le_nat_alt)
  let ?r = "\<lambda>b. fst (h b u)"
  have hr: "unat (?r b) \<le> length b" for b using h by (simp add: handler_ok_def)
  show ?thesis
  proof (cases "y = (loc, en)")
    case True
    have x: "fst ?x = loc" "snd ?x = loc" using fy(1) True loc(1) D(13) by auto
    obtain r v where hv: "h bs u = (r, v)" by (cases "h bs u")
    have lb: "length bs = unat en - unat loc" by (simp add: bs)
    have r: "unat r \<le> unat en - unat loc" using hr [of bs] lb by (simp add: hv)
    have re: "unat (en - r) = unat en - unat r" using r by (intro unat_sub) (simp add: word_le_nat_alt)
    have an: "loc \<le> en - r" "en - r \<le> en" using re r lu by (simp_all add: word_le_nat_alt)
    obtain mem where mem: "length mem = unat B"
        "\<And>p. p < unat B \<Longrightarrow> mem ! p = (if unat en - unat r \<le> p \<and> p < unat en then S (base + p) else recvbuf st ! p)"
      and del: "streamDeliver h i bs loc en (st\<lparr>st_segs := sg, n_seg := n\<rparr>, u)
        = Some (True, st\<lparr>st_segs := sg[0 := (en - r, snd y)], n_seg := n, recvbuf := mem\<rparr>, v)"
    proof (cases "r = 0")
      case z: True
      show ?thesis
        by (rule that [of "recvbuf st"]) (use z D(8) in \<open>auto simp: streamDeliver_def y0 True hv\<close>)
    next
      case nz: False
      let ?b = "drop (length bs - unat r) bs"
      have lbb: "length ?b = unat r" using r lb by simp
      have "\<exists>m. store_bytes (unat (en - r)) ?b (recvbuf st) = Some m"
        using D(8) lu re r lb by (simp add: store_bytes_def)
      then obtain m where m: "store_bytes (unat (en - r)) ?b (recvbuf st) = Some m" ..
      have "m ! p = (if unat en - unat r \<le> p \<and> p < unat en then S (base + p) else recvbuf st ! p)" if "p < unat B" for p
        using nth_store_bytes [OF m, of p] that D(8) lbb r lu lb by (auto simp: re bs)
      with that [of m] m nz r lb show ?thesis
        by (simp add: streamDeliver_def y0 True hv length_store_bytes [OF m] D(8))
    qed
    have "mem ! unat p = S (base + unat p)" if p: "p \<in> seg_set ((en - r, snd y) # ys)" for p
    proof (cases "p \<in> {en - r..<en}")
      case pin: True
      then have "unat en - unat r \<le> unat p" "unat p < unat en" using re by (simp_all add: word_le_nat_alt word_less_nat_alt)
      then show ?thesis using mem(2) lu by simp
    next
      case False
      then obtain s where s: "s \<in> set ys" "fst s \<le> p" "p < snd s" using p True by (auto simp: seg_set_def)
      have "en < fst s" using yok s(1) True by (simp add: segs_ok_Cons)
      then have enp: "en < p" using s(2) by simp
      have "p \<in> seg_set (y # ys)" using s by (auto simp: seg_set_def)
      then have "p \<in> seg_set (act st) \<union> {loc..<en}" using ysub by blast
      then have "p \<in> seg_set (act st)" using enp by auto
      moreover have "unat p < unat B" "unat en < unat p" using s ybd enp by (auto simp: word_le_nat_alt word_less_nat_alt dest!: bspec)
      ultimately show ?thesis using mem(2) D(9) by simp
    qed
    note st' = stream_inv_first [OF inv sg(1,2) y yok ybd mem(1) _ _ ballI [OF this], of "en - r"]
    have c: "fst y \<le> en - r" "en - r \<le> snd y" using an True by simp_all
    show ?thesis
      using st' [OF c] del x True hv re r lu
      by (auto simp: stream_effect_def consumed_def [of base st] expected_def [of base st] bs intro!: exI)
  next
    case False
    have bl: "length bs = unat en - unat loc" by (simp add: bs)
    obtain mem where m: "store_bytes (unat loc) bs (recvbuf st) = Some mem"
      using lu D(8) bl by (simp add: store_bytes_def)
    have mem: "length mem = unat B" using length_store_bytes [OF m] D(8) by simp
    have mp: "mem ! p = (if unat loc \<le> p \<and> p < unat en then S (base + p) else recvbuf st ! p)" if "p < unat B" for p
      using nth_store_bytes [OF m, of p] that D(8) bl lu by (auto simp: bs)
    have val: "mem ! unat p = S (base + unat p)" if p: "p \<in> seg_set (y # ys)" for p
    proof -
      obtain s where "s \<in> set (y # ys)" "p < snd s" using p unfolding seg_set_def by (elim UN_E) simp
      then have "unat p < unat B" using ybd by (auto simp: word_le_nat_alt word_less_nat_alt dest!: bspec)
      moreover have "p \<in> seg_set (act st) \<or> unat loc \<le> unat p \<and> unat p < unat en"
        using subsetD [OF ysub p] by (auto simp: word_le_nat_alt word_less_nat_alt)
      ultimately show ?thesis using mp D(9) by auto
    qed
    show ?thesis
    proof (cases "loc = snd ?x")
      case eq: True
      then have i0: "i = 0" using i D(12) by simp
      have ey: "en \<le> snd y" using hdp(3) eq yh by simp
      define bb where "bb = take (unat (snd y - fst y)) (drop (unat (fst y)) mem)"
      have yd: "unat (snd y - fst y) = unat (snd y) - unat (fst y)" using fy(2) by (rule unat_sub)
      have ld: "load_bytes (unat (fst y)) (unat (snd y - fst y)) mem = Some bb"
        using yu mem yd by (simp add: load_bytes_def bb_def)
      have lbb: "length bb = unat (snd y) - unat (fst y)" using yu mem yd by (simp add: bb_def)
      have bsv: "bb = map S [base + unat (fst y)..<base + unat (snd y)]"
      proof (rule nth_equalityI)
        show "length bb = length (map S [base + unat (fst y)..<base + unat (snd y)])" using lbb by simp
        fix q assume "q < length bb"
        then have q: "q < unat (snd y) - unat (fst y)" using lbb by simp
        let ?p = "fst y + of_nat q"
        have qs: "unat (fst y) + q < 4294967296" using q unat_lt_u32 [of "snd y"] by linarith
        then have "unat (of_nat q :: u32) = q" by (intro unat_of_nat_small) simp
        then have pu: "unat ?p = unat (fst y) + q" using qs by (simp add: unat_add_u32_nowrap)
        have "?p \<in> {fst y..<snd y}" using q pu by (simp add: word_le_nat_alt word_less_nat_alt)
        then have "mem ! unat ?p = S (base + unat ?p)" by (intro val) simp
        then show "bb ! q = map S [base + unat (fst y)..<base + unat (snd y)] ! q"
          using q yu mem yd pu by (simp add: bb_def ac_simps)
      qed
      obtain r v where hv: "h bb u = (r, v)" by (cases "h bb u")
      have r: "unat r \<le> unat (snd y) - unat (fst y)" using hr [of bb] lbb by (simp add: hv)
      have re: "unat (snd y - r) = unat (snd y) - unat r" using r by (intro unat_sub) (simp add: word_le_nat_alt)
      have c: "fst y \<le> snd y - r" "snd y - r \<le> snd y" using re r yu by (simp_all add: word_le_nat_alt)
      have "mem ! unat p = S (base + unat p)" if "p \<in> seg_set ((snd y - r, snd y) # ys)" for p
        using that segs_ok_shrink(2) [OF yok c] by (intro val) auto
      note st' = stream_inv_first [OF inv sg(1,2) y yok ybd mem c ballI [OF this]]
      have del: "streamDeliver h i bs loc en (st\<lparr>st_segs := sg, n_seg := n\<rparr>, u)
          = Some (True, st\<lparr>st_segs := sg[0 := (snd y - r, snd y)], n_seg := n, recvbuf := mem\<rparr>, v)"
        using False m i0 ld hv by (cases y) (auto simp: streamDeliver_def y0)
      have eu: "unat en \<le> unat (snd y)" using ey by (simp add: word_le_nat_alt)
      show ?thesis
        using st' del eq hv re r lu eu fy(1) bsv
        by (auto simp: stream_effect_def consumed_def [of base st] expected_def [of base st] intro!: exI)
    next
      case neq: False
      then have lt: "snd ?x < loc" using loc(1) by simp
      then have i0: "i \<noteq> 0" using i D(12) by simp
      have yx: "y = ?x" using hdp(4) neq yh by simp
      have del: "streamDeliver h i bs loc en (st\<lparr>st_segs := sg, n_seg := n\<rparr>, u)
          = Some (False, st\<lparr>st_segs := sg[0 := (fst y, snd y)], n_seg := n, recvbuf := mem\<rparr>, u)"
        using False m i0 list_update_id [of sg 0] by (simp add: streamDeliver_def y0)
      note st' = stream_inv_first [OF inv sg(1,2) y yok ybd mem _ _ ballI [OF val], of "fst y"]
      show ?thesis
        using st' del neq fy(2) yx
        by (auto simp: stream_effect_def consumed_def [of base st] expected_def [of base st] intro!: exI)
    qed
  qed
qed

subsection \<open>One packet\<close>

text \<open>The packet carries \<open>n\<close> bytes of the stream from offset \<open>off\<close> on.\<close>

definition carries :: "(nat \<Rightarrow> u8) \<Rightarrow> u32 \<Rightarrow> nat \<Rightarrow> nat \<Rightarrow> Packet \<Rightarrow> bool" where
  "carries S isn off n pkt \<longleftrightarrow> \<not> flag_syn (p_tcp pkt) \<and> ntohl (seq_num (p_tcp pkt)) = isn + of_nat off
     \<and> 5 \<le> unat (data_offset (p_tcp pkt)) \<and> unat (ntohs (tot_len (p_ip pkt))) = 20 + 4 * unat (data_offset (p_tcp pkt)) + n
     \<and> load_bytes (4 * unat (data_offset (p_tcp pkt)) - 20) n (p_rest pkt) = Some (map S [off..<off + n])"

lemma load_bytes_drop:
  "load_bytes a n mem = Some L \<Longrightarrow> k \<le> n \<Longrightarrow> load_bytes (a + k) (n - k) mem = Some (drop k L)"
  by (auto simp: load_bytes_def drop_take add.commute split: if_splits)

lemma data_offset_less: "unat (data_offset th) < 16"
  by (simp add: data_offset_def unsigned_take_bit_eq take_bit_nat_less_exp [of 4, simplified])

lemma handlePacket_locate:
  assumes inv: "stream_inv B M S isn base st" and pkt: "carries S isn off n pkt"
    and near: "off + n < base + 2 ^ 31" "expected base st \<le> off + 2 ^ 30"
  defines "lo \<equiv> max off (expected base st)"
  shows "handlePacket True B h pkt (st, u) =
    (if off + n \<le> lo \<or> unat B < off + n - base then Some (False, st, u)
     else case streamInsert (of_nat (lo - base)) (of_nat (off + n - base)) (st_segs st) (n_seg st) of
         None \<Rightarrow> Some (False, st, u)
       | Some (i, sg, m) \<Rightarrow> do {
           (called, st, u) \<leftarrow> streamDeliver h i (map S [lo..<off + n]) (of_nat (lo - base)) (of_nat (off + n - base))
             (st\<lparr>st_segs := sg, n_seg := m\<rparr>, u);
           if called then do {
             st \<leftarrow> streamCompact B st;
             Some (True, st, u)
           } else Some (False, st, u)
         })"
proof -
  note D = stream_invD [OF inv]
  let ?x = "st_segs st ! 0" and ?do = "data_offset (p_tcp pkt)"
  define ex where "ex = expected base st"
  have ex: "ex = base + unat (snd ?x)" by (simp add: ex_def expected_def)
  have P: "\<not> flag_syn (p_tcp pkt)" "ntohl (seq_num (p_tcp pkt)) = isn + of_nat off" "5 \<le> unat ?do"
      "unat (ntohs (tot_len (p_ip pkt))) = 20 + 4 * unat ?do + n"
      "load_bytes (4 * unat ?do - 20) n (p_rest pkt) = Some (map S [off..<off + n])"
    using pkt by (auto simp: carries_def)
  have n: "n < 65536" using P(4) unat_lt_u16 [of "ntohs (tot_len (p_ip pkt))"] by linarith
  have start: "streamStart pkt st = (isn + of_nat off, st)" using P(1,2) D(1) by (simp add: streamStart_def)
  have size: "ucast (ntohs (tot_len (p_ip pkt))) - (20 + ucast ?do * 4) = (of_int (int n) :: u32)"
  proof -
    have "(ucast (ntohs (tot_len (p_ip pkt))) :: u32) = of_nat (unat (ntohs (tot_len (p_ip pkt))))" by simp
    also have "\<dots> = of_nat (20 + 4 * unat ?do + n)" by (simp only: P(4))
    also have "\<dots> = 20 + 4 * ucast ?do + of_nat n" by simp
    finally have a: "(ucast (ntohs (tot_len (p_ip pkt))) :: u32) = 20 + 4 * ucast ?do + of_nat n" .
    show ?thesis unfolding a by simp
  qed
  have loc: "isn + of_nat off - buf_seq st = (of_int (int off - int base) :: u32)" by (simp add: D(2))
  have "int ex - int base = uint (snd ?x)" by (simp add: ex)
  then have sx: "snd ?x = of_int (int ex - int base)" by simp
  have dif: "sint (of_int (int off - int base) - snd ?x :: u32) = int off - int ex"
  proof -
    have e: "(of_int (int off - int base) - snd ?x :: u32) = of_int (int off - int ex)"
      unfolding sx by (simp add: of_int_diff [symmetric] del: of_int_diff)
    have "ex \<le> off + 2 ^ 30" "base \<le> ex" using near(2) ex by (simp_all add: ex_def)
    then show ?thesis unfolding e using near(1) by (intro sint_of_int_small) simp_all
  qed
  have lob: "base \<le> lo" "ex \<le> lo" "off \<le> lo" using ex by (simp_all add: lo_def ex_def [symmetric])
  define d where "d = (if int off - int ex < 0 then int off - int ex else 0)"
  have dl: "int off - d = int lo" by (simp add: d_def lo_def ex_def [symmetric] max_def)
  have adj: "(if int off - int ex < 0
      then (of_int (int off - int base) - of_int (int off - int ex), data_start (p_tcp pkt) - (int off - int ex),
            of_int (int n) + of_int (int off - int ex))
      else (of_int (int off - int base), data_start (p_tcp pkt), of_int (int n)))
    = (of_int (int lo - int base) :: u32, data_start (p_tcp pkt) + (int lo - int off), of_int (int (off + n) - int lo) :: u32)"
    using dl unfolding d_def by (auto split: if_splits)
  have lon: "int lo - int (off + n) \<le> 2 ^ 30" using near(2) by (simp add: lo_def)
  have ssz: "sint (of_int (int (off + n) - int lo) :: u32) = int (off + n) - int lo"
    using lon n lob by (intro sint_of_int_small) simp_all
  have dst: "data_start (p_tcp pkt) = int (4 * unat ?do - 20)" using P(3) by (simp add: data_start_def)
  have endw: "of_int (int off - int base) + of_int (int n) = (of_int (int (off + n) - int base) :: u32)" by simp
  show ?thesis
  proof (cases "off + n \<le> lo")
    case True
    then show ?thesis unfolding handlePacket_def Let_def prod.case start loc size dif adj ssz by simp
  next
    case False
    then have pos: "\<not> int (off + n) - int lo \<le> 0" by simp
    have eb: "off + n - base < 4294967296" "base \<le> off + n" using near(1) False lob by simp_all
    have en: "(of_int (int (off + n) - int base) :: u32) = of_nat (off + n - base)" using eb(2) by (simp add: of_nat_diff)
    have lw: "(of_int (int lo - int base) :: u32) = of_nat (lo - base)" using lob(1) by (simp add: of_nat_diff)
    have enu: "unat (of_nat (off + n - base) :: u32) = off + n - base" using eb(1) by (intro unat_of_nat_small) simp
    have szu: "unat (of_int (int (off + n) - int lo) :: u32) = n - (lo - off)"
    proof -
      have "(of_int (int (off + n) - int lo) :: u32) = of_nat (n - (lo - off))" using False lob(3) by (simp add: of_nat_diff)
      then show ?thesis using n by (simp add: unat_of_nat_small)
    qed
    have "load_bytes (4 * unat ?do - 20 + (lo - off)) (n - (lo - off)) (p_rest pkt) = Some (map S [lo..<off + n])"
      using load_bytes_drop [OF P(5), of "lo - off"] False lob(3) by (simp add: drop_map)
    moreover have "nat (int (4 * unat ?do - 20) + (int lo - int off)) = 4 * unat ?do - 20 + (lo - off)" using lob(3) by simp
    moreover have "\<not> int (4 * unat ?do - 20) + (int lo - int off) < 0" using lob(3) by simp
    moreover have "B < of_nat (off + n - base) \<longleftrightarrow> unat B < off + n - base" by (simp add: word_less_nat_alt enu)
    ultimately show ?thesis using False pos
      unfolding handlePacket_def Let_def prod.case start loc size dif adj ssz endw en lw szu
      unfolding dst by (simp split: option.splits)
  qed
qed

lemma handlePacket_step:
  assumes inv: "stream_inv B M S isn base st" and pkt: "carries S isn off n pkt" and h: "handler_ok h"
    and B: "even (unat B)" and M: "off + n \<le> M" "M \<le> 2 ^ 30"
  shows "\<exists>called st' u' base'. handlePacket True B h pkt (st, u) = Some (called, st', u') \<and> stream_inv B M S isn base' st'
    \<and> stream_effect S h (consumed base st, expected base st, u) called (consumed base' st', expected base' st', u')
    \<and> (off \<le> expected base st \<and> expected base st < off + n \<and> off + n \<le> base + unat B \<longrightarrow>
        called \<and> off + n \<le> expected base' st')"
proof -
  note D = stream_invD [OF inv]
  let ?x = "st_segs st ! 0"
  define ex where "ex = expected base st"
  define lo where "lo = max off ex"
  have ex: "ex = base + unat (snd ?x)" "ex \<le> M" using D(16) by (simp_all add: ex_def expected_def)
  have near: "off + n < base + 2 ^ 31" "expected base st \<le> off + 2 ^ 30" using M ex(2) by (simp_all add: ex_def)
  note run = handlePacket_locate [OF inv pkt near, of h u, folded ex_def, folded lo_def]
  have same: ?thesis if "handlePacket True B h pkt (st, u) = Some (False, st, u)"
      "\<not> (off \<le> ex \<and> ex < off + n \<and> off + n \<le> base + unat B)"
    using that inv by (auto simp: stream_effect_def ex_def intro!: exI)
  show ?thesis
  proof (cases "off + n \<le> lo \<or> unat B < off + n - base")
    case True
    then show ?thesis using run ex by (intro same) (auto simp: lo_def)
  next
    case False
    then have f: "lo < off + n" "off + n - base \<le> unat B" by simp_all
    let ?loc = "of_nat (lo - base) :: u32" and ?en = "of_nat (off + n - base) :: u32"
    have lb: "base \<le> lo" "ex \<le> lo" using ex by (simp_all add: lo_def)
    have s: "lo - base < 4294967296" "off + n - base < 4294967296" using f M by simp_all
    have u: "unat ?loc = lo - base" "unat ?en = off + n - base" using s by (simp_all add: unat_of_nat_small)
    have loc: "snd ?x \<le> ?loc" "?loc < ?en" "?en \<le> B" "base + unat ?en \<le> M"
      unfolding word_le_nat_alt word_less_nat_alt u using f ex(1) lb M(1) by linarith+
    have le: "?loc = snd ?x \<longleftrightarrow> lo = ex" unfolding word_unat_eq_iff u using ex(1) lb by linarith
    note ref = streamInsert_refines [OF D(3,5), of ?loc ?en]
    show ?thesis
    proof (cases "streamInsert ?loc ?en (st_segs st) (n_seg st)")
      case None
      then have "stream_insert ?loc ?en (act st) = act st" using ref by simp
      then have "snd ?x \<noteq> ?loc"
        using stream_segs.ins_next [OF D(6) loc(2) D(11)] D(10) loc(2) by auto
      then have "lo \<noteq> ex" using le by auto
      then show ?thesis using run None False by (intro same) (auto simp: lo_def)
    next
      case (Some a)
      obtain i sg m where a: "a = (i, sg, m)" by (cases a)
      have r: "length sg = 5" "m \<le> 5" "take m sg = seg_insert ?loc ?en (act st)"
          "i = length (takeWhile (\<lambda>s. snd s < ?loc) (act st))" using ref Some by (auto simp: a)
      have bs: "map S [lo..<off + n] = map S [base + unat ?loc..<base + unat ?en]" using u lb f by simp
      from streamDeliver_ok [OF inv r loc bs h, of u]
      obtain called st1 u1 where d: "streamDeliver h i (map S [lo..<off + n]) ?loc ?en (st\<lparr>st_segs := sg, n_seg := m\<rparr>, u)
            = Some (called, st1, u1)"
        "stream_inv B M S isn base st1"
        "stream_effect S h (consumed base st, ex, u) called (consumed base st1, expected base st1, u1)"
        "called \<longleftrightarrow> ?loc = snd ?x" "called \<longrightarrow> off + n \<le> expected base st1"
        using u lb f by (auto simp: ex_def)
      have cl: "called \<longleftrightarrow> lo = ex" using d(4) le by simp
      show ?thesis
      proof (cases called)
        case True
        obtain st2 base2 where c: "streamCompact B st1 = Some st2" "stream_inv B M S isn base2 st2"
            "consumed base2 st2 = consumed base st1" "expected base2 st2 = expected base st1"
          using streamCompact_ok [OF d(2) B] by auto
        show ?thesis
          using run False Some d True c by (intro exI [of _ True] exI [of _ st2] exI [of _ u1] exI [of _ base2]) (simp add: a ex_def)
      next
        case nc: False
        then have "\<not> off \<le> ex" using cl by (simp add: lo_def)
        then show ?thesis
          using run False Some d nc by (intro exI [of _ False] exI [of _ st1] exI [of _ u1] exI [of _ base]) (simp add: a ex_def)
      qed
    qed
  qed
qed

subsection \<open>Whole streams\<close>

fun sniff :: "u32 \<Rightarrow> (u8 list \<Rightarrow> 's \<Rightarrow> u32 \<times> 's) \<Rightarrow> Packet list \<Rightarrow> TcpStream \<times> 's \<Rightarrow> (TcpStream \<times> 's) option" where
  "sniff B h [] s = Some s"
| "sniff B h (pkt # pkts) s = do {
     (called, s) \<leftarrow> handlePacket True B h pkt s;
     sniff B h pkts s
   }"

text \<open>A handler that records what it consumes; \<open>keep\<close> says how much it leaves.\<close>

definition log_handler :: "(u8 list \<Rightarrow> u32) \<Rightarrow> u8 list \<Rightarrow> u8 list \<Rightarrow> u32 \<times> u8 list" where
  "log_handler keep bs log = (keep bs, log @ take (length bs - unat (keep bs)) bs)"

lemma log_effect:
  assumes "stream_effect S (log_handler keep) (c, x, map S [0..<c]) called (c', x', log)" and "c \<le> x"
    and keep: "\<And>bs. unat (keep bs) \<le> length bs"
  shows "log = map S [0..<c']"
proof (cases called)
  case True
  have k: "unat (keep (map S [c..<x'])) \<le> x' - c" using keep [of "map S [c..<x']"] by simp
  have e: "x < x'" "log = map S [0..<c] @ take (x' - c - unat (keep (map S [c..<x']))) (map S [c..<x'])"
      "c' = x' - unat (keep (map S [c..<x']))"
    using assms(1) True by (auto simp: stream_effect_def log_handler_def)
  then have "log = map S [0..<c] @ map S [c..<c']" using k assms(2) by (simp add: take_map)
  then show ?thesis using e k assms(2) by (metis diff_le_mono2 le_add1 map_append upt_add_eq_append zero_le le_add_diff_inverse
    less_imp_le_nat diff_diff_cancel diff_le_self order_trans le_diff_conv2 add.commute)
next
  case False
  then show ?thesis using assms(1) by (simp add: stream_effect_def)
qed

lemma sniff_log:
  assumes "stream_inv B M S isn base st" and "even (unat B)" and "M \<le> 2 ^ 30" and keep: "\<And>bs. unat (keep bs) \<le> length bs"
    and "\<forall>pkt \<in> set pkts. \<exists>off n. carries S isn off n pkt \<and> off + n \<le> M"
  shows "\<exists>st' base'. sniff B (log_handler keep) pkts (st, map S [0..<consumed base st])
      = Some (st', map S [0..<consumed base' st']) \<and> stream_inv B M S isn base' st' \<and> expected base st \<le> expected base' st'"
  using assms(1,5)
proof (induction pkts arbitrary: st base)
  case (Cons pkt pkts)
  obtain off n where c: "carries S isn off n pkt" "off + n \<le> M" using Cons.prems(2) by auto
  have h: "handler_ok (log_handler keep)" using keep by (simp add: handler_ok_def log_handler_def)
  obtain called st1 log base1 where s: "handlePacket True B (log_handler keep) pkt (st, map S [0..<consumed base st]) = Some (called, st1, log)"
      "stream_inv B M S isn base1 st1"
      "stream_effect S (log_handler keep) (consumed base st, expected base st, map S [0..<consumed base st]) called
         (consumed base1 st1, expected base1 st1, log)"
    using handlePacket_step [OF Cons.prems(1) c(1) h assms(2) c(2) assms(3), of "map S [0..<consumed base st]"] by blast
  have "consumed base st \<le> expected base st"
    using stream_invD(13) [OF Cons.prems(1)] by (simp add: consumed_def expected_def word_le_nat_alt)
  then have l: "log = map S [0..<consumed base1 st1]" by (rule log_effect [OF s(3) _ keep])
  have "expected base st \<le> expected base1 st1" using s(3) by (auto simp: stream_effect_def split: if_splits)
  then show ?case using Cons.IH [OF s(2)] Cons.prems(2) s(1) l by (auto intro: order_trans)
qed auto

text \<open>A stream starts with the SYN, which carries no data here.\<close>

definition opens :: "u32 \<Rightarrow> Packet \<Rightarrow> bool" where
  "opens isn pkt \<longleftrightarrow> flag_syn (p_tcp pkt) \<and> ntohl (seq_num (p_tcp pkt)) + 1 = isn
     \<and> unat (ntohs (tot_len (p_ip pkt))) = 20 + 4 * unat (data_offset (p_tcp pkt))"

lemma handlePacket_syn:
  assumes "opens isn pkt" and st: "length (st_segs st) = 5" "length (recvbuf st) = unat B"
  shows "\<exists>st'. handlePacket W B h pkt (st, u) = Some (False, st', u) \<and> stream_inv B M S isn 0 st'
    \<and> consumed 0 st' = 0 \<and> expected 0 st' = 0"
proof -
  let ?do = "data_offset (p_tcp pkt)"
  let ?st = "st\<lparr>init_stream := True, buf_seq := isn, n_seg := 1, st_segs := (st_segs st)[0 := (0, 0)]\<rparr>"
  have o: "flag_syn (p_tcp pkt)" "ntohl (seq_num (p_tcp pkt)) + 1 = isn"
    "unat (ntohs (tot_len (p_ip pkt))) = 20 + 4 * unat ?do" using assms(1) by (auto simp: opens_def)
  have z: "(ucast (ntohs (tot_len (p_ip pkt))) :: u32) = 20 + ucast ?do * 4"
  proof -
    have "(ucast (ntohs (tot_len (p_ip pkt))) :: u32) = of_nat (unat (ntohs (tot_len (p_ip pkt))))" by simp
    also have "\<dots> = of_nat (20 + 4 * unat ?do)" by (simp only: o(3))
    finally show ?thesis by simp
  qed
  have "streamStart pkt st = (isn, ?st)" using o(1,2) by (simp add: streamStart_def)
  moreover have "?st = st\<lparr>init_stream := True, buf_seq := isn, n_seg := 1, st_segs := (st_segs st)[0 := (0, 0)]\<rparr>" by simp
  ultimately have "handlePacket W B h pkt (st, u) = Some (False, ?st, u)"
    using st by (simp add: handlePacket_def z)
  moreover obtain x xs where "st_segs st = x # xs" using st(1) by (cases "st_segs st") auto
  ultimately show ?thesis using st by (auto simp: stream_inv_def segs_ok_def consumed_def expected_def)
qed

subsection \<open>Properties of the sniffer\<close>

definition byte_pkt :: "u16 \<Rightarrow> u32 \<Rightarrow> u16 \<Rightarrow> u8 list \<Rightarrow> Packet" where
  "byte_pkt flags sq len bs =
     \<lparr>p_eth = \<lparr>dst_mac = [], src_mac = [], ether_type = 0x0008\<rparr>,
      p_ip = \<lparr>header_len = 5, ip_ver = 4, tos = 0, tot_len = htons len, ip_id = 0, frag_offset_flags = 0, ttl = 64,
        protocol = 6, ip_checksum = 0, src_ip = 0, dst_ip = 0\<rparr>,
      p_tcp = \<lparr>src_port = 0, dst_port = 0, seq_num = htonl sq, ack_num = 0, offset_flags = flags, window_size = 0,
        tcp_checksum = 0, urgent_pointer = 0\<rparr>,
      p_rest = bs\<rparr>"

definition idle_stream :: TcpStream where
  "idle_stream = \<lparr>init_stream = False, filter_src_ip = 0, filter_dst_ip = 0, filter_src_port = 0, filter_dst_port = 0,
     buf_seq = 0, n_seg = 1, st_segs = replicate 5 (0, 0), recvbuf = replicate 16 0\<rparr>"

definition open_stream :: TcpStream where
  "open_stream = idle_stream\<lparr>init_stream := True, buf_seq := 1\<rparr>"

lemma byte_pkt_kinds:
  "opens 1 (byte_pkt 0x0250 0 40 [])" "carries (\<lambda>_. 7) 1 0 2 (byte_pkt 0x0050 1 42 [7, 7])"
proof -
  have "data_offset (p_tcp (byte_pkt f sq len bs)) = take_bit 4 (drop_bit 4 f)" for f sq len bs
    by (simp add: data_offset_def byte_pkt_def)
  then have d: "data_offset (p_tcp (byte_pkt 0x0250 0 40 [])) = 5" "data_offset (p_tcp (byte_pkt 0x0050 1 42 [7, 7])) = 5"
    by simp_all
  show "opens 1 (byte_pkt 0x0250 0 40 [])" by (simp add: opens_def d) (simp add: byte_pkt_def)
  show "carries (\<lambda>_. 7) 1 0 2 (byte_pkt 0x0050 1 42 [7, 7])"
    by (simp add: carries_def d) (simp add: byte_pkt_def load_bytes_def upt_rec)
qed





text \<open>
  The filter accepts exactly the TCP packets over IPv4 whose addresses and ports agree with the
  configured ones, where a zero stands for any.
\<close>

theorem filterPacket_correct:
  "filterPacket pkt (initFilter pton sip sport dip dport st) \<longleftrightarrow>
     ether_type (p_eth pkt) = htons 0x0800 \<and> protocol (p_ip pkt) = 6
     \<and> (case pton sip of None \<Rightarrow> filter_src_ip st | Some x \<Rightarrow> x) \<in> {0, src_ip (p_ip pkt)}
     \<and> (case pton dip of None \<Rightarrow> filter_dst_ip st | Some x \<Rightarrow> x) \<in> {0, dst_ip (p_ip pkt)}
     \<and> sport \<in> {0, ntohs (src_port (p_tcp pkt))} \<and> dport \<in> {0, ntohs (dst_port (p_tcp pkt))}"
proof -
  have h0: "htons 0 = 0" "htons 0x0800 = 0x0008" by (simp_all add: htons_def)
  have z: "htons v = 0 \<longleftrightarrow> v = 0" for v using htons_eq_iff [of v 0] h0(1) by simp
  have s: "v = htons w \<longleftrightarrow> htons v = w" for v w by (metis htons_htons)
  show ?thesis by (auto simp: filterPacket_def initFilter_def z s h0(2))
qed

end
