(* ===== verification/ResetFrames.thy ===== *)
theory ResetFrames
  imports Core
begin

text \<open>
  The control frames that \<^verbatim>\<open>Core\<close> sends from its last buffer: resets for packets that
  belong to no connection, and acknowledgements for connections in time-wait. Their checksums are
  completed from sums that \<^verbatim>\<open>init\<close> computes once.
\<close>

subsection \<open>The cached sums\<close>

definition ip_base :: "IpHeader \<Rightarrow> IpHeader" where
  "ip_base ip = ip\<lparr>tot_len := 0, ip_checksum := 0, dst_ip := 0\<rparr>"

text \<open>
  The last send buffer and the sums that go with it: the IP sum covers the fixed header fields,
  the TCP sum the source address and the protocol; window and urgent pointer are zero.
\<close>

definition rst_ok :: "'a Core_scheme \<Rightarrow> bool" where
  "rst_ok c \<longleftrightarrow> send_bufs c \<noteq> [] \<and>
     (let rst = last (send_bufs c) in
        unat (csum (rst_ipsum c)) = words_sum (ip_words (ip_base (ip_hdr rst)))
        \<and> unat (csum (rst_tcpsum c)) = u32_sum (src_ip (ip_hdr rst)) + unat (htons 6)
        \<and> window_size (tcp_hdr rst) = 0 \<and> urgent_pointer (tcp_hdr rst) = 0
        \<and> 12 \<le> length (body rst))"

lemma rst_get: "send_bufs c \<noteq> [] \<Longrightarrow> arr_get (send_bufs c) (rst_idx c) = Some (last (send_bufs c))"
  by (simp add: rst_idx_def arr_get_def last_conv_nth)

lemma rst_set: "send_bufs c \<noteq> [] \<Longrightarrow> (send_bufs c)[rst_idx c := b] = butlast (send_bufs c) @ [b]"
  unfolding rst_idx_def by (metis append_butlast_last_id length_butlast list_update_length)

lemma words_sum_le': "length ws \<le> n \<Longrightarrow> words_sum ws \<le> 65535 * n"
  using words_sum_le [of ws] by (meson le_trans mult_le_mono2)

lemma length_ip_words [simp]: "length (ip_words ip) = 10"
  by (simp add: ip_words_def)

text \<open>One completed control frame.\<close>

lemma sumRst_valid:
  fixes c :: "'a Core_scheme" and rst :: SendBuf and has_ts :: bool
  assumes ok: "unat (csum (rst_ipsum c)) = words_sum (ip_words (ip_base (ip_hdr rst)))"
      "unat (csum (rst_tcpsum c)) = u32_sum (src_ip (ip_hdr rst)) + unat (htons 6)"
      "window_size (tcp_hdr rst) = 0" "urgent_pointer (tcp_hdr rst) = 0" "12 \<le> length (body rst)"
  defines "n \<equiv> (if has_ts then 12 else 0 :: nat)"
  defines "b \<equiv> sumRst has_ts c rst"
  shows "frame_valid \<lparr>f_eth = eth_hdr b, f_ip = ip_hdr b, f_tcp = tcp_hdr b, f_payload = take n (body b)\<rparr>"
proof -
  let ?t = "tcp_hdr rst" and ?d = "dst_ip (ip_hdr rst)"
  define ipsum where "ipsum = CSum_add32 ?d (rst_ipsum c)"
  define t1 where "t1 = CSum_add32 ?d (rst_tcpsum c)"
  define t2 where "t2 = CSum_add16 (dst_port ?t) (CSum_add16 (src_port ?t) t1)"
  define t3 where "t3 = CSum_add16 (offset_flags ?t) (CSum_add32 (ack_num ?t) (CSum_add32 (seq_num ?t) t2))"
  define t4 where "t4 = (if has_ts then CSum_addWords (byte_words (take 12 (body rst))) t3 else t3)"
  have base: "words_sum (ip_words (ip_base (ip_hdr rst))) \<le> 65535 * 10" by (rule words_sum_le') simp
  have ip: "unat (csum ipsum) = words_sum (ip_words (ip_base (ip_hdr rst))) + u32_sum ?d"
    unfolding ipsum_def ok(1) [symmetric] using base ok(1) u32_sum_le [of ?d] by (intro CSum_add32_val) linarith
  note small = u32_sum_le [of "src_ip (ip_hdr rst)"] u32_sum_le [of ?d] u32_sum_le [of "seq_num ?t"]
    u32_sum_le [of "ack_num ?t"] unat_le_u16 [of "htons 6"] unat_le_u16 [of "src_port ?t"]
    unat_le_u16 [of "dst_port ?t"] unat_le_u16 [of "offset_flags ?t"]
  have v1: "unat (csum t1) = u32_sum (src_ip (ip_hdr rst)) + unat (htons 6) + u32_sum ?d"
    unfolding t1_def using ok(2) small by (subst CSum_add32_val) simp_all
  have v2: "unat (csum t2) = unat (csum t1) + unat (src_port ?t) + unat (dst_port ?t)"
    unfolding t2_def using v1 small by (simp add: CSum_add16_val)
  have v3: "unat (csum t3) = unat (csum t2) + u32_sum (seq_num ?t) + u32_sum (ack_num ?t) + unat (offset_flags ?t)"
    unfolding t3_def using v1 v2 small by (simp add: CSum_add16_val CSum_add32_val)
  have body: "bsum False (take 12 (body rst)) \<le> 65535 * 6"
    unfolding words_sum_bytes [symmetric] by (rule words_sum_le') (simp add: length_byte_words)
  have v4: "unat (csum t4) = unat (csum t3) + bsum False (take n (body rst))"
    unfolding t4_def n_def using v1 v2 v3 small body by (simp add: CSum_addWords_val words_sum_bytes)
  have b: "b = setOptDataLen (of_nat n) ipsum t4 rst"
    unfolding b_def sumRst_def Let_def ipsum_def t4_def t3_def t2_def t1_def n_def by simp
  have n: "unat (of_nat n :: u16) = n" by (simp add: n_def)
  have "frame_valid \<lparr>f_eth = eth_hdr b, f_ip = ip_hdr b, f_tcp = tcp_hdr b, f_payload = take (unat (of_nat n :: u16)) (body b)\<rparr>"
    unfolding b
  proof (rule setOptDataLen_valid)
    show "unat (csum ipsum) + 65535 < 4294967296" using ip base u32_sum_le [of ?d] by linarith
    show "unat (csum ipsum) mod 65535 = words_sum (ip_words ((ip_hdr rst)\<lparr>tot_len := 0, ip_checksum := 0\<rparr>)) mod 65535"
      unfolding ip by (simp add: ip_words_def ip_base_def u32_sum_def ac_simps)
    show "unat (csum t4) + 65535 < 4294967296"
      using v1 v2 v3 v4 small body by (auto simp: n_def)
    show "unat (csum t4) mod 65535
        = (u32_sum (src_ip (ip_hdr rst)) + u32_sum ?d + unat (htons 6)
           + words_sum (tcp_words (?t\<lparr>tcp_checksum := 0\<rparr>)) + bsum False (take (unat (of_nat n :: u16)) (body rst))) mod 65535"
      unfolding n v4 v3 v2 v1 by (simp add: tcp_words_def ok(3,4) ac_simps)
  qed (use ok(5) in \<open>simp_all add: n_def\<close>)
  then show ?thesis unfolding n .
qed


lemma sumRst_fields [simp]:
  "eth_hdr (sumRst ts c b) = eth_hdr b" "body (sumRst ts c b) = body b" "avail (sumRst ts c b) = avail b"
  "ip_base (ip_hdr (sumRst ts c b)) = ip_base (ip_hdr b)" "src_ip (ip_hdr (sumRst ts c b)) = src_ip (ip_hdr b)"
  "dst_ip (ip_hdr (sumRst ts c b)) = dst_ip (ip_hdr b)"
  "ntohs (tot_len (ip_hdr (sumRst ts c b))) = (if ts then 52 else 40)"
  "window_size (tcp_hdr (sumRst ts c b)) = window_size (tcp_hdr b)"
  "urgent_pointer (tcp_hdr (sumRst ts c b)) = urgent_pointer (tcp_hdr b)"
  by (simp_all add: sumRst_def setOptDataLen_def Let_def ip_base_def)

lemma sumRst_tcp [simp]:
  "src_port (tcp_hdr (sumRst ts c b)) = src_port (tcp_hdr b)" "dst_port (tcp_hdr (sumRst ts c b)) = dst_port (tcp_hdr b)"
  "seq_num (tcp_hdr (sumRst ts c b)) = seq_num (tcp_hdr b)" "ack_num (tcp_hdr (sumRst ts c b)) = ack_num (tcp_hdr b)"
  "offset_flags (tcp_hdr (sumRst ts c b)) = offset_flags (tcp_hdr b)"
  by (simp_all add: sumRst_def setOptDataLen_def Let_def)

text \<open>
  Filling the last buffer and sending it: if the fixed fields stay as they are, the frame is
  valid and the buffer is ready for the next one.
\<close>

lemma send_control:
  fixes c :: "'a Core_scheme"
  assumes ok: "rst_ok c" and rst: "rst = last (send_bufs c)"
    and same: "ip_base (ip_hdr b) = ip_base (ip_hdr rst)" "src_ip (ip_hdr b) = src_ip (ip_hdr rst)"
      "window_size (tcp_hdr b) = 0" "urgent_pointer (tcp_hdr b) = 0" "length (body b) = length (body rst)"
  shows "\<exists>c' f. core_send (rst_idx c) (c\<lparr>send_bufs := (send_bufs c)[rst_idx c := sumRst ts c b]\<rparr>) = Some c'
    \<and> wire c' = wire c @ [f] \<and> frame_valid f \<and> f_eth f = eth_hdr b \<and> dst_ip (f_ip f) = dst_ip (ip_hdr b)
    \<and> src_ip (f_ip f) = src_ip (ip_hdr b)
    \<and> f_tcp f = tcp_hdr (sumRst ts c b) \<and> f_payload f = take (if ts then 12 else 0) (body b)
    \<and> rst_ok c' \<and> \<not> avail (last (send_bufs c')) \<and> butlast (send_bufs c') = butlast (send_bufs c)"
proof -
  let ?b = "sumRst ts c b" and ?n = "if ts then 12 else 0 :: nat"
  let ?c = "c\<lparr>send_bufs := butlast (send_bufs c) @ [?b]\<rparr>"
  have ne: "send_bufs c \<noteq> []" and sums: "unat (csum (rst_ipsum c)) = words_sum (ip_words (ip_base (ip_hdr rst)))"
      "unat (csum (rst_tcpsum c)) = u32_sum (src_ip (ip_hdr rst)) + unat (htons 6)" and len: "12 \<le> length (body rst)"
    using ok by (auto simp: rst_ok_def rst Let_def)
  have upd: "(butlast (send_bufs c) @ [y])[length (send_bufs c) - Suc 0 := z] = butlast (send_bufs c) @ [z]" for y z
    using list_update_length [of "butlast (send_bufs c)" y "[]" z] by simp
  have idx: "rst_idx c = length (butlast (send_bufs c))" by (simp add: rst_idx_def)
  let ?f = "\<lparr>f_eth = eth_hdr ?b, f_ip = ip_hdr ?b, f_tcp = tcp_hdr ?b, f_payload = take ?n (body ?b)\<rparr>"
  have valid: "frame_valid ?f"
    by (rule sumRst_valid) (use sums same len in simp_all)
  have n: "unat (ntohs (tot_len (ip_hdr ?b))) - 40 = ?n" by simp
  let ?c' = "?c\<lparr>wire := wire c @ [?f], send_bufs := butlast (send_bufs c) @ [?b\<lparr>avail := False\<rparr>]\<rparr>"
  have "core_send (rst_idx c) ?c = Some ?c'"
    unfolding core_send_def idx
    using n len same(5) upd by (simp add: arr_get_def load_bytes_def nth_append Let_def)
  moreover have "rst_ok ?c'"
    using sums same len by (simp add: rst_ok_def Let_def)
  ultimately show ?thesis
    unfolding rst_set [OF ne] using valid
    by (intro exI [of _ ?c'] exI [of _ ?f]) simp
qed


subsection \<open>Resets\<close>

lemma put_bit_iff: "n < 16 \<Longrightarrow> bit (put_bit n v w) k \<longleftrightarrow> (if k = n then v else bit w k)"
  by (auto simp: put_bit_def bit_set_bit_iff bit_unset_bit_iff)

lemma offset_bit: "bit (offset_flags (set_data_offset v t)) k \<longleftrightarrow>
    (if 4 \<le> k \<and> k < 8 then bit v (k - 4) else bit (offset_flags t) k)"
proof -
  have m: "(0xff0f :: u16) = NOT (push_bit 4 (mask 4))" by (simp add: mask_eq_exp_minus_1)
  have b: "bit (0xff0f :: u16) k \<longleftrightarrow> k < 16 \<and> \<not> (4 \<le> k \<and> k < 8)"
    unfolding m by (auto simp: bit_not_iff bit_push_bit_iff bit_mask_iff)
  have o: "offset_flags (set_data_offset v t) = (offset_flags t AND 0xff0f) OR push_bit 4 (take_bit 4 v)"
    by (simp add: set_data_offset_def)
  have l: "bit (offset_flags t) k \<Longrightarrow> k < 16" using bit_imp_le_length [of "offset_flags t" k] by simp
  have "bit (offset_flags (set_data_offset v t)) k \<longleftrightarrow>
      bit (offset_flags t) k \<and> k < 16 \<and> \<not> (4 \<le> k \<and> k < 8) \<or> 4 \<le> k \<and> k < 16 \<and> k - 4 < 4 \<and> bit v (k - 4)"
    by (simp only: o bit_or_iff bit_and_iff bit_push_bit_iff bit_take_bit_iff b) auto
  then show ?thesis using l by auto
qed

lemma set_flag_fields [simp]:
  "src_port (set_fin v t) = src_port t" "src_port (set_syn v t) = src_port t"
  "src_port (set_rst v t) = src_port t" "src_port (set_ack v t) = src_port t" "src_port (set_data_offset w t) = src_port t"
  "dst_port (set_rst v t) = dst_port t" "dst_port (set_ack v t) = dst_port t" "dst_port (set_data_offset w t) = dst_port t"
  "seq_num (set_rst v t) = seq_num t" "seq_num (set_ack v t) = seq_num t" "seq_num (set_data_offset w t) = seq_num t"
  "ack_num (set_rst v t) = ack_num t" "ack_num (set_ack v t) = ack_num t" "ack_num (set_data_offset w t) = ack_num t"
  "window_size (set_rst v t) = window_size t" "window_size (set_ack v t) = window_size t"
  "window_size (set_data_offset w t) = window_size t"
  "urgent_pointer (set_rst v t) = urgent_pointer t" "urgent_pointer (set_ack v t) = urgent_pointer t"
  "urgent_pointer (set_data_offset w t) = urgent_pointer t"
  by (simp_all add: set_fin_def set_syn_def set_rst_def set_ack_def set_data_offset_def)

lemma set_flag_bits:
  "bit (offset_flags (set_rst v t)) k \<longleftrightarrow> (if k = 10 then v else bit (offset_flags t) k)"
  "bit (offset_flags (set_ack v t)) k \<longleftrightarrow> (if k = 12 then v else bit (offset_flags t) k)"
  by (simp_all add: set_rst_def set_ack_def put_bit_iff)

definition rst_header :: "Packet \<Rightarrow> TcpHeader \<Rightarrow> TcpHeader" where
  "rst_header pkt th =
     (let t = p_tcp pkt;
          th = set_data_offset 5 (set_rst True (th\<lparr>src_port := dst_port t, dst_port := src_port t\<rparr>))
      in if flag_ack t then (set_ack False th)\<lparr>seq_num := ack_num t\<rparr>
         else (set_ack True th)\<lparr>seq_num := 0, ack_num := htonl (ntohl (seq_num t) + of_int (seg_len (p_ip pkt) t))\<rparr>)"

text \<open>What RFC 793 asks of the reset that answers a packet.\<close>

definition answers_reset :: "Packet \<Rightarrow> Frame \<Rightarrow> bool" where
  "answers_reset pkt f \<longleftrightarrow>
     dst_mac (f_eth f) = src_mac (p_eth pkt) \<and> dst_ip (f_ip f) = src_ip (p_ip pkt)
     \<and> src_port (f_tcp f) = dst_port (p_tcp pkt) \<and> dst_port (f_tcp f) = src_port (p_tcp pkt)
     \<and> flag_rst (f_tcp f)
     \<and> (if flag_ack (p_tcp pkt) then \<not> flag_ack (f_tcp f) \<and> seq_num (f_tcp f) = ack_num (p_tcp pkt)
        else flag_ack (f_tcp f) \<and> seq_num (f_tcp f) = 0
          \<and> ntohl (ack_num (f_tcp f)) = ntohl (seq_num (p_tcp pkt)) + of_int (seg_len (p_ip pkt) (p_tcp pkt)))
     \<and> f_payload f = []"

lemma rspRst_spec:
  fixes c :: "'a Core_scheme"
  assumes ok: "rst_ok c" and av: "avail (last (send_bufs c))" and nr: "\<not> flag_rst (p_tcp pkt)"
  shows "\<exists>c' f. rspRst pkt c = Some c' \<and> wire c' = wire c @ [f] \<and> frame_valid f \<and> answers_reset pkt f
    \<and> rst_ok c' \<and> \<not> avail (last (send_bufs c'))"
proof -
  let ?rst = "last (send_bufs c)"
  have ne: "send_bufs c \<noteq> []" and z: "window_size (tcp_hdr ?rst) = 0" "urgent_pointer (tcp_hdr ?rst) = 0"
    using ok by (auto simp: rst_ok_def Let_def)
  let ?b = "?rst\<lparr>eth_hdr := (eth_hdr ?rst)\<lparr>dst_mac := src_mac (p_eth pkt)\<rparr>,
    ip_hdr := (ip_hdr ?rst)\<lparr>dst_ip := src_ip (p_ip pkt)\<rparr>, tcp_hdr := rst_header pkt (tcp_hdr ?rst)\<rparr>"
  have eq: "rspRst pkt c = core_send (rst_idx c) (c\<lparr>send_bufs := (send_bufs c)[rst_idx c := sumRst False c ?b]\<rparr>)"
    unfolding rspRst_def rst_get [OF ne] using av nr by (simp add: rst_header_def Let_def)
  have w: "window_size (tcp_hdr ?b) = 0" "urgent_pointer (tcp_hdr ?b) = 0"
    using z by (simp_all add: rst_header_def Let_def)
  have base: "ip_base (ip_hdr ?b) = ip_base (ip_hdr ?rst)" "src_ip (ip_hdr ?b) = src_ip (ip_hdr ?rst)"
    "length (body ?b) = length (body ?rst)" by (simp_all add: ip_base_def)
  obtain c' f where c': "rspRst pkt c = Some c'" "wire c' = wire c @ [f]" "frame_valid f" "f_eth f = eth_hdr ?b"
      "dst_ip (f_ip f) = dst_ip (ip_hdr ?b)" "f_tcp f = tcp_hdr (sumRst False c ?b)" "f_payload f = []"
      "rst_ok c'" "\<not> avail (last (send_bufs c'))"
    unfolding eq using send_control [OF ok refl base(1,2) w base(3), of False] by auto
  moreover have "answers_reset pkt f" unfolding answers_reset_def
    using c'(4-7) by (simp add: rst_header_def Let_def set_flag_bits offset_bit)
  ultimately show ?thesis by blast
qed


subsection \<open>Acknowledgements in time-wait\<close>

lemma length_le_bytes [simp]: "length (le_bytes k n) = k"
  by (induction k arbitrary: n) auto

lemma store_bytes_Some: "off + length bs \<le> length mem \<Longrightarrow>
    store_bytes off bs mem = Some (take off mem @ bs @ drop (off + length bs) mem)"
  by (simp add: store_bytes_def)

lemma length_bytes [simp]: "length (bytes32 v) = 4" "length (bytes16 w) = 2"
  by (simp_all add: bytes32_def bytes16_def)

lemma le_nat_le_bytes: "le_nat (le_bytes k n) = n mod 256 ^ k"
proof (induction k arbitrary: n)
  case (Suc k)
  have "n mod 256 + 256 * (n div 256 mod 256 ^ k) = n mod (256 * 256 ^ k)" by (simp add: mod_mult2_eq)
  then show ?case using Suc by (simp add: unat_of_nat)
qed simp

lemma word32_bytes32 [simp]: "word32 (bytes32 v) = v"
proof -
  have "unat v mod 256 ^ 4 = unat v" by (rule mod_less) simp
  then show ?thesis unfolding word32_def bytes32_def le_nat_le_bytes by simp
qed

lemma word16_bytes16 [simp]: "word16 (bytes16 v) = v"
proof -
  have "unat v mod 256 ^ 2 = unat v" by (rule mod_less) simp
  then show ?thesis unfolding word16_def bytes16_def le_nat_le_bytes by simp
qed

definition answers_tw :: "TimeWaitConn \<Rightarrow> Frame \<Rightarrow> bool" where
  "answers_tw tw f \<longleftrightarrow>
     dst_mac (f_eth f) = tw_dst_mac tw \<and> dst_ip (f_ip f) = tw_dst_ip tw
     \<and> src_port (f_tcp f) = tw_src_port tw \<and> dst_port (f_tcp f) = tw_dst_port tw
     \<and> flag_ack (f_tcp f) \<and> \<not> flag_rst (f_tcp f)
     \<and> seq_num (f_tcp f) = tw_seq_num tw \<and> ack_num (f_tcp f) = tw_ack_num tw"

lemma ackTW_spec:
  fixes c :: "'a Core_scheme"
  assumes ok: "rst_ok c" and av: "avail (last (send_bufs c))"
  shows "\<exists>c' f. ackTW tw c = Some c' \<and> wire c' = wire c @ [f] \<and> frame_valid f \<and> answers_tw tw f
    \<and> (tw_has_ts tw \<longrightarrow> take 4 (drop 4 (f_payload f)) = bytes32 (now_ts c)
         \<and> take 4 (drop 8 (f_payload f)) = bytes32 (tw_tsecr tw))
    \<and> rst_ok c' \<and> \<not> avail (last (send_bufs c'))"
proof -
  let ?ack = "last (send_bufs c)"
  have ne: "send_bufs c \<noteq> []" and z: "window_size (tcp_hdr ?ack) = 0" "urgent_pointer (tcp_hdr ?ack) = 0"
    and len: "12 \<le> length (body ?ack)"
    using ok by (auto simp: rst_ok_def Let_def)
  define th where "th = (set_ack True (set_rst False
    ((tcp_hdr ?ack)\<lparr>src_port := tw_src_port tw, dst_port := tw_dst_port tw\<rparr>)))
      \<lparr>seq_num := tw_seq_num tw, ack_num := tw_ack_num tw\<rparr>"
  define mem where "mem = (if tw_has_ts tw then take 4 (body ?ack) @ bytes32 (now_ts c) @ bytes32 (tw_tsecr tw) @ drop 12 (body ?ack)
    else body ?ack)"
  define b where "b = ?ack\<lparr>eth_hdr := (eth_hdr ?ack)\<lparr>dst_mac := tw_dst_mac tw\<rparr>,
    ip_hdr := (ip_hdr ?ack)\<lparr>dst_ip := tw_dst_ip tw\<rparr>,
    tcp_hdr := set_data_offset (if tw_has_ts tw then 8 else 5) th, body := mem\<rparr>"
  have s8: "store_bytes 8 (bytes32 (tw_tsecr tw)) (take 4 (body ?ack) @ bytes32 (now_ts c) @ drop 8 (body ?ack))
      = Some (take 4 (body ?ack) @ bytes32 (now_ts c) @ bytes32 (tw_tsecr tw) @ drop 12 (body ?ack))"
    using len by (simp add: store_bytes_def min_def)
  have "ackTW tw c = core_send (rst_idx c) (c\<lparr>send_bufs := (send_bufs c)[rst_idx c := sumRst (tw_has_ts tw) c b]\<rparr>)"
    unfolding ackTW_def rst_get [OF ne] using av len
    by (cases "tw_has_ts tw") (simp_all add: b_def mem_def th_def Let_def store_bytes_Some s8 [simplified])
  note eq = this
  have w: "window_size (tcp_hdr b) = 0" "urgent_pointer (tcp_hdr b) = 0"
    using z by (simp_all add: b_def th_def)
  have base: "ip_base (ip_hdr b) = ip_base (ip_hdr ?ack)" "src_ip (ip_hdr b) = src_ip (ip_hdr ?ack)"
    "length (body b) = length (body ?ack)" using len by (simp_all add: ip_base_def b_def mem_def)
  obtain c' f where c': "ackTW tw c = Some c'" "wire c' = wire c @ [f]" "frame_valid f" "f_eth f = eth_hdr b"
      "dst_ip (f_ip f) = dst_ip (ip_hdr b)" "f_tcp f = tcp_hdr (sumRst (tw_has_ts tw) c b)"
      "f_payload f = take (if tw_has_ts tw then 12 else 0) (body b)" "rst_ok c'" "\<not> avail (last (send_bufs c'))"
    unfolding eq using send_control [OF ok refl base(1,2) w base(3), of "tw_has_ts tw"] by auto
  moreover have "answers_tw tw f" unfolding answers_tw_def
    using c'(4-6) by (simp add: b_def th_def set_flag_bits offset_bit)
  moreover have "tw_has_ts tw \<longrightarrow> take 4 (drop 4 (f_payload f)) = bytes32 (now_ts c)
         \<and> take 4 (drop 8 (f_payload f)) = bytes32 (tw_tsecr tw)"
    using c'(7) len by (simp add: b_def mem_def min_def)
  ultimately show ?thesis by blast
qed

subsection \<open>Initialisation establishes the sums\<close>

definition blank :: "SendBuf \<Rightarrow> bool" where
  "blank b \<longleftrightarrow> tot_len (ip_hdr b) = 0 \<and> ip_checksum (ip_hdr b) = 0 \<and> dst_ip (ip_hdr b) = 0
     \<and> window_size (tcp_hdr b) = 0 \<and> urgent_pointer (tcp_hdr b) = 0 \<and> 12 \<le> length (body b)"

lemma initRst_ok:
  fixes c :: "'a Core_scheme"
  assumes ne: "send_bufs c \<noteq> []" and bl: "blank (last (send_bufs c))"
  shows "\<exists>c'. initRst c = Some c' \<and> rst_ok c' \<and> conn_tbl c' = conn_tbl c"
proof -
  let ?rst = "last (send_bufs c)"
  have b: "ip_base (ip_hdr ?rst) = ip_hdr ?rst" "12 \<le> length (body ?rst)"
    using bl by (simp_all add: blank_def ip_base_def)
  have "words_sum (ip_words (ip_hdr ?rst)) \<le> 65535 * 10" by (rule words_sum_le') simp
  then have v: "unat (csum (CSum_addWords (ip_words (ip_hdr ?rst)) (CSum_of 0))) = words_sum (ip_words (ip_hdr ?rst))"
    by (subst CSum_addWords_val) simp_all
  have "u32_sum (src_ip (ip_hdr ?rst)) + unat (htons 6) < 4294967296"
    using u32_sum_le [of "src_ip (ip_hdr ?rst)"] unat_le_u16 [of "htons 6"] by linarith
  then have t: "unat (csum (CSum_add16 (ntohs 6) (CSum_add32 (src_ip (ip_hdr ?rst)) (CSum_of 0))))
      = u32_sum (src_ip (ip_hdr ?rst)) + unat (htons 6)"
    by (subst CSum_add16_val; simp add: CSum_add32_val)+
  show ?thesis unfolding initRst_def rst_get [OF ne]
    using b bl ne v t
    by (simp add: store_bytes_Some Let_def rst_ok_def blank_def) (simp add: rst_idx_def last_list_update)
qed


definition dev_ok :: "Conf \<Rightarrow> Device \<Rightarrow> bool" where
  "dev_ok cf dev \<longleftrightarrow> ioctl_ok dev \<and> driver_open_ok dev \<and> pd_alloc_ok dev \<and> vi_alloc_ok dev \<and> memreg_ok dev
     \<and> (\<forall>i < unat (RecvBufCnt cf). receive_post_ok dev (of_nat i))"

lemma core_init_fails: "\<not> dev_ok cf dev \<Longrightarrow> \<exists>e. core_init cf dev ns c = Some (Inl e)"
  by (auto simp: dev_ok_def core_init_def Let_def)

lemma core_init_succeeds:
  fixes c :: "'a Core_scheme"
  assumes cf: "conf_ok cf" and len: "length (conn_tbl c) = unat (TotalTableSize cf)"
    and ne: "send_bufs c \<noteq> []" and bl: "blank (last (send_bufs c))" and dev: "dev_ok cf dev"
  shows "\<exists>c'. core_init cf dev ns c = Some (Inr c') \<and> tbl_ok cf c' \<and> conn_lookup c' = Map.empty \<and> rst_ok c'"
proof -
  let ?c1 = "c\<lparr>now_ts := ucast (drop_bit TsScale ns), local_ip := dev_ip dev, local_mac := dev_mac dev\<rparr>"
  let ?c2 = "?c1\<lparr>send_bufs := map (initSendBuf ?c1) (send_bufs c)\<rparr>"
  have "blank (last (send_bufs ?c2))"
    using ne bl by (simp add: last_map initSendBuf_def blank_def)
  then obtain c3 where c3: "initRst ?c2 = Some c3" "rst_ok c3" "conn_tbl c3 = conn_tbl ?c2"
    using initRst_ok [of ?c2] ne by auto
  let ?c4 = "c3\<lparr>timers := initTws cf (timers c3)\<rparr>"
  have "core_init cf dev ns c = Some (Inr (initTbl cf ?c4))"
    using dev c3(1) by (simp add: core_init_def dev_ok_def Let_def)
  moreover have "length (conn_tbl ?c4) = unat (TotalTableSize cf)" using c3(3) len by simp
  moreover have "rst_ok (initTbl cf ?c4)" using c3(2) by (simp add: rst_ok_def initTbl_def)
  ultimately show ?thesis using initTbl_ok [OF cf, of ?c4] by blast
qed

subsection \<open>Properties\<close>

text \<open>A concrete endpoint: one send buffer besides the one for control frames.\<close>

definition zero_buf :: SendBuf where
  "zero_buf = \<lparr>send_ts = 0, avail = False,
     eth_hdr = \<lparr>dst_mac = replicate 6 0, src_mac = replicate 6 0, ether_type = 0\<rparr>,
     ip_hdr = \<lparr>header_len = 0, ip_ver = 0, tos = 0, tot_len = 0, ip_id = 0, frag_offset_flags = 0, ttl = 0,
       protocol = 0, ip_checksum = 0, src_ip = 0, dst_ip = 0\<rparr>,
     tcp_hdr = \<lparr>src_port = 0, dst_port = 0, seq_num = 0, ack_num = 0, offset_flags = 0, window_size = 0,
       tcp_checksum = 0, urgent_pointer = 0\<rparr>,
     body = replicate 956 0\<rparr>"

definition zero_core :: Core where
  "zero_core = ConnTbl.extend two_tbl
     \<lparr>now_ts = 0, timers = newTimerNode, tws = [], send_bufs = [zero_buf, zero_buf], local_ip = 0, local_mac = [],
      rst_ipsum = CSum_of 0, rst_tcpsum = CSum_of 0, wire = [], rx_inits = [], rx_pushes = 0\<rparr>"

definition good_dev :: Device where
  "good_dev = \<lparr>ioctl_ok = True, dev_ip = 0x0100000a, driver_open_ok = True, pd_alloc_ok = True, vi_alloc_ok = True,
     dev_mac = [2, 0, 0, 0, 0, 1], memreg_ok = True, receive_post_ok = (\<lambda>_. True)\<rparr>"

definition some_pkt :: Packet where
  "some_pkt = \<lparr>p_eth = eth_hdr zero_buf, p_ip = (ip_hdr zero_buf)\<lparr>src_ip := 7, tot_len := htons 40\<rparr>,
     p_tcp = set_data_offset 5 (set_syn True (tcp_hdr zero_buf)), p_rest = []\<rparr>"

lemma zero_core_parts: "send_bufs zero_core = [zero_buf, zero_buf]" "conn_tbl zero_core = conn_tbl two_tbl"
  by (simp_all add: zero_core_def ConnTbl.defs)

lemma zero_blank: "blank zero_buf"
  by (simp add: blank_def zero_buf_def)

lemma good_dev_ok: "dev_ok cf good_dev"
  by (simp add: dev_ok_def good_dev_def)

definition ready_core :: Core where
  "ready_core = \<lparr>conn_cnt = 0, conns = [], tw_cnt = 0, tw_ids = [], tbl_mask = 0, conn_tbl = [],
     now_ts = 0x01020304, timers = newTimerNode, tws = [], send_bufs = [zero_buf\<lparr>avail := True\<rparr>], local_ip = 0, local_mac = [],
     rst_ipsum = CSum_of 0, rst_tcpsum = CSum_of (ucast (htons 6)), wire = [], rx_inits = [], rx_pushes = 0\<rparr>"

lemma ready_ok: "rst_ok ready_core" "avail (last (send_bufs ready_core))"
  by (simp_all add: rst_ok_def ready_core_def zero_buf_def ip_base_def ip_words_def u32_sum_def)





text \<open>
  C22: The acknowledgement for a connection in time-wait is a frame with valid checksums that
  carries the stored addresses, ports and numbers. Its timestamp option, though, holds the clock
  and the echo in the byte order of the host: the receiver reads the clock with its bytes
  reversed.
\<close>

theorem ackTW_correct:
  fixes c :: "'a Core_scheme"
  assumes "rst_ok c" and "avail (last (send_bufs c))"
  shows "\<exists>c' f. ackTW tw c = Some c' \<and> wire c' = wire c @ [f] \<and> frame_valid f \<and> answers_tw tw f
    \<and> (tw_has_ts tw \<longrightarrow> ntohl (word32 (take 4 (drop 4 (f_payload f)))) = ntohl (now_ts c)
         \<and> ntohl (word32 (take 4 (drop 8 (f_payload f)))) = ntohl (tw_tsecr tw))
    \<and> rst_ok c' \<and> \<not> avail (last (send_bufs c'))"
proof -
  obtain c' f where "ackTW tw c = Some c'" "wire c' = wire c @ [f]" "frame_valid f" "answers_tw tw f"
      "tw_has_ts tw \<longrightarrow> take 4 (drop 4 (f_payload f)) = bytes32 (now_ts c)
         \<and> take 4 (drop 8 (f_payload f)) = bytes32 (tw_tsecr tw)" "rst_ok c'" "\<not> avail (last (send_bufs c'))"
    using ackTW_spec [OF assms, of tw] by blast
  then show ?thesis by auto
qed

theorem ackTW_correct_witness:
  "\<exists>c' f. ackTW \<lparr>tw_dst_mac = [1, 2, 3, 4, 5, 6], tw_has_ts = True, tw_dst_ip = 9, tw_src_port = 1, tw_dst_port = 2,
        tw_seq_num = 3, tw_ack_num = 4, tw_tsecr = 5\<rparr> ready_core = Some c'
    \<and> wire c' = wire ready_core @ [f] \<and> frame_valid f
    \<and> answers_tw \<lparr>tw_dst_mac = [1, 2, 3, 4, 5, 6], tw_has_ts = True, tw_dst_ip = 9, tw_src_port = 1, tw_dst_port = 2,
        tw_seq_num = 3, tw_ack_num = 4, tw_tsecr = 5\<rparr> f
    \<and> ntohl (word32 (take 4 (drop 4 (f_payload f)))) = 0x04030201"
  using ackTW_correct [OF ready_ok, of "\<lparr>tw_dst_mac = [1, 2, 3, 4, 5, 6], tw_has_ts = True, tw_dst_ip = 9,
    tw_src_port = 1, tw_dst_port = 2, tw_seq_num = 3, tw_ack_num = 4, tw_tsecr = 5\<rparr>"]
  by (elim exE conjE) (auto simp: ready_core_def htonl_def intro!: exI)

end
