(* ===== verification/ConnLimits.thy ===== *)
theory ConnLimits
  imports Segments ResetFrames
begin

text \<open>
  Bounds of the small calculations of a connection: the smoothed round-trip time, the congestion
  window, the cube root of CUBIC, the advertised window, the segment size taken from a SYN, and the
  state in which \<^verbatim>\<open>sendFin\<close> sends nothing.
\<close>

subsection \<open>The cube root\<close>

text \<open>The search keeps the root between its ends; the interval of candidates shrinks.\<close>

lemma cubicRoot_search:
  assumes "1 \<le> unat l" "unat l \<le> unat r + 1" "unat r \<le> 124"
    and "(unat l - 1) * (unat l - 1) * (unat l - 1) \<le> unat w"
    and "unat r = 124 \<or> unat w < (unat r + 1) * (unat r + 1) * (unat r + 1)"
  shows "\<exists>k. cubicRoot w l r = Some k \<and> unat k \<le> 124 \<and> unat k * unat k * unat k \<le> unat w
    \<and> (unat k = 124 \<or> unat w < (unat k + 1) * (unat k + 1) * (unat k + 1))"
  using assms
proof (induction "unat r + 1 - unat l" arbitrary: l r rule: less_induct)
  case less
  show ?case
  proof (cases "l \<le> r")
    case False
    then have "unat l = unat r + 1" using less.prems(2) by (simp add: word_le_nat_alt)
    then show ?thesis using False less.prems(3-5) by (subst cubicRoot.simps) simp
  next
    case True
    define m where "m = drop_bit 1 (l + r)"
    have lr: "unat l \<le> unat r" using True by (simp add: word_le_nat_alt)
    have um: "unat m = (unat l + unat r) div 2"
      using less.prems lr by (simp add: m_def unat_drop_bit) (subst unat_add_u32_nowrap, auto)
    have m: "unat l \<le> unat m" "unat m \<le> unat r" using um lr by auto
    have m3: "unat (m * m * m) = unat m * unat m * unat m"
    proof -
      have "unat m * unat m * unat m \<le> 124 * 124 * 124" using m less.prems(3) by (intro mult_mono) auto
      moreover have "unat m * unat m \<le> 124 * 124" using m less.prems(3) by (intro mult_mono) auto
      ultimately show ?thesis by (simp add: unat_word_ariths)
    qed
    have mp: "unat (m + 1) = unat m + 1" using m less.prems(3) by (subst unat_add_u32_nowrap) auto
    have mm: "unat (m - 1) = unat m - 1" using m less.prems(1) by (subst unat_sub) (auto simp: word_le_nat_alt)
    show ?thesis
    proof (cases "m * m * m \<le> w")
      case le: True
      have "\<exists>k. cubicRoot w (m + 1) r = Some k \<and> unat k \<le> 124 \<and> unat k * unat k * unat k \<le> unat w
          \<and> (unat k = 124 \<or> unat w < (unat k + 1) * (unat k + 1) * (unat k + 1))"
        using less.prems m le m3 mp by (intro less.hyps) (auto simp: word_le_nat_alt)
      then show ?thesis using True le by (subst cubicRoot.simps) (simp add: Let_def m_def)
    next
      case gt: False
      have "\<exists>k. cubicRoot w l (m - 1) = Some k \<and> unat k \<le> 124 \<and> unat k * unat k * unat k \<le> unat w
          \<and> (unat k = 124 \<or> unat w < (unat k + 1) * (unat k + 1) * (unat k + 1))"
        using less.prems m gt m3 mm by (intro less.hyps) (auto simp: word_le_nat_alt)
      then show ?thesis using True gt by (subst cubicRoot.simps) (simp add: Let_def m_def)
    qed
  qed
qed

text \<open>
  The binary search for the CUBIC constant ends and returns the integer cube root of
  \<^verbatim>\<open>cubic_wmax\<close>, cut off at 124: the largest \<open>k\<close> up to 124 whose cube is at most that number. No
  product overflows on the way.
\<close>

theorem cubicRoot_correct:
  "\<exists>k. cubicRoot w 1 124 = Some k \<and> unat k \<le> 124 \<and> unat k * unat k * unat k \<le> unat w
    \<and> (unat k = 124 \<or> unat w < (unat k + 1) * (unat k + 1) * (unat k + 1))"
  by (rule cubicRoot_search) simp_all

subsection \<open>Round-trip time\<close>

text \<open>One step of an exponential average with weight \<open>1/d\<close>, on signed machine integers.\<close>

lemma ewma_step:
  fixes v :: u32 and m d :: int
  assumes "0 \<le> sint v" "0 \<le> m" "m < 2 ^ 31" "1 < d"
  shows "sint (v - of_int (sint (v - of_int m) div d)) = sint v - (sint v - m) div d"
    and "min (sint v) m \<le> sint v - (sint v - m) div d" and "sint v - (sint v - m) div d \<le> max (sint v) m"
proof -
  let ?q = "(sint v - m) div d"
  have b: "sint v < 2 ^ 31" using sint_lt [of v] by simp
  have v: "v = of_int (sint v)" by simp
  have d: "sint (v - of_int m) = sint v - m"
  proof -
    have "v - of_int m = of_int (sint v - m)" by simp
    then show ?thesis using sint_of_int_small [of "sint v - m"] assms b by simp
  qed
  have q: "min (sint v) m \<le> sint v - ?q \<and> sint v - ?q \<le> max (sint v) m"
  proof (cases "m \<le> sint v")
    case True
    then have "0 \<le> ?q" using assms(4) by (simp add: pos_imp_zdiv_nonneg_iff)
    moreover have "?q \<le> sint v - m" using True assms(4) zdiv_mono2 [of "sint v - m" 1 d] by simp
    ultimately show ?thesis using True by auto
  next
    case False
    then have n: "?q \<le> 0" using assms(4) by (simp add: div_nonpos_pos_le0)
    have "sint v - m \<le> ?q" using False assms(4) zdiv_mono2_neg [of "sint v - m" 1 d] by simp
    then show ?thesis using n False by auto
  qed
  then show "min (sint v) m \<le> sint v - ?q" "sint v - ?q \<le> max (sint v) m" by auto
  have "v - of_int ?q = of_int (sint v - ?q)" by simp
  then show "sint (v - of_int (sint (v - of_int m) div d)) = sint v - ?q"
    unfolding d using sint_of_int_small [of "sint v - ?q"] q assms b by (simp only:) auto
qed

lemma updateRtt_bounds:
  assumes "1 \<le> sint (srtt t)" "0 \<le> sint (rttvar t)" "1 \<le> rtt" "rtt < 2 ^ 31"
  shows "min (sint (srtt t)) rtt \<le> sint (srtt (updateRtt rtt t))" "sint (srtt (updateRtt rtt t)) \<le> max (sint (srtt t)) rtt"
    and "0 \<le> sint (rttvar (updateRtt rtt t))" "sint (rttvar (updateRtt rtt t)) \<le> max (sint (rttvar t)) \<bar>rtt - sint (srtt t)\<bar>"
proof -
  have s: "sint (srtt t) < 2 ^ 31" using sint_lt [of "srtt t"] by simp
  have a: "0 \<le> \<bar>rtt - sint (srtt t)\<bar>" "\<bar>rtt - sint (srtt t)\<bar> < 2 ^ 31" using assms s by auto
  show "min (sint (srtt t)) rtt \<le> sint (srtt (updateRtt rtt t))" "sint (srtt (updateRtt rtt t)) \<le> max (sint (srtt t)) rtt"
    using ewma_step [of "srtt t" rtt 8] assms by (simp_all add: updateRtt_def Let_def)
  note r = ewma_step [OF assms(2) a, of 4]
  have "0 \<le> min (sint (rttvar t)) \<bar>rtt - sint (srtt t)\<bar>" using assms(2) a(1) by simp
  from order_trans [OF this r(2)] r(1,3)
  show "0 \<le> sint (rttvar (updateRtt rtt t))" "sint (rttvar (updateRtt rtt t)) \<le> max (sint (rttvar t)) \<bar>rtt - sint (srtt t)\<bar>"
    by (simp_all add: updateRtt_def Let_def)
qed

definition zero_conn :: TcpConn where
  "zero_conn = \<lparr>tc_conn_id = 0, tc_base = 0, send_una = 0, send_next = 0, recover = 0, data_next = 0, data_next_size = 0,
     data_sum = CSum_of 0, rto = 0, srtt = 0, rttvar = 0, established = False, fin_sent = False, fin_received = False,
     pending_ack = False, has_ws = False, has_ts = False, fast_re = False, cong_av = False, in_recover = False,
     retries = 0, recv_wnd_shift = 0, send_wnd_shift = 0, smss = 0, send_wnd_seq = 0, cwnd = 0, both_wnd_seq = 0,
     ssthresh = 0, last_ack_seq = 0, recent_ts = 0, cong_av_ts = 0, dup_ack_cnt = 0, cubic_wmax = 0, cubic_k = 0,
     ipsum = CSum_of 0, tcpsum = CSum_of 0, recv_seg_cnt = 1, recv_buf_seq = 0, segs = replicate 5 (0, 0), recv_buf = []\<rparr>"

lemma seven_inverse: "3067833783 * 7 = (1 :: u32)"
  by simp

lemma congAvoid_defined:
  assumes "srtt t \<noteq> 0" "cwnd t \<noteq> 0"
  shows "\<exists>t'. congAvoid cf now t = Some t'"
proof -
  have "7 * srtt t \<noteq> 0"
  proof
    assume "7 * srtt t = 0"
    moreover have "3067833783 * (7 * srtt t) = srtt t"
      unfolding mult.assoc [symmetric] by (simp only: seven_inverse mult_1)
    ultimately show False using assms(1) by simp
  qed
  then show ?thesis using assms by (simp add: congAvoid_def Let_def)
qed



subsection \<open>The advertised window\<close>

definition free_space :: "Conf \<Rightarrow> TcpConn \<Rightarrow> nat" where
  "free_space cf t = unat (ConnRecvBufSize cf - seg_second t)"

text \<open>The shift that \<^verbatim>\<open>reset\<close> chooses.\<close>

definition own_shift :: "Conf \<Rightarrow> u8" where
  "own_shift cf = of_int (min 14 (max 0 (int (getMSB (ConnRecvBufSize cf)) - 16)))"

lemma own_shift_enough:
  assumes "unat (ConnRecvBufSize cf) < 2 ^ 30"
  shows "unat (ConnRecvBufSize cf) div 2 ^ unat (own_shift cf) < 65536"
proof -
  let ?b = "ConnRecvBufSize cf"
  have m: "getMSB ?b \<le> 30"
  proof (cases "?b = 0")
    case False
    then have "2 ^ getMSB ?b \<le> 2 * unat ?b" using getMSB_bounds [of ?b] by blast
    then have "(2 :: nat) ^ getMSB ?b < 2 ^ 31" using assms by simp
    then have "getMSB ?b < 31" by (rule power_less_imp_less_exp [rotated]) simp
    then show ?thesis by simp
  qed (simp add: getMSB.simps)
  have s: "unat (own_shift cf) = getMSB ?b - 16"
  proof -
    have "min 14 (max 0 (int (getMSB ?b) - 16)) = int (getMSB ?b - 16)" using m by linarith
    then have e: "own_shift cf = of_nat (getMSB ?b - 16)" by (simp only: own_shift_def of_int_of_nat_eq)
    show ?thesis unfolding e using m by (intro unat_of_nat_small) simp
  qed
  have "unat ?b < 2 ^ getMSB ?b" using getMSB_bounds [of ?b] by blast
  also have "\<dots> \<le> 2 ^ (16 + (getMSB ?b - 16))" by (rule power_increasing) auto
  finally have "unat ?b < 2 ^ (getMSB ?b - 16) * 65536" by (simp add: power_add mult.commute)
  then show ?thesis unfolding s by (simp add: less_mult_imp_div_less mult.commute)
qed



lemma onSyn_unscaled:
  assumes "onSyn cf pkt (t, c) = Some (t', c')" and "\<not> has_ws t'"
  shows "recv_wnd_shift t' = 0"
proof -
  let ?t0 = "t\<lparr>recv_buf_seq := ntohl (seq_num (p_tcp pkt)) + 1, pending_ack := True, has_ws := False, has_ts := False\<rparr>"
  obtain t1 where t1: "synOptions cf (p_rest pkt) 0 (nat (data_start (p_tcp pkt))) ?t0 = Some t1"
    using assms(1) by (cases "synOptions cf (p_rest pkt) 0 (nat (data_start (p_tcp pkt))) ?t0") (simp_all add: onSyn_def Let_def)
  define t2 where "t2 = (if \<not> has_ws t1 then t1\<lparr>recv_wnd_shift := 0\<rparr> else t1)"
  have t2: "has_ws t2 = has_ws t1" "\<not> has_ws t2 \<Longrightarrow> recv_wnd_shift t2 = 0" by (auto simp: t2_def)
  have "has_ws t' = has_ws t2 \<and> recv_wnd_shift t' = recv_wnd_shift t2"
    using assms(1) unfolding onSyn_def prod.case Let_def t1 bind.simps t2_def [symmetric]
    by (auto simp: bind_eq_Some_conv split: if_splits)
  then show ?thesis using t2 assms(2) by simp
qed

text \<open>
  C36: With the window scale option enabled and a peer that does not send it, the shift is zero after
  the SYN but an established connection no longer cuts the window at 65535: the field is the free
  space modulo 65536. An empty receive buffer of one megabyte is advertised as a zero window.
\<close>

theorem unscaled_window_truncated:
  assumes "WindowScaleOption cf" and "onSyn cf pkt (t, c) = Some (t', c')" and "\<not> has_ws t'"
  shows "unat (ntohs (getRecvWindowSize cf (t'\<lparr>established := True\<rparr>))) = free_space cf t' mod 65536
    \<and> (free_space cf t' = 2 ^ 20 \<longrightarrow> getRecvWindowSize cf (t'\<lparr>established := True\<rparr>) = 0)"
proof -
  have "recv_wnd_shift t' = 0" by (rule onSyn_unscaled [OF assms(2,3)])
  then have w: "unat (ntohs (getRecvWindowSize cf (t'\<lparr>established := True\<rparr>))) = free_space cf t' mod 65536"
    using assms(1) by (simp add: getRecvWindowSize_def Let_def free_space_def unat_ucast_u32_u16)
  moreover have "getRecvWindowSize cf (t'\<lparr>established := True\<rparr>) = 0" if "free_space cf t' = 2 ^ 20"
  proof -
    have "ntohs (getRecvWindowSize cf (t'\<lparr>established := True\<rparr>)) = 0" using w that by (simp add: unat_eq_zero)
    then show ?thesis using htons_eq_iff [of _ 0] by (simp add: htons_def)
  qed
  ultimately show ?thesis by blast
qed

definition big_cf :: Conf where
  "big_cf = two_cf\<lparr>WindowScaleOption := True, ConnRecvBufSize := 0x100000\<rparr>"

definition plain_syn :: Packet where
  "plain_syn = some_pkt\<lparr>p_tcp := set_data_offset 6 (p_tcp some_pkt), p_rest := [2, 4, 5, 180]\<rparr>"

lemma plain_syn_start: "data_start (p_tcp plain_syn) = 4"
  by (simp add: plain_syn_def some_pkt_def zero_buf_def data_start_def data_offset_def set_data_offset_def set_syn_def put_bit_def)

lemma plain_syn_options: "synOptions cf (p_rest plain_syn) 0 4 x = Some (x\<lparr>smss := ucast (min (ucast (SendMTU cf - 40)) (ntohs (word16 [5, 180])))\<rparr>)"
  by (subst synOptions.simps) (simp add: plain_syn_def load_bytes_def word_le_nat_alt word_less_nat_alt synOptions.simps [of _ _ "Suc _"])

lemma plain_syn_accepted: "\<not> TimestampOption cf \<Longrightarrow> \<exists>t'. onSyn cf plain_syn (t, c) = Some (t', c)"
  unfolding onSyn_def prod.case Let_def plain_syn_start by (simp add: plain_syn_options)

theorem unscaled_window_truncated_witness:
  "\<exists>t'. onSyn big_cf plain_syn (zero_conn, ready_core) = Some (t', ready_core)
    \<and> getRecvWindowSize big_cf (t'\<lparr>established := True\<rparr>) = 0"
proof -
  have f: "TimestampOption big_cf = False" "WindowScaleOption big_cf" by (simp_all add: big_cf_def two_cf_def ServerConf_def)
  note o = plain_syn_options
  have "\<exists>t'. onSyn big_cf plain_syn (zero_conn, ready_core) = Some (t', ready_core) \<and> \<not> has_ws t' \<and> segs t' = replicate 5 (0, 0)"
    unfolding onSyn_def prod.case Let_def plain_syn_start by (simp add: o f zero_conn_def)
  then obtain t' where t: "onSyn big_cf plain_syn (zero_conn, ready_core) = Some (t', ready_core)" "\<not> has_ws t'" "segs t' = replicate 5 (0, 0)"
    by blast
  then show ?thesis using unscaled_window_truncated [OF _ t(1,2)] by (simp add: free_space_def big_cf_def)
qed

subsection \<open>The segment size of a SYN\<close>

definition small_syn :: "u8 \<Rightarrow> Packet" where
  "small_syn m = some_pkt\<lparr>p_tcp := set_data_offset 9 (p_tcp some_pkt),
     p_rest := [2, 4, 0, m, 1, 1, 8, 10, 0, 0, 0, 1, 0, 0, 0, 0]\<rparr>"

lemma small_syn_start: "data_start (p_tcp (small_syn m)) = 16"
  by (simp add: small_syn_def some_pkt_def zero_buf_def data_start_def data_offset_def set_data_offset_def set_syn_def put_bit_def)

lemma sub12_wraps: "unat (x :: u32) < 12 \<Longrightarrow> 2 ^ 32 - 12 \<le> unat (x - 12)"
  by (simp add: unat_sub_if_size word_size)

text \<open>
  C37: A SYN can announce any segment size. With timestamps, \<^verbatim>\<open>onSyn\<close> subtracts the 12 bytes of the
  option without a lower bound: an announced size below 12 wraps around, and the connection then
  fills segments of four gigabytes, far beyond its send buffers.
\<close>

theorem small_mss_wraps:
  assumes "TimestampOption cf" and "m < 12"
  shows "\<exists>t'. onSyn cf (small_syn m) (t, c) = Some (t', c) \<and> smss t' = ucast (min (ucast (SendMTU cf - 40)) (ucast m) :: u16) - 12
    \<and> 2 ^ 32 - 12 \<le> unat (smss t')"
proof -
  have o: "synOptions cf (p_rest (small_syn m)) 0 16 x = Some (x\<lparr>smss := ucast (min (ucast (SendMTU cf - 40)) (ntohs (word16 [0, m]))),
      has_ts := True, recent_ts := ntohl (word32 [0, 0, 0, 1])\<rparr>)" for x
    using assms(1) by (subst synOptions.simps)
      (simp add: small_syn_def load_bytes_def word_le_nat_alt word_less_nat_alt synOptions.simps [of _ _ "Suc _"] synOptions.simps [of _ _ "numeral _"])
  have n: "ntohs (word16 [0, m]) = ucast m"
  proof -
    have "unat (word16 [0, m]) = 256 * unat m"
      using unat_lt_u8 [of m] unfolding word16_def by (subst unat_of_nat_small) simp_all
    then have "unat (ntohs (word16 [0, m])) = unat m" by (simp add: unat_htons)
    then show ?thesis by (simp add: word_unat_eq_iff unat_ucast_up)
  qed
  let ?s = "min (ucast (SendMTU cf - 40)) (ucast m) :: u16"
  obtain t' where t': "onSyn cf (small_syn m) (t, c) = Some (t', c)" "smss t' = ucast ?s - 12"
    unfolding onSyn_def prod.case Let_def small_syn_start by (simp add: o n assms(1))
  have "2 ^ 32 - 12 \<le> unat (ucast ?s - 12 :: u32)"
  proof -
    have "?s \<le> ucast m" by simp
    moreover have "unat (ucast m :: u16) < 12" using assms(2) by (simp add: word_less_nat_alt unat_ucast_up)
    ultimately have "unat ?s < 12" unfolding word_le_nat_alt by (rule le_less_trans)
    then show ?thesis by (intro sub12_wraps) (simp only: unat_ucast_u16_u32)
  qed
  then show ?thesis using t' by (intro exI [of _ t']) (simp only: simp_thms)
qed

theorem small_mss_wraps_witness:
  "\<exists>t'. onSyn (two_cf\<lparr>TimestampOption := True\<rparr>) (small_syn 8) (zero_conn, zero_core) = Some (t', zero_core)
    \<and> 2 ^ 32 - 12 \<le> unat (smss t')"
  using small_mss_wraps [of "two_cf\<lparr>TimestampOption := True\<rparr>" 8 zero_conn zero_core] by auto

subsection \<open>A FIN behind buffered data\<close>

text \<open>
  A FIN behind data that the user kept back with \<^verbatim>\<open>more\<close> is not sent: \<^verbatim>\<open>sendFin\<close> records the request
  and leaves the core as it was, so no frame goes out and no timer is armed. Only a packet from the
  peer makes \<^verbatim>\<open>onPack\<close> send the data and the FIN.
\<close>

theorem sendFin_waits:
  assumes "\<not> fin_sent t" and "send_una t + ConnSendBufCnt cf - 1 \<noteq> data_next t" and "data_next_size t \<noteq> 0"
    and "getSendBuf cf t (data_next t) c = Some nb"
  shows "\<exists>t'. sendFin cf (t, c) = Some (t', c) \<and> fin_sent t' \<and> data_next t' = data_next t \<and> send_next t' = send_next t"
proof -
  have "getSendBuf cf (t\<lparr>fin_sent := True\<rparr>) (data_next t) c = Some nb" using assms(4) by (simp add: getSendBuf_def sbuf_idx_def)
  then show ?thesis using assms(1-3) by (simp add: sendFin_def Let_def)
qed

theorem sendFin_waits_witness:
  "\<exists>t'. sendFin two_cf (zero_conn\<lparr>data_next_size := 5\<rparr>, zero_core) = Some (t', zero_core) \<and> fin_sent t'"
proof -
  let ?t = "zero_conn\<lparr>data_next_size := 5\<rparr>"
  have b: "getSendBuf two_cf ?t (data_next ?t) zero_core = Some zero_buf"
    by (simp add: getSendBuf_def sbuf_idx_def two_cf_def ServerConf_def zero_conn_def zero_core_parts)
  have "\<not> fin_sent ?t" "send_una ?t + ConnSendBufCnt two_cf - 1 \<noteq> data_next ?t" "data_next_size ?t \<noteq> 0"
    by (simp_all add: zero_conn_def two_cf_def ServerConf_def)
  from sendFin_waits [OF this b] show ?thesis by blast
qed

end
