(* ===== verification/ConnFrames.thy ===== *)
theory ConnFrames
  imports ConnLimits
begin

text \<open>
  The frames a connection sends: \<^verbatim>\<open>sendBuf\<close> completes the checksums from the cached sums of the
  connection and the sum its caller passes for the rest. What this needs is \<open>sum_covers\<close>; the
  callers establish it.
\<close>

subsection \<open>Sums of byte ranges\<close>

lemma bsum_bytes32: "bsum False (bytes32 v) mod 65535 = u32_sum v mod 65535"
proof -
  have "le_nat (bytes32 v) = unat v" by (simp add: bytes32_def le_nat_le_bytes)
  then show ?thesis using le_nat_mod [of "bytes32 v"] by (simp add: u32_sum_mod)
qed

lemma u32_sum_word32: "length bs = 4 \<Longrightarrow> u32_sum (word32 bs) mod 65535 = bsum False bs mod 65535"
proof -
  assume l: "length bs = 4"
  then have "unat (word32 bs) = le_nat bs"
    using le_nat_bound [of bs] unfolding word32_def by (intro unat_of_nat_small) simp
  then show ?thesis using le_nat_mod [of bs] by (simp add: u32_sum_mod)
qed

lemma bsum_even_append: "even (length xs) \<Longrightarrow> bsum False (xs @ ys) = bsum False xs + bsum False ys"
  by (simp add: bsum_append)

text \<open>What the checksum covers beyond sequence number, acknowledgement, window and timestamps.\<close>

definition tcp_part :: "bool \<Rightarrow> SendBuf \<Rightarrow> nat \<Rightarrow> nat" where
  "tcp_part ts buf n =
     u32_sum (src_ip (ip_hdr buf)) + u32_sum (dst_ip (ip_hdr buf)) + unat (htons 6)
     + unat (src_port (tcp_hdr buf)) + unat (dst_port (tcp_hdr buf)) + unat (offset_flags (tcp_hdr buf))
     + unat (urgent_pointer (tcp_hdr buf))
     + (if ts then bsum False (take 4 (body buf)) + bsum False (take n (drop 12 (body buf))) else bsum False (take n (body buf)))"

definition sum_covers :: "Conf \<Rightarrow> TcpConn \<Rightarrow> CSum \<Rightarrow> nat \<Rightarrow> SendBuf \<Rightarrow> bool" where
  "sum_covers cf t sm n buf \<longleftrightarrow> unat (csum sm) + unat (csum (tcpsum t)) < 2 ^ 32 - 2 ^ 20
     \<and> (unat (csum sm) + unat (csum (tcpsum t))) mod 65535 = tcp_part (hasTs cf t) buf n mod 65535"

definition ip_covers :: "TcpConn \<Rightarrow> SendBuf \<Rightarrow> bool" where
  "ip_covers t buf \<longleftrightarrow> unat (csum (ipsum t)) < 2 ^ 20
     \<and> unat (csum (ipsum t)) mod 65535 = words_sum (ip_words ((ip_hdr buf)\<lparr>tot_len := 0, ip_checksum := 0\<rparr>)) mod 65535"

text \<open>The payload of the frame: the options and the data, with the timestamps filled in.\<close>

definition frame_body :: "Conf \<Rightarrow> TcpConn \<Rightarrow> 'a Core_scheme \<Rightarrow> SendBuf \<Rightarrow> nat \<Rightarrow> u8 list" where
  "frame_body cf t c buf n =
     (if hasTs cf t then take 4 (body buf) @ bytes32 (htonl (now_ts c)) @ bytes32 (htonl (recent_ts t)) @ take n (drop 12 (body buf))
      else take n (body buf))"

lemma last_ack_frame [simp]:
  "sbuf_idx cf (t\<lparr>pending_ack := p, last_ack_seq := x\<rparr>) idx = sbuf_idx cf t idx"
  "getRecvWindowSize cf (t\<lparr>pending_ack := p, last_ack_seq := x\<rparr>) = getRecvWindowSize cf t"
  "hasTs cf (t\<lparr>pending_ack := p, last_ack_seq := x\<rparr>) = hasTs cf t"
  "ctimer (t\<lparr>pending_ack := p, last_ack_seq := x\<rparr>) k = ctimer t k"
  by (simp_all add: sbuf_idx_def getRecvWindowSize_def hasTs_def ctimer_def Let_def)

lemma sendBuf_frame:
  assumes buf: "getSendBuf cf t idx c = Some buf" and ip: "ip_covers t buf"
    and cov: "sum_covers cf t sm (unat n) buf"
    and len: "unat n + (if hasTs cf t then 12 else 0) \<le> length (body buf)" "length (body buf) \<le> 65000"
  defines "las \<equiv> recv_buf_seq t + seg_second t" and "N \<equiv> unat n + (if hasTs cf t then 12 else 0)"
  shows "\<exists>buf' f. sendBuf cf n sm idx (t, c)
      = Some (t\<lparr>pending_ack := False, last_ack_seq := las\<rparr>,
          c\<lparr>timers := unlink (ctimer t 1) (timers c), wire := wire c @ [f],
            send_bufs := (send_bufs c)[sbuf_idx cf t idx := buf'\<lparr>avail := False\<rparr>]\<rparr>)
    \<and> frame_valid f \<and> f_eth f = eth_hdr buf \<and> f_ip f = ip_hdr buf' \<and> f_tcp f = tcp_hdr buf'
    \<and> f_payload f = frame_body cf t c buf (unat n)
    \<and> (\<exists>tl ic. ip_hdr buf' = (ip_hdr buf)\<lparr>tot_len := tl, ip_checksum := ic\<rparr>)
    \<and> (\<exists>ck. tcp_hdr buf' = (tcp_hdr buf)\<lparr>ack_num := htonl las, window_size := getRecvWindowSize cf t, tcp_checksum := ck\<rparr>)
    \<and> send_ts buf' = send_ts buf \<and> eth_hdr buf' = eth_hdr buf
    \<and> body buf' = frame_body cf t c buf (unat n) @ drop N (body buf)"
proof -
  define a where "a = htonl las"
  define w where "w = getRecvWindowSize cf t"
  define th where "th = (tcp_hdr buf)\<lparr>ack_num := a, window_size := w\<rparr>"
  define mem where "mem = (if hasTs cf t then take 4 (body buf) @ bytes32 (htonl (now_ts c)) @ bytes32 (htonl (recent_ts t)) @ drop 12 (body buf)
     else body buf)"
  define s1 where "s1 = CSum_add16 w (CSum_add32 a (CSum_add32 (seq_num (tcp_hdr buf)) sm))"
  define s2 where "s2 = (if hasTs cf t then CSum_add32 (htonl (recent_ts t)) (CSum_add32 (htonl (now_ts c)) s1) else s1)"
  define s3 where "s3 = CSum_add (tcpsum t) s2"
  define b1 where "b1 = buf\<lparr>tcp_hdr := th, body := mem\<rparr>"
  define b2 where "b2 = setOptDataLen (of_nat N) (ipsum t) s3 b1"
  have N: "N \<le> 65000" "N \<le> length mem" using len by (auto simp: N_def mem_def)
  then have Nu: "unat (of_nat N :: u16) = N" by (intro unat_of_nat_small) simp
  have un: "unat (n + (if hasTs cf t then 12 else 0)) = N"
    using len unfolding N_def by (subst unat_add_u32_nowrap) auto
  have nu: "(ucast (n + (if hasTs cf t then 12 else 0)) :: u16) = of_nat N"
    unfolding un [symmetric] by simp
  have run: "sendBuf cf n sm idx (t, c)
      = do {
          c' \<leftarrow> putSendBuf cf (t\<lparr>pending_ack := False, last_ack_seq := las\<rparr>) idx b2 (c\<lparr>timers := unlink (ctimer t 1) (timers c)\<rparr>);
          c' \<leftarrow> core_send (sbuf_idx cf t idx) c';
          Some (t\<lparr>pending_ack := False, last_ack_seq := las\<rparr>, c')
        }"
  proof (cases "hasTs cf t")
    case True
    have st: "store_bytes 4 x (body buf) = Some (take 4 (body buf) @ x @ drop 8 (body buf))" if "length x = 4" for x
      using that len True by (simp add: store_bytes_def)
    have st2: "store_bytes 8 y (take 4 (body buf) @ x @ drop 8 (body buf)) = Some (take 4 (body buf) @ x @ y @ drop 12 (body buf))"
      if "length x = 4" "length y = 4" for x y
      using that len True by (simp add: store_bytes_def min_def)
    show ?thesis
      using True buf nu
      by (simp add: sendBuf_def updateLastAck_def Let_def CSum_setVar32_def CSum_setVar16_def st st2
          b2_def b1_def s3_def s2_def s1_def th_def mem_def a_def w_def las_def)
  next
    case False
    then show ?thesis
      using buf nu
      by (simp add: sendBuf_def updateLastAck_def Let_def CSum_setVar32_def CSum_setVar16_def
          b2_def b1_def s3_def s2_def s1_def th_def mem_def a_def w_def las_def)
  qed
  have idx: "sbuf_idx cf t idx < length (send_bufs c)" "send_bufs c ! sbuf_idx cf t idx = buf"
    using buf by (auto simp: getSendBuf_def)
  have sm: "unat (csum sm) + unat (csum (tcpsum t)) < 2 ^ 32 - 2 ^ 20"
      "(unat (csum sm) + unat (csum (tcpsum t))) mod 65535 = tcp_part (hasTs cf t) buf (unat n) mod 65535"
    using cov by (auto simp: sum_covers_def)
  note small = u32_sum_le [of a] u32_sum_le [of "seq_num (tcp_hdr buf)"] unat_le_u16 [of w]
    u32_sum_le [of "htonl (recent_ts t)"] u32_sum_le [of "htonl (now_ts c)"]
  have v1: "unat (csum s1) = unat (csum sm) + u32_sum (seq_num (tcp_hdr buf)) + u32_sum a + unat w"
    unfolding s1_def using sm(1) small by (simp add: CSum_add16_val CSum_add32_val)
  let ?tsv = "if hasTs cf t then u32_sum (htonl (now_ts c)) + u32_sum (htonl (recent_ts t)) else 0"
  have v2: "unat (csum s2) = unat (csum s1) + ?tsv"
    unfolding s2_def using sm(1) small v1 by (simp add: CSum_add32_val)
  have v3: "unat (csum s3) = unat (csum s2) + unat (csum (tcpsum t))"
    unfolding s3_def using sm(1) small v1 v2 by (subst CSum_add_val) auto
  have s3: "unat (csum s3) + 65535 < 4294967296" using sm(1) small v1 v2 v3 by auto
  let ?d = "take N mem"
  have body: "?d = frame_body cf t c buf (unat n)"
    using len by (auto simp: frame_body_def mem_def N_def)
  have bs: "bsum False ?d mod 65535 = (?tsv + (if hasTs cf t then bsum False (take 4 (body buf)) + bsum False (take (unat n) (drop 12 (body buf)))
      else bsum False (take (unat n) (body buf)))) mod 65535"
  proof (cases "hasTs cf t")
    case True
    have "bsum False ?d = bsum False (take 4 (body buf)) + (bsum False (bytes32 (htonl (now_ts c)))
        + (bsum False (bytes32 (htonl (recent_ts t))) + bsum False (take (unat n) (drop 12 (body buf)))))"
      unfolding body frame_body_def using True len by (simp add: bsum_even_append)
    also have "\<dots> = bsum False (bytes32 (htonl (now_ts c))) + bsum False (bytes32 (htonl (recent_ts t)))
        + (bsum False (take 4 (body buf)) + bsum False (take (unat n) (drop 12 (body buf))))" by simp
    finally show ?thesis using True
      by (simp only: if_True) (rule mod_add_cong [OF mod_add_cong [OF bsum_bytes32 bsum_bytes32] refl])
  next
    case False
    then show ?thesis by (simp add: body frame_body_def)
  qed
  let ?f = "\<lparr>f_eth = eth_hdr b2, f_ip = ip_hdr b2, f_tcp = tcp_hdr b2, f_payload = ?d\<rparr>"
  have bb: "body b1 = mem" "eth_hdr b1 = eth_hdr buf" "ip_hdr b1 = ip_hdr buf" "tcp_hdr b1 = th" "send_ts b1 = send_ts buf"
    by (simp_all add: b1_def)
  have b2: "body b2 = mem" "eth_hdr b2 = eth_hdr buf" "send_ts b2 = send_ts buf"
    "\<exists>tl ic. ip_hdr b2 = (ip_hdr buf)\<lparr>tot_len := tl, ip_checksum := ic\<rparr>"
    "\<exists>ck. tcp_hdr b2 = th\<lparr>tcp_checksum := ck\<rparr>"
    by (auto simp: b2_def setOptDataLen_def Let_def bb)
  have valid: "frame_valid ?f"
  proof -
    have "frame_valid \<lparr>f_eth = eth_hdr b2, f_ip = ip_hdr b2, f_tcp = tcp_hdr b2, f_payload = take (unat (of_nat N :: u16)) (body b2)\<rparr>"
      unfolding b2_def
    proof (rule setOptDataLen_valid)
      show "unat (csum (ipsum t)) + 65535 < 4294967296" using ip by (simp add: ip_covers_def)
      show "unat (csum (ipsum t)) mod 65535 = words_sum (ip_words ((ip_hdr b1)\<lparr>tot_len := 0, ip_checksum := 0\<rparr>)) mod 65535"
        using ip by (simp add: ip_covers_def bb)
      show "unat (csum s3) + 65535 < 4294967296" by (rule s3)
      let ?X = "u32_sum (seq_num (tcp_hdr buf)) + u32_sum a + unat w"
      let ?Y = "tcp_part (hasTs cf t) buf (unat n)"
      let ?P = "if hasTs cf t then bsum False (take 4 (body buf)) + bsum False (take (unat n) (drop 12 (body buf)))
          else bsum False (take (unat n) (body buf))"
      let ?H = "u32_sum (src_ip (ip_hdr buf)) + u32_sum (dst_ip (ip_hdr buf)) + unat (htons 6)
          + unat (src_port (tcp_hdr buf)) + unat (dst_port (tcp_hdr buf)) + unat (offset_flags (tcp_hdr buf))
          + unat (urgent_pointer (tcp_hdr buf))"
      have Y: "?Y = ?H + ?P" by (simp add: tcp_part_def)
      have "unat (csum s3) = (unat (csum sm) + unat (csum (tcpsum t))) + (?X + ?tsv)" using v1 v2 v3 by simp
      then have "unat (csum s3) mod 65535 = (?Y + (?X + ?tsv)) mod 65535" by (simp only:) (rule mod_add_cong [OF sm(2) refl])
      also have "\<dots> = ((?H + ?X) + (?tsv + ?P)) mod 65535" unfolding Y by (simp only: ac_simps)
      also have "\<dots> = ((?H + ?X) + bsum False ?d) mod 65535" by (rule mod_add_cong [OF refl bs [symmetric]])
      also have "?H + ?X = u32_sum (src_ip (ip_hdr b1)) + u32_sum (dst_ip (ip_hdr b1)) + unat (htons 6)
           + words_sum (tcp_words ((tcp_hdr b1)\<lparr>tcp_checksum := 0\<rparr>))"
        by (simp add: bb th_def tcp_words_def)
      finally show "unat (csum s3) mod 65535
        = (u32_sum (src_ip (ip_hdr b1)) + u32_sum (dst_ip (ip_hdr b1)) + unat (htons 6)
           + words_sum (tcp_words ((tcp_hdr b1)\<lparr>tcp_checksum := 0\<rparr>)) + bsum False (take (unat (of_nat N :: u16)) (body b1))) mod 65535"
        unfolding Nu bb(1) .
    qed (use N in \<open>simp_all add: Nu bb\<close>)
    then show ?thesis by (simp add: Nu b2)
  qed
  have tl: "unat (ntohs (tot_len (ip_hdr b2))) - 40 = N"
  proof -
    have "unat (40 + of_nat N :: u16) = 40 + N" using N Nu by (subst unat_add_nowrap) simp_all
    then show ?thesis by (simp add: b2_def setOptDataLen_def Let_def)
  qed
  let ?i = "sbuf_idx cf t idx"
  have "sendBuf cf n sm idx (t, c)
      = Some (t\<lparr>pending_ack := False, last_ack_seq := las\<rparr>,
          c\<lparr>timers := unlink (ctimer t 1) (timers c), wire := wire c @ [?f],
            send_bufs := (send_bufs c)[?i := b2\<lparr>avail := False\<rparr>]\<rparr>)"
    unfolding run putSendBuf_def core_send_def using idx tl N b2(1) by (simp add: load_bytes_def Let_def)
  moreover have "body b2 = frame_body cf t c buf (unat n) @ drop N (body buf)"
  proof -
    have "drop N mem = drop N (body buf)" using len by (cases "hasTs cf t") (simp_all add: mem_def N_def min_absorb2)
    then show ?thesis unfolding b2(1) body [symmetric] by (metis append_take_drop_id)
  qed
  ultimately show ?thesis
    using valid b2 body th_def
    by (intro exI [of _ b2] exI [of _ ?f]) (auto simp: a_def w_def)
qed

subsection \<open>The SYN\<close>

text \<open>
  The first buffer of a connection after \<^verbatim>\<open>reset\<close>: the cached sums cover the pseudo header, the
  ports and, with timestamps, the start of the option.
\<close>

definition syn_ready :: "Conf \<Rightarrow> TcpConn \<Rightarrow> 'a Core_scheme \<Rightarrow> SendBuf \<Rightarrow> bool" where
  "syn_ready cf t c buf \<longleftrightarrow> getSendBuf cf t (send_next t) c = Some buf \<and> ip_covers t buf
     \<and> unat (csum (tcpsum t)) < 2 ^ 22
     \<and> unat (csum (tcpsum t)) mod 65535 =
         (u32_sum (src_ip (ip_hdr buf)) + u32_sum (dst_ip (ip_hdr buf)) + unat (htons 6)
          + unat (src_port (tcp_hdr buf)) + unat (dst_port (tcp_hdr buf))
          + (if hasTs cf t then bsum False (take 4 (body buf)) else 0)) mod 65535
     \<and> urgent_pointer (tcp_hdr buf) = 0 \<and> 32 \<le> length (body buf) \<and> length (body buf) \<le> 65000"

lemma conn_reset_data:
  assumes "conn_reset cf sp dmac dip dp (t, c) = Some (t', c')"
  shows "data_next t' = 1 \<and> data_next_size t' = 0 \<and> data_sum t' = CSum_of 0 \<and> \<not> fin_sent t'"
  using assms by (cases "TimestampOption cf"; cases "WindowScaleOption cf")
    (auto simp: conn_reset_def Let_def CSum_setVar16_def bind_eq_Some_conv)

lemma conn_reset_ready:
  assumes buf: "getSendBuf cf t 0 c = Some buf" and up: "urgent_pointer (tcp_hdr buf) = 0"
    and len: "32 \<le> length (body buf)" "length (body buf) \<le> 65000"
  shows "\<exists>t' c' syn. conn_reset cf sp dmac dip dp (t, c) = Some (t', c') \<and> syn_ready cf t' c' syn
    \<and> wire c' = wire c \<and> send_next t' = 0 \<and> send_una t' = 0 \<and> \<not> pending_ack t' \<and> \<not> established t'
    \<and> segs t' = (segs t)[0 := (0, 0)] \<and> hasTs cf t' = TimestampOption cf \<and> unat (csum (tcpsum t')) < 2 ^ 21
    \<and> seq_num (tcp_hdr syn) = htonl (genISN dip dp c) \<and> src_port (tcp_hdr syn) = sp \<and> dst_port (tcp_hdr syn) = dp
    \<and> dst_ip (ip_hdr syn) = dip \<and> dst_mac (eth_hdr syn) = dmac
    \<and> length (send_bufs c') = length (send_bufs c) \<and> tc_base t' = tc_base t
    \<and> (\<forall>i. i \<noteq> sbuf_idx cf t 0 \<longrightarrow> send_bufs c' ! i = send_bufs c ! i)
    \<and> data_next t' = 1 \<and> data_next_size t' = 0 \<and> data_sum t' = CSum_of 0 \<and> \<not> fin_sent t'
    \<and> ip_hdr syn = (ip_hdr buf)\<lparr>dst_ip := dip, tot_len := 0, ip_checksum := 0\<rparr> \<and> length (body syn) = length (body buf)"
proof -
  let ?ip = "(ip_hdr buf)\<lparr>dst_ip := dip, tot_len := 0, ip_checksum := 0\<rparr>"
  let ?th = "(tcp_hdr buf)\<lparr>src_port := sp, dst_port := dp, seq_num := htonl (genISN dip dp c)\<rparr>"
  define b0 where "b0 = buf\<lparr>eth_hdr := (eth_hdr buf)\<lparr>dst_mac := dmac\<rparr>, ip_hdr := ?ip, tcp_hdr := ?th\<rparr>"
  define syn where "syn = (if TimestampOption cf then b0\<lparr>body := [1, 1, 8, 10] @ drop 4 (body buf)\<rparr> else b0)"
  define s0 where "s0 = CSum_add16 dp (CSum_add16 sp (CSum_add16 (ntohs 6) (CSum_add32 dip (CSum_add32 (src_ip (ip_hdr buf)) (CSum_of 0)))))"
  define s1 where "s1 = (if TimestampOption cf then CSum_addWords (byte_words [1, 1, 8, 10]) s0 else s0)"
  let ?c = "c\<lparr>send_bufs := (send_bufs c)[sbuf_idx cf t 0 := syn]\<rparr>"
  have idx: "sbuf_idx cf t 0 < length (send_bufs c)" "send_bufs c ! sbuf_idx cf t 0 = buf" using buf by (auto simp: getSendBuf_def)
  have gb: "getSendBuf cf t' 0 c = Some buf" and pb: "putSendBuf cf t' 0 x c = Some (c\<lparr>send_bufs := (send_bufs c)[sbuf_idx cf t 0 := x]\<rparr>)"
    if "tc_base t' = tc_base t" for t' x
    using that idx by (simp_all add: getSendBuf_def putSendBuf_def sbuf_idx_def)
  have four: "Suc (Suc (Suc (Suc 0))) = 4" by simp
  have st: "store_bytes 0 [1, 1, 8, 10] (body buf) = Some ([1, 1, 8, 10] @ drop 4 (body buf))"
    using len by (simp add: store_bytes_def four)
  obtain tt where tt: "conn_reset cf sp dmac dip dp (t, c) = Some (tt, ?c)"
    "tcpsum tt = s1" "ipsum tt = CSum_addWords (ip_words ?ip) (CSum_of 0)" "has_ts tt = TimestampOption cf"
    "send_next tt = 0" "send_una tt = 0" "\<not> pending_ack tt" "\<not> established tt" "tc_base tt = tc_base t"
    "segs tt = (segs t)[0 := (0, 0)]"
    by ((cases "TimestampOption cf"; cases "WindowScaleOption cf");
        (rule that, (simp add: conn_reset_def Let_def gb pb st CSum_setVar16_def b0_def syn_def s0_def s1_def del: byte_words.simps)+))
  note small = u32_sum_le [of dip] u32_sum_le [of "src_ip (ip_hdr buf)"] unat_le_u16 [of sp] unat_le_u16 [of dp] unat_le_u16 [of "htons 6"]
  have v0: "unat (csum s0) = u32_sum (src_ip (ip_hdr buf)) + u32_sum dip + unat (htons 6) + unat sp + unat dp"
    unfolding s0_def using small by (simp add: CSum_add16_val CSum_add32_val)
  have o: "words_sum (byte_words [1, 1, 8, 10]) = bsum False [1, 1, 8, 10]" "bsum False [1, 1, 8, 10] \<le> 65535 * 2"
    by (rule words_sum_bytes) simp_all
  have syn: "ip_hdr syn = ?ip" "tcp_hdr syn = ?th" "length (body syn) = length (body buf)"
    "dst_mac (eth_hdr syn) = dmac" "TimestampOption cf \<Longrightarrow> take 4 (body syn) = [1, 1, 8, 10]"
    using len by (auto simp: syn_def b0_def)
  have v1: "unat (csum s1) = unat (csum s0) + (if TimestampOption cf then bsum False (take 4 (body syn)) else 0)"
    unfolding s1_def using v0 small o syn(5) by (simp add: CSum_addWords_val del: byte_words.simps)
  have iw: "words_sum (ip_words ?ip) \<le> 655350" using words_sum_le' [of "ip_words ?ip" 10] by simp
  have ib: "unat (csum (ipsum tt)) = words_sum (ip_words ?ip)" unfolding tt(3) using iw by (subst CSum_addWords_val) simp_all
  have b21: "unat (csum (tcpsum tt)) < 2 ^ 21" using v1 v0 small o syn(5) tt(2) by (cases "TimestampOption cf") simp_all
  have "syn_ready cf tt ?c syn"
    unfolding syn_ready_def
  proof (intro conjI)
    show "getSendBuf cf tt (send_next tt) ?c = Some syn" using idx tt(5,9) by (simp add: getSendBuf_def sbuf_idx_def)
    show "ip_covers tt syn" using ib iw by (simp add: ip_covers_def syn)
    show "unat (csum (tcpsum tt)) < 2 ^ 22" using b21 by simp
    show "unat (csum (tcpsum tt)) mod 65535 =
         (u32_sum (src_ip (ip_hdr syn)) + u32_sum (dst_ip (ip_hdr syn)) + unat (htons 6)
          + unat (src_port (tcp_hdr syn)) + unat (dst_port (tcp_hdr syn))
          + (if hasTs cf tt then bsum False (take 4 (body syn)) else 0)) mod 65535"
      using v1 v0 tt(2,4) by (simp add: hasTs_def syn)
  qed (use up len syn in simp_all)
  then show ?thesis using tt syn b21 conn_reset_data [OF tt(1)] by (intro exI [of _ tt] exI [of _ ?c] exI [of _ syn]) (simp add: hasTs_def)
qed

text \<open>Moving on to the next buffer: the clock of the sent one, the sequence number of the next one.\<close>

lemma advanceNext_val:
  assumes "getSendBuf cf t (send_next t) c = Some b" and "getSendBuf cf t (send_next t + 1) c = Some nb"
    and "sbuf_idx cf t (send_next t) \<noteq> sbuf_idx cf t (send_next t + 1)"
  shows "advanceNext cf n (t, c) = Some (t\<lparr>send_next := send_next t + 1\<rparr>,
    c\<lparr>timers := (if send_next t = send_una t then addTimer (now_ts c) (rto t) (ctimer t 0) (timers c) else timers c),
      send_bufs := (send_bufs c)[sbuf_idx cf t (send_next t) := b\<lparr>send_ts := now_ts c\<rparr>,
        sbuf_idx cf t (send_next t + 1) := nb\<lparr>tcp_hdr := (tcp_hdr nb)\<lparr>seq_num := htonl (ntohl (seq_num (tcp_hdr b)) + n)\<rparr>\<rparr>]\<rparr>)"
proof -
  have s: "sbuf_idx cf (t\<lparr>send_next := x\<rparr>) i = sbuf_idx cf t i" for x i by (simp add: sbuf_idx_def)
  have b: "sbuf_idx cf t (send_next t) < length (send_bufs c)" "send_bufs c ! sbuf_idx cf t (send_next t) = b"
    "sbuf_idx cf t (send_next t + 1) < length (send_bufs c)" "send_bufs c ! sbuf_idx cf t (send_next t + 1) = nb"
    using assms by (auto simp: getSendBuf_def)
  show ?thesis
    using b assms(3) by (cases "send_next t = send_una t")
      (simp_all add: advanceNext_def getSendBuf_def putSendBuf_def startResendTimer_def s Let_def)
qed

definition mss_option :: "u8 list" where
  "mss_option = [2, 4] @ bytes16 (htons (ucast RecvMSS))"

definition ws_option :: "Conf \<Rightarrow> TcpConn \<Rightarrow> u8 list" where
  "ws_option cf t = (if WindowScaleOption cf \<and> has_ws t then [1, 3, 3, recv_wnd_shift t] else [])"

definition ts_option :: "Conf \<Rightarrow> TcpConn \<Rightarrow> 'a Core_scheme \<Rightarrow> SendBuf \<Rightarrow> u8 list" where
  "ts_option cf t c buf = (if hasTs cf t then take 4 (body buf) @ bytes32 (htonl (now_ts c)) @ bytes32 (htonl (recent_ts t)) else [])"

definition syn_frame :: "Conf \<Rightarrow> TcpConn \<Rightarrow> 'a Core_scheme \<Rightarrow> SendBuf \<Rightarrow> Frame \<Rightarrow> bool" where
  "syn_frame cf t c syn f \<longleftrightarrow>
     f_eth f = eth_hdr syn \<and> src_ip (f_ip f) = src_ip (ip_hdr syn) \<and> dst_ip (f_ip f) = dst_ip (ip_hdr syn)
     \<and> src_port (f_tcp f) = src_port (tcp_hdr syn) \<and> dst_port (f_tcp f) = dst_port (tcp_hdr syn)
     \<and> seq_num (f_tcp f) = seq_num (tcp_hdr syn) \<and> ack_num (f_tcp f) = htonl (recv_buf_seq t + seg_second t)
     \<and> flag_syn (f_tcp f) \<and> (flag_ack (f_tcp f) \<longleftrightarrow> pending_ack t) \<and> \<not> flag_rst (f_tcp f) \<and> \<not> flag_fin (f_tcp f)
     \<and> f_payload f = ts_option cf t c syn @ mss_option @ ws_option cf t
     \<and> 4 * unat (data_offset (f_tcp f)) = 20 + length (f_payload f)"

text \<open>The buffer of a SYN after it was sent, as far as later frames use it.\<close>

definition syn_buf :: "Conf \<Rightarrow> TcpConn \<Rightarrow> SendBuf \<Rightarrow> SendBuf \<Rightarrow> bool" where
  "syn_buf cf t syn b \<longleftrightarrow> (\<exists>tl ic. ip_hdr b = (ip_hdr syn)\<lparr>tot_len := tl, ip_checksum := ic\<rparr>)
     \<and> dst_mac (eth_hdr b) = dst_mac (eth_hdr syn) \<and> src_port (tcp_hdr b) = src_port (tcp_hdr syn)
     \<and> dst_port (tcp_hdr b) = dst_port (tcp_hdr syn) \<and> urgent_pointer (tcp_hdr b) = 0
     \<and> length (body b) = length (body syn) \<and> (hasTs cf t \<longrightarrow> take 4 (body b) = take 4 (body syn))"

lemma data_offset_set: "data_offset (set_data_offset v t) = take_bit 4 v"
  by (rule bit_word_eqI) (auto simp: data_offset_def bit_take_bit_iff bit_drop_bit_eq offset_bit add.commute)

lemma sendSyn_frame:
  assumes rdy: "syn_ready cf t c syn" and nb: "getSendBuf cf t (send_next t + 1) c = Some nb"
    and ne: "sbuf_idx cf t (send_next t) \<noteq> sbuf_idx cf t (send_next t + 1)"
  shows "\<exists>t' c' f. sendSyn cf (t, c) = Some (t', c') \<and> wire c' = wire c @ [f] \<and> frame_valid f \<and> syn_frame cf t c syn f
    \<and> t' = t\<lparr>rto := 1000, pending_ack := False, last_ack_seq := recv_buf_seq t + seg_second t, send_next := send_next t + 1\<rparr>
    \<and> getSendSeq cf t' (send_next t') c' = Some (ntohl (seq_num (tcp_hdr syn)) + 1)
    \<and> (\<exists>b sq. send_bufs c' = (send_bufs c)[sbuf_idx cf t (send_next t) := b,
           sbuf_idx cf t (send_next t + 1) := nb\<lparr>tcp_hdr := (tcp_hdr nb)\<lparr>seq_num := sq\<rparr>\<rparr>] \<and> syn_buf cf t syn b)"
proof -
  define t1 where "t1 = t\<lparr>rto := 1000\<rparr>"
  let ?off = "if hasTs cf t then 12 else 0 :: nat"
  let ?opts = "mss_option @ ws_option cf t"
  define n where "n = length ?opts"
  have ol: "length mss_option = 4" "length (ws_option cf t) \<le> 4" "even (length (ws_option cf t))" "n \<le> 8"
    by (simp_all add: mss_option_def ws_option_def n_def)
  define th where "th = set_data_offset (drop_bit 2 (of_nat (?off + n) + 20)) (set_ack (pending_ack t) (set_syn True ((tcp_hdr syn)\<lparr>offset_flags := 0\<rparr>)))"
  define mem where "mem = take ?off (body syn) @ ?opts @ drop (?off + n) (body syn)"
  define sm where "sm = CSum_add16 (offset_flags th) (CSum_addWords (byte_words (ws_option cf t)) (CSum_addWords (byte_words mss_option) (CSum_of 0)))"
  have r: "getSendBuf cf t (send_next t) c = Some syn" "ip_covers t syn" "unat (csum (tcpsum t)) < 2 ^ 22"
    "unat (csum (tcpsum t)) mod 65535 =
         (u32_sum (src_ip (ip_hdr syn)) + u32_sum (dst_ip (ip_hdr syn)) + unat (htons 6)
          + unat (src_port (tcp_hdr syn)) + unat (dst_port (tcp_hdr syn))
          + (if hasTs cf t then bsum False (take 4 (body syn)) else 0)) mod 65535"
    "urgent_pointer (tcp_hdr syn) = 0" "32 \<le> length (body syn)" "length (body syn) \<le> 65000"
    using rdy by (auto simp: syn_ready_def)
  define syn' where "syn' = syn\<lparr>tcp_hdr := th, body := mem\<rparr>"
  define c1 where "c1 = c\<lparr>send_bufs := (send_bufs c)[sbuf_idx cf t (send_next t) := syn']\<rparr>"
  have run: "sendSyn cf (t, c) = do { s \<leftarrow> sendBuf cf (of_nat n) sm (send_next t) (t1, c1); advanceNext cf 1 s }"
  proof -
    have i: "sbuf_idx cf t (send_next t) < length (send_bufs c)" "send_bufs c ! sbuf_idx cf t (send_next t) = syn"
      using r(1) by (auto simp: getSendBuf_def)
    have s: "sbuf_idx cf (t\<lparr>rto := x\<rparr>) k = sbuf_idx cf t k" "hasTs cf (t\<lparr>rto := x\<rparr>) = hasTs cf t" for x k
      by (simp_all add: sbuf_idx_def hasTs_def)
    have st: "store_bytes k x y = Some (take k y @ x @ drop (k + length x) y)" if "k + length x \<le> length y" for k x y
      using that by (simp add: store_bytes_def)
    have m4: "length mss_option = 4" by (rule ol(1))
    show ?thesis
    proof (cases "WindowScaleOption cf \<and> has_ws t")
      case True
      have n: "n = 8" using True by (simp add: n_def ol(1) ws_option_def)
      have e: "take (?off + 4) (take ?off (body syn) @ mss_option @ drop (?off + 4) (body syn)) = take ?off (body syn) @ mss_option"
        using r(6) m4 by simp
      show ?thesis
        using True i r(6) m4
        by (simp add: sendSyn_def s getSendBuf_def putSendBuf_def Let_def)
          (simp add: st n c1_def syn'_def t1_def th_def sm_def mem_def ws_option_def e mss_option_def)
    next
      case False
      then have w: "(WindowScaleOption cf \<and> has_ws t) = False" and o: "ws_option cf t = []" by (simp_all add: ws_option_def)
      have n: "n = 4" by (simp add: n_def o m4)
      show ?thesis
        using i r(6) m4
        by (simp add: sendSyn_def s getSendBuf_def putSendBuf_def Let_def w)
          (simp add: st n c1_def syn'_def t1_def th_def sm_def mem_def o mss_option_def)
    qed
  qed
  have f1: "sbuf_idx cf t1 k = sbuf_idx cf t k" "hasTs cf t1 = hasTs cf t" "tcpsum t1 = tcpsum t" "ipsum t1 = ipsum t"
    "recv_buf_seq t1 = recv_buf_seq t" "segs t1 = segs t" "recent_ts t1 = recent_ts t" for k
    by (simp_all add: t1_def sbuf_idx_def hasTs_def)
  have i: "sbuf_idx cf t (send_next t) < length (send_bufs c)" using r(1) by (auto simp: getSendBuf_def)
  have g1: "getSendBuf cf t1 (send_next t) c1 = Some syn'" using i by (simp add: getSendBuf_def f1 c1_def)
  have ip1: "ip_covers t1 syn'" using r(2) by (simp add: ip_covers_def f1 syn'_def)
  have un: "unat (of_nat n :: u32) = n" using ol(4) by (intro unat_of_nat_small) simp
  have len: "unat (of_nat n :: u32) + (if hasTs cf t1 then 12 else 0) \<le> length (body syn')" "length (body syn') \<le> 65000"
    using r(6,7) ol(4) un by (auto simp: syn'_def mem_def n_def)
  have body: "take 4 (body syn') = take 4 (body syn)" "take n (drop 12 (body syn')) = ?opts" if "hasTs cf t"
    using that r(6) by (simp_all add: syn'_def mem_def n_def)
  have body0: "take n (body syn') = ?opts" if "\<not> hasTs cf t" using that by (simp add: syn'_def mem_def n_def)
  have os: "words_sum (byte_words (ws_option cf t)) \<le> 65535 * 2" "words_sum (byte_words mss_option) \<le> 65535 * 2"
    by (rule words_sum_le', use ol in \<open>simp add: length_byte_words\<close>)+
  have smv: "unat (csum sm) = bsum False ?opts + unat (offset_flags th)"
    unfolding sm_def using os unat_le_u16 [of "offset_flags th"]
    by (subst CSum_add16_val; subst CSum_addWords_val; (subst CSum_addWords_val)?)
      (simp_all add: CSum_addWords_val words_sum_bytes bsum_append ol(1))
  have cov: "sum_covers cf t1 sm (unat (of_nat n :: u32)) syn'"
  proof -
    have thf: "src_port th = src_port (tcp_hdr syn)" "dst_port th = dst_port (tcp_hdr syn)" "urgent_pointer th = 0"
      using r(5) by (simp_all add: th_def set_syn_def)
    have "tcp_part (hasTs cf t) syn' n = (bsum False ?opts + unat (offset_flags th))
        + (u32_sum (src_ip (ip_hdr syn)) + u32_sum (dst_ip (ip_hdr syn)) + unat (htons 6)
          + unat (src_port (tcp_hdr syn)) + unat (dst_port (tcp_hdr syn))
          + (if hasTs cf t then bsum False (take 4 (body syn)) else 0))"
      using body body0 by (simp add: tcp_part_def) (simp add: syn'_def thf)
    then have "(unat (csum sm) + unat (csum (tcpsum t))) mod 65535 = tcp_part (hasTs cf t) syn' n mod 65535"
      unfolding smv using r(4) by (simp only:) (rule mod_add_cong [OF refl])
    moreover have "unat (csum sm) + unat (csum (tcpsum t)) < 2 ^ 32 - 2 ^ 20"
      using r(3) os unat_le_u16 [of "offset_flags th"] unfolding smv by (simp add: words_sum_bytes bsum_append ol(1))
    ultimately show ?thesis by (simp add: sum_covers_def f1 un)
  qed
  let ?las = "recv_buf_seq t + seg_second t"
  let ?t2 = "t1\<lparr>pending_ack := False, last_ack_seq := ?las\<rparr>"
  obtain b f where b: "sendBuf cf (of_nat n) sm (send_next t) (t1, c1)
      = Some (?t2, c1\<lparr>timers := unlink (ctimer t1 1) (timers c1), wire := wire c1 @ [f],
          send_bufs := (send_bufs c1)[sbuf_idx cf t1 (send_next t) := b\<lparr>avail := False\<rparr>]\<rparr>)"
    and f: "frame_valid f" "f_eth f = eth_hdr syn'" "f_ip f = ip_hdr b" "f_tcp f = tcp_hdr b" "f_payload f = frame_body cf t1 c1 syn' n"
    and h: "\<exists>tl ic. ip_hdr b = (ip_hdr syn')\<lparr>tot_len := tl, ip_checksum := ic\<rparr>"
      "\<exists>ck. tcp_hdr b = (tcp_hdr syn')\<lparr>ack_num := htonl ?las, window_size := getRecvWindowSize cf t1, tcp_checksum := ck\<rparr>"
      "eth_hdr b = eth_hdr syn'" "body b = frame_body cf t1 c1 syn' n @ drop (n + ?off) (body syn')"
    using sendBuf_frame [OF g1 ip1 cov len] unfolding un f1 by blast
  define c2 where "c2 = c1\<lparr>timers := unlink (ctimer t1 1) (timers c1), wire := wire c1 @ [f],
          send_bufs := (send_bufs c1)[sbuf_idx cf t1 (send_next t) := b\<lparr>avail := False\<rparr>]\<rparr>"
  have sn: "send_next ?t2 = send_next t" by (simp add: t1_def)
  have e1: "getSendBuf cf ?t2 (send_next ?t2) c2 = Some (b\<lparr>avail := False\<rparr>)"
    using i by (simp add: sn getSendBuf_def f1 c2_def c1_def)
  have e2: "getSendBuf cf ?t2 (send_next ?t2 + 1) c2 = Some nb"
    using nb ne by (simp add: sn getSendBuf_def f1 c2_def c1_def)
  have e3: "sbuf_idx cf ?t2 (send_next ?t2) \<noteq> sbuf_idx cf ?t2 (send_next ?t2 + 1)" using ne by (simp add: sn f1)
  note adv = advanceNext_val [OF e1 e2 e3, of 1]
  obtain tl ic ck where ff: "f_ip f = (ip_hdr syn)\<lparr>tot_len := tl, ip_checksum := ic\<rparr>"
    "f_tcp f = th\<lparr>ack_num := htonl ?las, window_size := getRecvWindowSize cf t1, tcp_checksum := ck\<rparr>"
    using f(3,4) h by (auto simp: syn'_def)
  have thf: "src_port th = src_port (tcp_hdr syn)" "dst_port th = dst_port (tcp_hdr syn)" "seq_num th = seq_num (tcp_hdr syn)"
    "flag_syn th" "flag_ack th = pending_ack t" "\<not> flag_rst th" "\<not> flag_fin th"
    by (simp_all add: th_def offset_bit set_flag_bits) (simp_all add: set_syn_def put_bit_iff)
  have pay: "f_payload f = ts_option cf t c syn @ ?opts"
    using body body0 f(5) by (auto simp: frame_body_def ts_option_def f1 c1_def)
  have do: "4 * unat (data_offset th) = 20 + length (ts_option cf t c syn @ ?opts)"
  proof -
    have "length (ts_option cf t c syn @ ?opts) = ?off + n" using r(6) by (simp add: ts_option_def n_def)
    moreover have "n = 4 \<or> n = 8" by (simp add: n_def ol(1) ws_option_def)
    ultimately show ?thesis by (auto simp: th_def data_offset_set split: if_splits)
  qed
  have "syn_frame cf t c syn f"
    unfolding syn_frame_def pay using do by (simp add: f(2) ff thf syn'_def) (simp add: data_offset_def)
  moreover have "getSendSeq cf (?t2\<lparr>send_next := send_next ?t2 + 1\<rparr>) (send_next ?t2 + 1)
      (c2\<lparr>timers := x, send_bufs := (send_bufs c2)[sbuf_idx cf ?t2 (send_next ?t2) := y, sbuf_idx cf ?t2 (send_next ?t2 + 1) :=
         nb\<lparr>tcp_hdr := (tcp_hdr nb)\<lparr>seq_num := htonl (ntohl (seq_num (tcp_hdr (b\<lparr>avail := False\<rparr>))) + 1)\<rparr>\<rparr>]\<rparr>)
      = Some (ntohl (seq_num (tcp_hdr syn)) + 1)" for x y
  proof -
    have l: "sbuf_idx cf t (send_next t + 1) < length (send_bufs c)" using nb by (auto simp: getSendBuf_def)
    have q: "seq_num (tcp_hdr b) = seq_num (tcp_hdr syn)" using ff(2) f(4) thf(3) by simp
    have s: "sbuf_idx cf (t\<lparr>send_next := v\<rparr>) k = sbuf_idx cf t k" for v k and t :: TcpConn by (simp add: sbuf_idx_def)
    show ?thesis using l by (simp add: getSendSeq_def getSendBuf_def s sn f1 c2_def c1_def q)
  qed
  moreover have "syn_buf cf t syn (b\<lparr>avail := False, send_ts := x\<rparr>)" for x
  proof -
    have "length (body syn') = length (body syn)" using r(6) ol(4) by (simp add: syn'_def mem_def n_def)
    then have "length (body b) = length (body syn)" "hasTs cf t \<Longrightarrow> take 4 (body b) = take 4 (body syn)"
      using len(1) un body(1) r(6) by (auto simp: h(4) frame_body_def f1)
    moreover have "urgent_pointer th = 0" using r(5) by (simp add: th_def set_syn_def)
    ultimately show ?thesis using h(1-3) thf by (auto simp: syn_buf_def syn'_def)
  qed
  moreover have "send_bufs (c2\<lparr>timers := x, send_bufs := (send_bufs c2)[sbuf_idx cf ?t2 (send_next ?t2) := y, sbuf_idx cf ?t2 (send_next ?t2 + 1) := z]\<rparr>)
      = (send_bufs c)[sbuf_idx cf t (send_next t) := y, sbuf_idx cf t (send_next t + 1) := z]" for x y z
    by (simp add: c2_def c1_def f1 sn)
  ultimately show ?thesis
    unfolding run b bind.simps c2_def [symmetric] adv using f(1)
    by (intro exI conjI) (rule refl | assumption | simp add: c2_def c1_def t1_def)+
qed

subsection \<open>The SYN of the peer\<close>

text \<open>The options of a SYN set five fields of the connection and no others.\<close>

definition syn_base :: "TcpConn \<Rightarrow> TcpConn" where
  "syn_base t = t\<lparr>has_ws := False, has_ts := False, send_wnd_shift := 0, smss := 0, recent_ts := 0\<rparr>"

definition synOption :: "Conf \<Rightarrow> u8 \<Rightarrow> u8 \<Rightarrow> nat \<Rightarrow> u8 list \<Rightarrow> TcpConn \<Rightarrow> TcpConn option" where
  "synOption cf kind len pos mem t =
     (if kind = 2 \<and> len = 4 then
        map_option (\<lambda>v. t\<lparr>smss := ucast (min (ucast (SendMTU cf - 40)) (ntohs (word16 v)))\<rparr>) (load_bytes (pos + 2) 2 mem)
      else if kind = 3 \<and> WindowScaleOption cf \<and> len = 3 then
        map_option (\<lambda>v. t\<lparr>has_ws := True, send_wnd_shift := min 14 v\<rparr>) (arr_get mem (pos + 2))
      else if kind = 8 \<and> TimestampOption cf \<and> len = 10 then
        map_option (\<lambda>v. t\<lparr>has_ts := True, recent_ts := ntohl (word32 v)\<rparr>) (load_bytes (pos + 2) 4 mem)
      else Some t)"

lemma synOption_base: "synOption cf kind len pos mem t = Some t' \<Longrightarrow> syn_base t' = syn_base t"
  by (auto simp: synOption_def syn_base_def split: if_splits)

lemma synOptions_base: "synOptions cf mem pos end t = Some t' \<Longrightarrow> syn_base t' = syn_base t"
proof (induction "end - pos" arbitrary: pos t rule: less_induct)
  case less
  show ?case
  proof (cases "pos < end")
    case True
    have step: "syn_base t' = syn_base u" if "synOptions cf mem p end u = Some t'" "pos < p" for p u
      using less.hyps [of p u] that True by simp
    have un: "synOptions cf mem pos end t = (case arr_get mem pos of None \<Rightarrow> None | Some kind \<Rightarrow>
        if kind \<le> 1 then synOptions cf mem (pos + 1) end t
        else case arr_get mem (pos + 1) of None \<Rightarrow> None | Some len \<Rightarrow>
          (case synOption cf kind len pos mem t of None \<Rightarrow> None
           | Some t \<Rightarrow> synOptions cf mem (pos + 2 + (if 2 < len then unat (len - 2) else 0)) end t))"
      using True by (subst synOptions.simps) (simp only: synOption_def if_True)
    show ?thesis
      using less.prems unfolding un
      by (auto split: option.splits if_splits dest!: step synOption_base)
  next
    case False
    then show ?thesis using less.prems by (simp add: synOptions.simps)
  qed
qed

lemma syn_base_fields:
  assumes "syn_base t' = syn_base t"
  shows "tcpsum t' = tcpsum t" "ipsum t' = ipsum t" "tc_base t' = tc_base t" "send_una t' = send_una t" "send_next t' = send_next t"
    "recv_buf_seq t' = recv_buf_seq t" "segs t' = segs t" "pending_ack t' = pending_ack t" "established t' = established t"
    "recv_wnd_shift t' = recv_wnd_shift t" "data_next t' = data_next t" "data_next_size t' = data_next_size t"
    "data_sum t' = data_sum t" "fin_sent t' = fin_sent t" "fin_received t' = fin_received t" "tc_conn_id t' = tc_conn_id t"
  using assms by (cases t; cases t'; simp add: syn_base_def)+

lemma onSyn_ready:
  assumes rdy: "syn_ready cf t c syn" and ts: "hasTs cf t = TimestampOption cf" and una: "send_una t = send_next t"
    and small: "unat (csum (tcpsum t)) < 2 ^ 21" and run: "onSyn cf pkt (t, c) = Some (t', c')"
  shows "c' = c \<and> syn_ready cf t' c syn \<and> pending_ack t' \<and> recv_buf_seq t' = ntohl (seq_num (p_tcp pkt)) + 1
    \<and> segs t' = segs t \<and> send_next t' = send_next t \<and> send_una t' = send_una t \<and> tc_base t' = tc_base t
    \<and> established t' = established t \<and> data_next t' = data_next t \<and> data_next_size t' = data_next_size t
    \<and> data_sum t' = data_sum t \<and> fin_sent t' = fin_sent t \<and> unat (csum (tcpsum t')) < 2 ^ 21 + 2 ^ 17"
proof -
  let ?t0 = "t\<lparr>recv_buf_seq := ntohl (seq_num (p_tcp pkt)) + 1, pending_ack := True, has_ws := False, has_ts := False\<rparr>"
  obtain t1 where t1: "synOptions cf (p_rest pkt) 0 (nat (data_start (p_tcp pkt))) ?t0 = Some t1"
    using run by (cases "synOptions cf (p_rest pkt) 0 (nat (data_start (p_tcp pkt))) ?t0") (simp_all add: onSyn_def Let_def)
  define t2 where "t2 = (if \<not> has_ws t1 then t1\<lparr>recv_wnd_shift := 0\<rparr> else t1)"
  note b = syn_base_fields [OF synOptions_base [OF t1]]
  have f2: "tcpsum t2 = tcpsum t" "ipsum t2 = ipsum t" "tc_base t2 = tc_base t" "send_una t2 = send_una t" "send_next t2 = send_next t"
    "recv_buf_seq t2 = ntohl (seq_num (p_tcp pkt)) + 1" "segs t2 = segs t" "pending_ack t2" "established t2 = established t"
    "has_ts t2 = has_ts t1" "data_next t2 = data_next t" "data_next_size t2 = data_next_size t" "data_sum t2 = data_sum t" "fin_sent t2 = fin_sent t"
    using b by (simp_all add: t2_def)
  have run2: "(if TimestampOption cf then
       if \<not> has_ts t2 then do {
         una \<leftarrow> getSendBuf cf t2 (send_una t2) c;
         opt \<leftarrow> load_bytes 0 4 (body una);
         Some (t2\<lparr>tcpsum := CSum_sub32 (word32 opt) (tcpsum t2)\<rparr>, c)
       } else Some (t2\<lparr>smss := smss t2 - 12\<rparr>, c)
     else Some (t2, c)) = Some (t', c')"
    using run unfolding onSyn_def prod.case Let_def t1 bind.simps t2_def [symmetric] .
  have g: "getSendBuf cf x k c = getSendBuf cf t k c" if "tc_base x = tc_base t" for x k
    using that by (simp add: getSendBuf_def sbuf_idx_def)
  have rd: "getSendBuf cf t (send_next t) c = Some syn" "ip_covers t syn" "unat (csum (tcpsum t)) < 2 ^ 22"
    "unat (csum (tcpsum t)) mod 65535 =
         (u32_sum (src_ip (ip_hdr syn)) + u32_sum (dst_ip (ip_hdr syn)) + unat (htons 6)
          + unat (src_port (tcp_hdr syn)) + unat (dst_port (tcp_hdr syn))
          + (if hasTs cf t then bsum False (take 4 (body syn)) else 0)) mod 65535"
    "urgent_pointer (tcp_hdr syn) = 0" "32 \<le> length (body syn)" "length (body syn) \<le> 65000"
    using rdy by (auto simp: syn_ready_def)
  let ?A = "u32_sum (src_ip (ip_hdr syn)) + u32_sum (dst_ip (ip_hdr syn)) + unat (htons 6)
          + unat (src_port (tcp_hdr syn)) + unat (dst_port (tcp_hdr syn))"
  have ready: "syn_ready cf x c syn"
    if "tc_base x = tc_base t" "send_next x = send_next t" "ipsum x = ipsum t" "unat (csum (tcpsum x)) < 2 ^ 22"
      "unat (csum (tcpsum x)) mod 65535 = (?A + (if hasTs cf x then bsum False (take 4 (body syn)) else 0)) mod 65535" for x
    unfolding syn_ready_def g [OF that(1)] that(2) using that(4,5) rd(1,2,5,6,7)
    by (intro conjI) (simp_all only: ip_covers_def that(3))
  show ?thesis
  proof (cases "TimestampOption cf \<and> \<not> has_ts t2")
    case True
    let ?opt = "take 4 (body syn)"
    have t': "t' = t2\<lparr>tcpsum := CSum_sub32 (word32 ?opt) (tcpsum t)\<rparr>" "c' = c"
      using run2 True rd una f2 by (auto simp: g load_bytes_def)
    have o: "u32_sum (word32 ?opt) mod 65535 = bsum False ?opt mod 65535"
      using rd(6) by (simp add: u32_sum_word32)
    have v: "unat (csum (tcpsum t')) = unat (csum (tcpsum t)) + (131070 - u32_sum (word32 ?opt))"
      unfolding t' using small by (simp add: CSum_sub32_val)
    have "syn_ready cf t' c syn"
    proof (rule ready)
      let ?r = "131070 - u32_sum (word32 ?opt)"
      have "unat (csum (tcpsum t')) mod 65535 = ((?A + bsum False ?opt) + ?r) mod 65535"
        unfolding v using rd(4) ts True by (intro mod_add_cong) auto
      also have "\<dots> = (?A + (bsum False ?opt + ?r)) mod 65535" by (simp only: add.assoc)
      also have "\<dots> = (?A + (u32_sum (word32 ?opt) + ?r)) mod 65535"
        by (rule mod_add_cong [OF refl mod_add_cong [OF o [symmetric] refl]])
      also have "u32_sum (word32 ?opt) + ?r = 2 * 65535" using u32_sum_le [of "word32 ?opt"] by simp
      also have "(?A + 2 * 65535) mod 65535 = ?A mod 65535" by (rule mod_mult_self1)
      finally show "unat (csum (tcpsum t')) mod 65535 = (?A + (if hasTs cf t' then bsum False ?opt else 0)) mod 65535"
        using True t'(1) by (simp add: hasTs_def)
      show "unat (csum (tcpsum t')) < 2 ^ 22" unfolding v using small by simp
    qed (use t' f2 in simp_all)
    moreover have "unat (csum (tcpsum t')) < 2 ^ 21 + 2 ^ 17" unfolding v using small by simp
    ultimately show ?thesis using t' f2 by simp
  next
    case False
    then have t': "c' = c" "tcpsum t' = tcpsum t" "ipsum t' = ipsum t" "tc_base t' = tc_base t" "send_una t' = send_una t"
      "send_next t' = send_next t" "recv_buf_seq t' = ntohl (seq_num (p_tcp pkt)) + 1" "segs t' = segs t" "pending_ack t'"
      "established t' = established t" "has_ts t' = has_ts t2"
      "data_next t' = data_next t" "data_next_size t' = data_next_size t" "data_sum t' = data_sum t" "fin_sent t' = fin_sent t"
      using run2 f2 by (auto split: if_splits)
    have "hasTs cf t' = hasTs cf t" using False ts t'(11) by (auto simp: hasTs_def)
    then have "syn_ready cf t' c syn" using rd t' by (intro ready) simp_all
    then show ?thesis using t' small by simp
  qed
qed

lemma reset_syn_ready:
  assumes "getSendBuf cf t 0 c = Some b0" and "getSendBuf cf t 1 c = Some b1" and "sbuf_idx cf t 0 \<noteq> sbuf_idx cf t 1"
    and "urgent_pointer (tcp_hdr b0) = 0" and "32 \<le> length (body b0)" and "length (body b0) \<le> 65000"
  obtains t1 c1 syn where "conn_reset cf sp dmac dip dp (t, c) = Some (t1, c1)" "syn_ready cf t1 c1 syn"
    "getSendBuf cf t1 (send_next t1 + 1) c1 = Some b1" "sbuf_idx cf t1 (send_next t1) \<noteq> sbuf_idx cf t1 (send_next t1 + 1)"
    "wire c1 = wire c" "\<not> pending_ack t1" "segs t1 = (segs t)[0 := (0, 0)]" "hasTs cf t1 = TimestampOption cf"
    "send_una t1 = send_next t1" "unat (csum (tcpsum t1)) < 2 ^ 21"
    "ntohl (seq_num (tcp_hdr syn)) = genISN dip dp c" "src_port (tcp_hdr syn) = sp" "dst_port (tcp_hdr syn) = dp"
    "dst_ip (ip_hdr syn) = dip" "dst_mac (eth_hdr syn) = dmac" "tc_base t1 = tc_base t"
proof -
  obtain t1 c1 syn where r: "conn_reset cf sp dmac dip dp (t, c) = Some (t1, c1)" "syn_ready cf t1 c1 syn"
    "wire c1 = wire c" "send_next t1 = 0" "send_una t1 = 0" "\<not> pending_ack t1"
    "segs t1 = (segs t)[0 := (0, 0)]" "hasTs cf t1 = TimestampOption cf" "unat (csum (tcpsum t1)) < 2 ^ 21"
    "seq_num (tcp_hdr syn) = htonl (genISN dip dp c)" "src_port (tcp_hdr syn) = sp" "dst_port (tcp_hdr syn) = dp"
    "dst_ip (ip_hdr syn) = dip" "dst_mac (eth_hdr syn) = dmac" "length (send_bufs c1) = length (send_bufs c)" "tc_base t1 = tc_base t"
    "\<forall>i. i \<noteq> sbuf_idx cf t 0 \<longrightarrow> send_bufs c1 ! i = send_bufs c ! i"
    using conn_reset_ready [OF assms(1,4-6)] by blast
  have s: "sbuf_idx cf t1 k = sbuf_idx cf t k" for k using r(16) by (simp add: sbuf_idx_def)
  have "getSendBuf cf t1 1 c1 = Some b1"
    using assms(2,3) r(15,17) by (auto simp: getSendBuf_def s)
  then show thesis using r assms(3) by (intro that [of t1 c1 syn]) (simp_all add: s)
qed


lemma zero_bufs:
  "getSendBuf two_cf zero_conn 0 zero_core = Some zero_buf" "getSendBuf two_cf zero_conn 1 zero_core = Some zero_buf"
  "sbuf_idx two_cf zero_conn 0 \<noteq> sbuf_idx two_cf zero_conn 1" "urgent_pointer (tcp_hdr zero_buf) = 0"
  "32 \<le> length (body zero_buf)" "length (body zero_buf) \<le> 65000" "segs zero_conn \<noteq> []"
proof -
  have n: "ConnSendBufCnt two_cf = 1024" "tc_base zero_conn = 0" by (simp_all add: two_cf_def ServerConf_def zero_conn_def)
  show "getSendBuf two_cf zero_conn 0 zero_core = Some zero_buf" "getSendBuf two_cf zero_conn 1 zero_core = Some zero_buf"
    "sbuf_idx two_cf zero_conn 0 \<noteq> sbuf_idx two_cf zero_conn 1"
    by (simp_all add: getSendBuf_def sbuf_idx_def n zero_core_parts)
qed (simp_all add: zero_buf_def zero_conn_def)


text \<open>
  C24: A server that accepts a SYN answers with exactly one frame, the SYN of its own side that
  acknowledges the peer's: the acknowledgement is the peer's sequence number plus one, the timestamp
  option is there only if the peer sent one, and the checksums are valid although the cached sums were
  made before the peer's options were known.
\<close>

theorem syn_ack_sent:
  assumes "getSendBuf cf t 0 c = Some b0" and "getSendBuf cf t 1 c = Some b1" and "sbuf_idx cf t 0 \<noteq> sbuf_idx cf t 1"
    and "urgent_pointer (tcp_hdr b0) = 0" and "32 \<le> length (body b0)" and "length (body b0) \<le> 65000" and "segs t \<noteq> []"
    and "Option.bind (conn_reset cf sp dmac dip dp (t, c)) (onSyn cf pkt) = Some (t2, c2)"
  shows "\<exists>t' c' f. sendSyn cf (t2, c2) = Some (t', c') \<and> wire c' = wire c @ [f] \<and> frame_valid f
    \<and> dst_mac (f_eth f) = dmac \<and> dst_ip (f_ip f) = dip \<and> src_port (f_tcp f) = sp \<and> dst_port (f_tcp f) = dp
    \<and> flag_syn (f_tcp f) \<and> flag_ack (f_tcp f) \<and> ntohl (ack_num (f_tcp f)) = ntohl (seq_num (p_tcp pkt)) + 1
    \<and> ntohl (seq_num (f_tcp f)) = genISN dip dp c
    \<and> length (f_payload f) = (if hasTs cf t2 then 12 else 0) + 4 + (if WindowScaleOption cf \<and> has_ws t2 then 4 else 0)
    \<and> 4 * unat (data_offset (f_tcp f)) = 20 + length (f_payload f)
    \<and> getSendSeq cf t' (send_next t') c' = Some (genISN dip dp c + 1)"
proof -
  obtain t1 c1 syn where r: "conn_reset cf sp dmac dip dp (t, c) = Some (t1, c1)" "syn_ready cf t1 c1 syn"
    "getSendBuf cf t1 (send_next t1 + 1) c1 = Some b1" "sbuf_idx cf t1 (send_next t1) \<noteq> sbuf_idx cf t1 (send_next t1 + 1)"
    "wire c1 = wire c" "segs t1 = (segs t)[0 := (0, 0)]" "hasTs cf t1 = TimestampOption cf"
    "send_una t1 = send_next t1" "unat (csum (tcpsum t1)) < 2 ^ 21"
    "ntohl (seq_num (tcp_hdr syn)) = genISN dip dp c" "src_port (tcp_hdr syn) = sp" "dst_port (tcp_hdr syn) = dp"
    "dst_ip (ip_hdr syn) = dip" "dst_mac (eth_hdr syn) = dmac"
    by (rule reset_syn_ready [OF assms(1-6), where ?sp = sp and ?dmac = dmac and ?dip = dip and ?dp = dp])
  have "onSyn cf pkt (t1, c1) = Some (t2, c2)" using assms(8) r(1) by simp
  from onSyn_ready [OF r(2,7,8,9) this] have s: "c2 = c1" "syn_ready cf t2 c1 syn" "pending_ack t2"
    "recv_buf_seq t2 = ntohl (seq_num (p_tcp pkt)) + 1" "segs t2 = segs t1" "send_next t2 = send_next t1" "tc_base t2 = tc_base t1"
    by simp_all
  have x: "sbuf_idx cf t2 k = sbuf_idx cf t1 k" for k using s(7) by (simp add: sbuf_idx_def)
  have "getSendBuf cf t2 (send_next t2 + 1) c1 = Some b1" using r(3) by (simp add: getSendBuf_def x s(6))
  from sendSyn_frame [OF s(2) this] r(4) obtain t' c' f where f: "sendSyn cf (t2, c1) = Some (t', c')" "wire c' = wire c1 @ [f]"
    "frame_valid f" "syn_frame cf t2 c1 syn f" "getSendSeq cf t' (send_next t') c' = Some (ntohl (seq_num (tcp_hdr syn)) + 1)"
    by (auto simp: x s(6))
  have "seg_second t2 = 0" using assms(7) by (simp add: s(5) r(6))
  moreover have "length (ts_option cf t2 c1 syn @ mss_option @ ws_option cf t2)
      = (if hasTs cf t2 then 12 else 0) + 4 + (if WindowScaleOption cf \<and> has_ws t2 then 4 else 0)"
    using s(2) by (simp add: ts_option_def mss_option_def ws_option_def syn_ready_def)
  ultimately show ?thesis using r s f by (intro exI [of _ t'] exI [of _ c'] exI [of _ f]) (simp add: syn_frame_def)
qed

theorem syn_ack_sent_witness:
  "\<exists>t2 c2 t' c' f. Option.bind (conn_reset two_cf 0x5000 [1, 2, 3, 4, 5, 6] 9 0x1600 (zero_conn, zero_core)) (onSyn two_cf plain_syn) = Some (t2, c2)
    \<and> sendSyn two_cf (t2, c2) = Some (t', c') \<and> wire c' = wire zero_core @ [f] \<and> frame_valid f \<and> flag_ack (f_tcp f)"
proof -
  obtain t1 c1 where r: "conn_reset two_cf 0x5000 [1, 2, 3, 4, 5, 6] 9 0x1600 (zero_conn, zero_core) = Some (t1, c1)"
    by (rule reset_syn_ready [OF zero_bufs(1-6), where ?sp = "0x5000" and ?dmac = "[1, 2, 3, 4, 5, 6]" and ?dip = 9 and ?dp = "0x1600"])
  obtain t2 where "onSyn two_cf plain_syn (t1, c1) = Some (t2, c1)" using plain_syn_accepted [of two_cf t1 c1]
    by (auto simp: two_cf_def ServerConf_def)
  then have b: "Option.bind (conn_reset two_cf 0x5000 [1, 2, 3, 4, 5, 6] 9 0x1600 (zero_conn, zero_core)) (onSyn two_cf plain_syn) = Some (t2, c1)"
    using r by simp
  from syn_ack_sent [OF zero_bufs b] b show ?thesis by blast
qed

end
