(* ===== verification/SendQueue.thy ===== *)
theory SendQueue
  imports ConnFrames
begin

text \<open>
  The sending side as a queue of bytes. The ring of send buffers of a connection holds, from
  \<^verbatim>\<open>send_next\<close> on, the bytes that the user has handed over and that are not sent yet;
  \<^verbatim>\<open>sendPartial\<close> appends to that queue and sends from its head while the window allows.
\<close>

subsection \<open>The ring of send buffers\<close>

abbreviation ring_size :: "Conf \<Rightarrow> nat" where
  "ring_size cf \<equiv> unat (ConnSendBufCnt cf)"

lemma unat_sum_mod:
  fixes i d :: u32
  assumes "N dvd 2 ^ 32"
  shows "unat (i + d) mod N = (unat i + unat d) mod N"
  using assms by (simp add: unat_word_ariths mod_mod_cancel)

lemma sbuf_idx_nat: "sbuf_idx cf t i = tc_base t + unat i mod ring_size cf"
  by (simp add: sbuf_idx_def unat_mod)

lemma sbuf_idx_distinct:
  assumes "ring_size cf dvd 2 ^ 32" "i \<noteq> j" "unat (j - i) < ring_size cf"
  shows "sbuf_idx cf t i \<noteq> sbuf_idx cf t j"
proof
  assume "sbuf_idx cf t i = sbuf_idx cf t j"
  then have "unat i mod ring_size cf = (unat i + unat (j - i)) mod ring_size cf"
    using unat_sum_mod [OF assms(1), of i "j - i"] by (simp add: sbuf_idx_nat)
  then have "ring_size cf dvd unat (j - i)"
    by (metis add_diff_cancel_left' le_add1 mod_eq_dvd_iff_nat)
  moreover have "0 < unat (j - i)" using assms(2) by (simp add: unat_gt_0)
  ultimately show False using assms(3) by (auto dest: dvd_imp_le)
qed

text \<open>Who the frames of a buffer go to, and a buffer whose header the cached sums cover.\<close>

definition peer_of :: "SendBuf \<Rightarrow> u8 list \<times> u32 \<times> u32 \<times> u16 \<times> u16" where
  "peer_of b = (dst_mac (eth_hdr b), src_ip (ip_hdr b), dst_ip (ip_hdr b), src_port (tcp_hdr b), dst_port (tcp_hdr b))"

definition hdr_sum :: "Conf \<Rightarrow> TcpConn \<Rightarrow> SendBuf \<Rightarrow> nat" where
  "hdr_sum cf t b =
     u32_sum (src_ip (ip_hdr b)) + u32_sum (dst_ip (ip_hdr b)) + unat (htons 6)
     + unat (src_port (tcp_hdr b)) + unat (dst_port (tcp_hdr b)) + unat (offset_flags (tcp_hdr b))
     + unat (urgent_pointer (tcp_hdr b)) + (if hasTs cf t then bsum False (take 4 (body b)) else 0)"

definition buf_ready :: "Conf \<Rightarrow> TcpConn \<Rightarrow> SendBuf \<Rightarrow> bool" where
  "buf_ready cf t b \<longleftrightarrow> ip_covers t b \<and> unat (csum (tcpsum t)) mod 65535 = hdr_sum cf t b mod 65535
     \<and> \<not> flag_fin (tcp_hdr b) \<and> (if hasTs cf t then 12 else 0) + unat (smss t) \<le> length (body b) \<and> length (body b) \<le> 65000"

definition ring_ok :: "Conf \<Rightarrow> u8 list \<times> u32 \<times> u32 \<times> u16 \<times> u16 \<Rightarrow> TcpConn \<Rightarrow> 'a Core_scheme \<Rightarrow> bool" where
  "ring_ok cf p t c \<longleftrightarrow> ring_size cf dvd 2 ^ 32 \<and> 2 \<le> ring_size cf \<and> tc_base t + ring_size cf \<le> length (send_bufs c)
     \<and> unat (csum (tcpsum t)) < 2 ^ 22
     \<and> (\<forall>i < ring_size cf. buf_ready cf t (send_bufs c ! (tc_base t + i)) \<and> peer_of (send_bufs c ! (tc_base t + i)) = p)"

definition ring_buf :: "Conf \<Rightarrow> TcpConn \<Rightarrow> 'a Core_scheme \<Rightarrow> u32 \<Rightarrow> SendBuf" where
  "ring_buf cf t c i = send_bufs c ! sbuf_idx cf t i"

lemma ring_ok_index: "ring_ok cf p t c \<Longrightarrow> sbuf_idx cf t i < length (send_bufs c)"
proof -
  assume r: "ring_ok cf p t c"
  then have "0 < ring_size cf" "tc_base t + ring_size cf \<le> length (send_bufs c)" unfolding ring_ok_def by linarith+
  moreover from this(1) have "unat i mod ring_size cf < ring_size cf" by (rule mod_less_divisor)
  ultimately show ?thesis unfolding sbuf_idx_nat by linarith
qed

lemma ring_ok_buf:
  assumes "ring_ok cf p t c"
  shows "getSendBuf cf t i c = Some (ring_buf cf t c i)" "buf_ready cf t (ring_buf cf t c i)" "peer_of (ring_buf cf t c i) = p"
proof -
  have "unat i mod ring_size cf < ring_size cf" using assms by (intro mod_less_divisor) (simp add: ring_ok_def)
  then show "buf_ready cf t (ring_buf cf t c i)" "peer_of (ring_buf cf t c i) = p"
    using assms by (simp_all add: ring_ok_def ring_buf_def sbuf_idx_nat)
  show "getSendBuf cf t i c = Some (ring_buf cf t c i)"
    using ring_ok_index [OF assms] by (simp add: getSendBuf_def ring_buf_def)
qed

text \<open>A buffer of the ring may be replaced by another ready one.\<close>

lemma ring_ok_update:
  assumes "ring_ok cf p t c" "buf_ready cf t b" "peer_of b = p" "send_bufs c' = (send_bufs c)[j := b]"
  shows "ring_ok cf p t c'"
proof -
  have "buf_ready cf t ((send_bufs c)[j := b] ! k) \<and> peer_of ((send_bufs c)[j := b] ! k) = p"
    if "k < length (send_bufs c)" "buf_ready cf t (send_bufs c ! k) \<and> peer_of (send_bufs c ! k) = p" for k
    using that assms(2,3) by (cases "j = k") simp_all
  then show ?thesis using assms(1,4) by (simp add: ring_ok_def)
qed

text \<open>What of a connection the ring depends on.\<close>

definition ring_view :: "TcpConn \<Rightarrow> nat \<times> CSum \<times> CSum \<times> bool \<times> u32" where
  "ring_view t = (tc_base t, ipsum t, tcpsum t, has_ts t, smss t)"

lemma ring_view_cong:
  assumes "ring_view t = ring_view t'"
  shows "sbuf_idx cf t = sbuf_idx cf t'" "hasTs cf t = hasTs cf t'" "buf_ready cf t = buf_ready cf t'" "smss t = smss t'"
    "ring_ok cf p t c = ring_ok cf p t' c" "ring_buf cf t c = ring_buf cf t' c"
proof -
  have v: "tc_base t = tc_base t'" "ipsum t = ipsum t'" "tcpsum t = tcpsum t'" "has_ts t = has_ts t'" "smss t = smss t'"
    using assms by (simp_all add: ring_view_def)
  show i: "sbuf_idx cf t = sbuf_idx cf t'" and h: "hasTs cf t = hasTs cf t'" and "smss t = smss t'"
    using v by (auto simp: sbuf_idx_def hasTs_def)
  show b: "buf_ready cf t = buf_ready cf t'" using v h by (auto simp: buf_ready_def ip_covers_def hdr_sum_def)
  show "ring_ok cf p t c = ring_ok cf p t' c" using v b by (simp add: ring_ok_def)
  show "ring_buf cf t c = ring_buf cf t' c" using i by (auto simp: ring_buf_def)
qed

subsection \<open>The queue\<close>

definition data_off :: "Conf \<Rightarrow> TcpConn \<Rightarrow> nat" where
  "data_off cf t = (if hasTs cf t then 12 else 0)"

definition chunk :: "Conf \<Rightarrow> TcpConn \<Rightarrow> 'a Core_scheme \<Rightarrow> u32 \<Rightarrow> nat \<Rightarrow> u8 list" where
  "chunk cf t c i n = take n (drop (data_off cf t) (body (ring_buf cf t c i)))"

definition ring_seq :: "Conf \<Rightarrow> TcpConn \<Rightarrow> 'a Core_scheme \<Rightarrow> u32 \<Rightarrow> u32" where
  "ring_seq cf t c i = ntohl (seq_num (tcp_hdr (ring_buf cf t c i)))"

text \<open>The number of full buffers that wait, and the waiting bytes.\<close>

definition waiting :: "TcpConn \<Rightarrow> nat" where
  "waiting t = unat (data_next t - send_next t)"

definition unsent :: "Conf \<Rightarrow> TcpConn \<Rightarrow> 'a Core_scheme \<Rightarrow> u8 list" where
  "unsent cf t c =
     concat (map (\<lambda>k. chunk cf t c (send_next t + of_nat k) (unat (smss t))) [0..<waiting t])
     @ chunk cf t c (data_next t) (unat (data_next_size t))"

definition sums_to :: "CSum \<Rightarrow> u8 list \<Rightarrow> bool" where
  "sums_to s bs \<longleftrightarrow> unat (csum s) \<le> 131072 * length bs \<and> unat (csum s) mod 65535 = bsum False bs mod 65535"

definition queue_inv :: "Conf \<Rightarrow> u8 list \<times> u32 \<times> u32 \<times> u16 \<times> u16 \<Rightarrow> TcpConn \<Rightarrow> 'a Core_scheme \<Rightarrow> bool" where
  "queue_inv cf p t c \<longleftrightarrow> ring_ok cf p t c \<and> 0 < smss t \<and> unat (smss t) \<le> 1460
     \<and> unat (data_next t - send_una t) < ring_size cf
     \<and> unat (send_next t - send_una t) + waiting t = unat (data_next t - send_una t)
     \<and> data_next_size t \<le> smss t \<and> (data_next_size t = 0 \<or> unat (data_next t - send_una t) + 1 < ring_size cf)
     \<and> sums_to (data_sum t) (chunk cf t c (data_next t) (unat (data_next_size t)))
     \<and> (\<forall>k < waiting t. sums_to (CSum_of (ack_num (tcp_hdr (ring_buf cf t c (send_next t + of_nat k)))))
          (chunk cf t c (send_next t + of_nat k) (unat (smss t))))"

lemma chunk_view:
  assumes "ring_view t = ring_view t'"
  shows "chunk cf t c = chunk cf t' c" "ring_seq cf t c = ring_seq cf t' c" "data_off cf t = data_off cf t'"
  by (intro ext, simp add: chunk_def data_off_def ring_seq_def ring_view_cong(2,6) [OF assms])+
    (simp add: data_off_def ring_view_cong(2) [OF assms])

lemma chunk_same: "body (ring_buf cf t c i) = body (ring_buf cf t c' i) \<Longrightarrow> chunk cf t c i n = chunk cf t c' i n"
  by (simp add: chunk_def)

lemma chunk_length:
  assumes "ring_ok cf p t c" "n \<le> unat (smss t)"
  shows "length (chunk cf t c i n) = n"
  using ring_ok_buf(2) [OF assms(1), of i] assms(2) by (auto simp: chunk_def buf_ready_def data_off_def)

lemma sums_to_covers:
  assumes r: "ring_ok cf p t c" and s: "sums_to sm (chunk cf t c i n)" and n: "n \<le> 1460"
  shows "sum_covers cf t sm n (ring_buf cf t c i)"
proof -
  let ?b = "ring_buf cf t c i"
  have t: "unat (csum (tcpsum t)) < 2 ^ 22" "unat (csum (tcpsum t)) mod 65535 = hdr_sum cf t ?b mod 65535"
    using r ring_ok_buf(2) [OF r, of i] by (auto simp: ring_ok_def buf_ready_def)
  have sv: "unat (csum sm) \<le> 131072 * length (chunk cf t c i n)" "unat (csum sm) mod 65535 = bsum False (chunk cf t c i n) mod 65535"
    using s by (simp_all add: sums_to_def)
  have "length (chunk cf t c i n) \<le> 1460" using n by (simp add: chunk_def)
  then have "unat (csum sm) + unat (csum (tcpsum t)) < 2 ^ 32 - 2 ^ 20" using sv(1) t(1) by simp
  moreover have "tcp_part (hasTs cf t) ?b n = bsum False (chunk cf t c i n) + hdr_sum cf t ?b"
    by (simp add: tcp_part_def hdr_sum_def chunk_def data_off_def)
  then have "(unat (csum sm) + unat (csum (tcpsum t))) mod 65535 = tcp_part (hasTs cf t) ?b n mod 65535"
    by (simp only:) (rule mod_add_cong [OF sv(2) t(2)])
  ultimately show ?thesis by (simp add: sum_covers_def)
qed

text \<open>Buffers that differ only in what a frame does not take from the cached sums.\<close>

lemma buf_ready_same:
  assumes "buf_ready cf t b" "\<exists>tl ic. ip_hdr b' = (ip_hdr b)\<lparr>tot_len := tl, ip_checksum := ic\<rparr>"
    and "src_port (tcp_hdr b') = src_port (tcp_hdr b)" "dst_port (tcp_hdr b') = dst_port (tcp_hdr b)"
    and "offset_flags (tcp_hdr b') = offset_flags (tcp_hdr b)" "urgent_pointer (tcp_hdr b') = urgent_pointer (tcp_hdr b)"
    and "length (body b') = length (body b)" "hasTs cf t \<Longrightarrow> take 4 (body b') = take 4 (body b)"
  shows "buf_ready cf t b'"
  using assms by (auto simp: buf_ready_def ip_covers_def hdr_sum_def)

lemma buf_ready_number:
  "buf_ready cf t (b\<lparr>tcp_hdr := (tcp_hdr b)\<lparr>seq_num := x\<rparr>\<rparr>) = buf_ready cf t b"
  "peer_of (b\<lparr>tcp_hdr := (tcp_hdr b)\<lparr>seq_num := x\<rparr>\<rparr>) = peer_of b"
  "buf_ready cf t (b\<lparr>tcp_hdr := (tcp_hdr b)\<lparr>ack_num := x\<rparr>\<rparr>) = buf_ready cf t b"
  "peer_of (b\<lparr>tcp_hdr := (tcp_hdr b)\<lparr>ack_num := x\<rparr>\<rparr>) = peer_of b"
  by (simp_all add: buf_ready_def ip_covers_def hdr_sum_def peer_of_def)

subsection \<open>Sending the buffer at the head\<close>

definition data_frame :: "nat \<Rightarrow> u8 list \<times> u32 \<times> u32 \<times> u16 \<times> u16 \<Rightarrow> u32 \<Rightarrow> u8 list \<Rightarrow> Frame \<Rightarrow> bool" where
  "data_frame off p sq bs f \<longleftrightarrow> frame_valid f
     \<and> (dst_mac (f_eth f), src_ip (f_ip f), dst_ip (f_ip f), src_port (f_tcp f), dst_port (f_tcp f)) = p
     \<and> ntohl (seq_num (f_tcp f)) = sq \<and> drop off (f_payload f) = bs"

lemma frame_body_data:
  "data_off cf t \<le> length (body b) \<Longrightarrow> drop (data_off cf t) (frame_body cf t c b n) = take n (drop (data_off cf t) (body b))"
  by (cases "hasTs cf t") (simp_all add: frame_body_def data_off_def min_absorb2)

lemma emit_head:
  assumes r: "ring_ok cf p t c" and s: "sums_to sm (chunk cf t c (send_next t) n)" and n: "n \<le> unat (smss t)" "unat (smss t) \<le> 1460"
    and ne: "sbuf_idx cf t (send_next t) \<noteq> sbuf_idx cf t (send_next t + 1)"
  shows "\<exists>t' c' f. Option.bind (sendBuf cf (of_nat n) sm (send_next t) (t, c)) (advanceNext cf m) = Some (t', c')
    \<and> t' = t\<lparr>pending_ack := False, last_ack_seq := recv_buf_seq t + seg_second t, send_next := send_next t + 1\<rparr>
    \<and> wire c' = wire c @ [f] \<and> data_frame (data_off cf t) p (ring_seq cf t c (send_next t)) (chunk cf t c (send_next t) n) f
    \<and> ring_ok cf p t' c' \<and> ring_seq cf t' c' (send_next t + 1) = ring_seq cf t c (send_next t) + m
    \<and> (\<forall>j. sbuf_idx cf t j \<noteq> sbuf_idx cf t (send_next t) \<longrightarrow>
         body (ring_buf cf t' c' j) = body (ring_buf cf t c j)
         \<and> ack_num (tcp_hdr (ring_buf cf t' c' j)) = ack_num (tcp_hdr (ring_buf cf t c j)))"
proof -
  let ?i = "send_next t" and ?las = "recv_buf_seq t + seg_second t"
  let ?b = "ring_buf cf t c ?i" and ?nb = "ring_buf cf t c (?i + 1)"
  let ?t1 = "t\<lparr>pending_ack := False, last_ack_seq := ?las\<rparr>"
  have rb: "buf_ready cf t ?b" "peer_of ?b = p" "buf_ready cf t ?nb" "peer_of ?nb = p" using ring_ok_buf [OF r] by simp_all
  have un: "unat (of_nat n :: u32) = n" using n by (intro unat_of_nat_small) simp
  have len: "unat (of_nat n :: u32) + (if hasTs cf t then 12 else 0) \<le> length (body ?b)" "length (body ?b) \<le> 65000"
    "data_off cf t \<le> length (body ?b)"
    using rb(1) n un by (auto simp: buf_ready_def data_off_def)
  have cov: "sum_covers cf t sm (unat (of_nat n :: u32)) ?b" unfolding un using n by (intro sums_to_covers [OF r s]) simp
  have ipc: "ip_covers t ?b" using rb(1) by (simp add: buf_ready_def)
  obtain b f where b: "sendBuf cf (of_nat n) sm ?i (t, c)
      = Some (?t1, c\<lparr>timers := unlink (ctimer t 1) (timers c), wire := wire c @ [f],
          send_bufs := (send_bufs c)[sbuf_idx cf t ?i := b\<lparr>avail := False\<rparr>]\<rparr>)"
    and f: "frame_valid f" "f_eth f = eth_hdr ?b" "f_ip f = ip_hdr b" "f_tcp f = tcp_hdr b" "f_payload f = frame_body cf t c ?b n"
    and h: "\<exists>tl ic. ip_hdr b = (ip_hdr ?b)\<lparr>tot_len := tl, ip_checksum := ic\<rparr>"
      "\<exists>ck. tcp_hdr b = (tcp_hdr ?b)\<lparr>ack_num := htonl ?las, window_size := getRecvWindowSize cf t, tcp_checksum := ck\<rparr>"
      "eth_hdr b = eth_hdr ?b" "body b = frame_body cf t c ?b n @ drop (n + (if hasTs cf t then 12 else 0)) (body ?b)"
    using sendBuf_frame [OF ring_ok_buf(1) [OF r] ipc cov len(1,2)] unfolding un by blast
  define c1 where "c1 = c\<lparr>timers := unlink (ctimer t 1) (timers c), wire := wire c @ [f],
          send_bufs := (send_bufs c)[sbuf_idx cf t ?i := b\<lparr>avail := False\<rparr>]\<rparr>"
  have v: "ring_view (t\<lparr>pending_ack := x, last_ack_seq := y, send_next := z\<rparr>) = ring_view t" "ring_view ?t1 = ring_view t" for x y z
    by (simp_all add: ring_view_def)
  have bb: "length (body b) = length (body ?b)" "hasTs cf t \<Longrightarrow> take 4 (body b) = take 4 (body ?b)"
    using len un by (auto simp: h(4) frame_body_def)
  have b2: "buf_ready cf t (b\<lparr>avail := False, send_ts := x\<rparr>)" for x using h bb by (intro buf_ready_same [OF rb(1)]) auto
  have b3: "peer_of (b\<lparr>avail := False, send_ts := x\<rparr>) = p" for x using rb(2) h(1,2,3) by (auto simp: peer_of_def)
  have n2: "buf_ready cf t (?nb\<lparr>tcp_hdr := (tcp_hdr ?nb)\<lparr>seq_num := x\<rparr>\<rparr>)" "peer_of (?nb\<lparr>tcp_hdr := (tcp_hdr ?nb)\<lparr>seq_num := x\<rparr>\<rparr>) = p" for x
    using rb(3,4) by (simp_all add: buf_ready_number)
  have il: "sbuf_idx cf t k < length (send_bufs c)" for k using ring_ok_index [OF r] .
  have e: "getSendBuf cf ?t1 (send_next ?t1) c1 = Some (b\<lparr>avail := False\<rparr>)" "getSendBuf cf ?t1 (send_next ?t1 + 1) c1 = Some ?nb"
    "sbuf_idx cf ?t1 (send_next ?t1) \<noteq> sbuf_idx cf ?t1 (send_next ?t1 + 1)"
    using ne il by (simp_all add: getSendBuf_def c1_def ring_buf_def)
  let ?t2 = "t\<lparr>pending_ack := False, last_ack_seq := ?las, send_next := ?i + 1\<rparr>"
  let ?nb2 = "?nb\<lparr>tcp_hdr := (tcp_hdr ?nb)\<lparr>seq_num := htonl (ntohl (seq_num (tcp_hdr b)) + m)\<rparr>\<rparr>"
  obtain c2 where c2: "advanceNext cf m (?t1, c1) = Some (?t2, c2)" "wire c2 = wire c @ [f]"
    "send_bufs c2 = (send_bufs c)[sbuf_idx cf t ?i := b\<lparr>avail := False, send_ts := now_ts c\<rparr>, sbuf_idx cf t (?i + 1) := ?nb2]"
    using advanceNext_val [OF e, of m] by (simp add: c1_def)
  have bq: "seq_num (tcp_hdr b) = seq_num (tcp_hdr ?b)" using h(2) by auto
  have rv: "ring_ok cf p ?t2 c' = ring_ok cf p t c'" "ring_buf cf ?t2 c' = ring_buf cf t c'" for c' :: "'a Core_scheme"
    by (rule ring_view_cong [OF v(1)])+
  have r1: "ring_ok cf p t (c\<lparr>send_bufs := (send_bufs c)[sbuf_idx cf t ?i := b\<lparr>avail := False, send_ts := now_ts c\<rparr>]\<rparr>)"
    by (rule ring_ok_update [OF r b2 b3]) simp
  have r2: "ring_ok cf p t c2" by (rule ring_ok_update [OF r1 n2]) (simp add: c2(3))
  have sq: "ring_buf cf t c2 (?i + 1) = ?nb2" using il by (simp add: ring_buf_def c2(3))
  have oth: "body (ring_buf cf t c2 j) = body (ring_buf cf t c j) \<and> ack_num (tcp_hdr (ring_buf cf t c2 j)) = ack_num (tcp_hdr (ring_buf cf t c j))"
    if "sbuf_idx cf t j \<noteq> sbuf_idx cf t ?i" for j
    using that il by (cases "sbuf_idx cf t j = sbuf_idx cf t (?i + 1)") (simp_all add: ring_buf_def c2(3))
  have df: "data_frame (data_off cf t) p (ring_seq cf t c ?i) (chunk cf t c ?i n) f"
    using f h(1,2) rb(2) len(3) by (auto simp: data_frame_def ring_seq_def chunk_def frame_body_data peer_of_def)
  show ?thesis
  proof (intro exI conjI)
    show "Option.bind (sendBuf cf (of_nat n) sm ?i (t, c)) (advanceNext cf m) = Some (?t2, c2)"
      unfolding b c1_def [symmetric] by (simp only: bind.simps c2(1))
  qed (use c2(2) df r2 sq oth bq in \<open>simp_all add: rv ring_seq_def\<close>)
qed

subsection \<open>Appending to the last buffer\<close>

lemma queue_index:
  assumes "queue_inv cf p t c" "k < waiting t"
  shows "sbuf_idx cf t (send_next t + of_nat k) \<noteq> sbuf_idx cf t (data_next t)"
proof (rule sbuf_idx_distinct)
  have q: "ring_size cf dvd 2 ^ 32" "unat (data_next t - send_una t) < ring_size cf"
    "unat (send_next t - send_una t) + waiting t = unat (data_next t - send_una t)"
    using assms(1) by (simp_all add: queue_inv_def ring_ok_def)
  show "ring_size cf dvd 2 ^ 32" by (rule q(1))
  have uk: "unat (of_nat k :: u32) = k"
    using less_trans [OF assms(2) [unfolded waiting_def] unat_lt_u32] by (intro unat_of_nat_small) simp
  have e: "data_next t - (send_next t + of_nat k) = (data_next t - send_next t) - of_nat k" by simp
  have d: "unat (data_next t - (send_next t + of_nat k)) = waiting t - k"
    unfolding e using assms(2) uk by (subst unat_sub) (simp_all add: word_le_nat_alt waiting_def)
  show "unat (data_next t - (send_next t + of_nat k)) < ring_size cf" unfolding d using q by linarith
  show "send_next t + of_nat k \<noteq> data_next t" using d assms(2) by auto
qed

lemma sums_to_append:
  assumes "sums_to s xs" "length bs < 2 ^ 32" "bs \<noteq> []" "length (xs @ bs) \<le> 1460"
    and "unat cks mod 65535 = bsum (odd (length xs)) bs mod 65535" "unat cks \<le> length bs div 4 + 131070"
  shows "sums_to (CSum_add (CSum_of cks) s) (xs @ bs)"
proof -
  have s: "unat (csum s) \<le> 131072 * length xs" "unat (csum s) mod 65535 = bsum False xs mod 65535"
    using assms(1) by (simp_all add: sums_to_def)
  have "1 \<le> length bs" using assms(3) by (cases bs) simp_all
  then have c: "unat cks \<le> 131072 * length bs" using assms(6) by linarith
  have v: "unat (csum (CSum_add (CSum_of cks) s)) = unat (csum s) + unat cks"
    using s(1) c assms(4) by (subst CSum_add_val) auto
  have "(unat (csum s) + unat cks) mod 65535 = (bsum False xs + bsum (odd (length xs)) bs) mod 65535"
    by (rule mod_add_cong [OF s(2) assms(5)])
  then show ?thesis using s(1) c by (simp add: sums_to_def v bsum_append)
qed

lemma queue_append:
  fixes c :: "'a Core_scheme"
  assumes q: "queue_inv cf p t c" and room: "unat (data_next t - send_una t) + 1 < ring_size cf" and bs: "bs \<noteq> []" "unat (data_next_size t) + length bs \<le> unat (smss t)"
    and ck: "unat cks mod 65535 = bsum (odd (unat (data_next_size t))) bs mod 65535" "unat cks \<le> length bs div 4 + 131070"
  defines "off \<equiv> data_off cf t + unat (data_next_size t)" and "b \<equiv> ring_buf cf t c (data_next t)"
  defines "t1 \<equiv> t\<lparr>data_sum := CSum_add (CSum_of cks) (data_sum t), data_next_size := data_next_size t + of_nat (length bs)\<rparr>"
    and "c1 \<equiv> c\<lparr>send_bufs := (send_bufs c)[sbuf_idx cf t (data_next t) :=
       b\<lparr>body := take off (body b) @ bs @ drop (off + length bs) (body b)\<rparr>]\<rparr>"
  shows "queue_inv cf p t1 c1 \<and> unsent cf t1 c1 = unsent cf t c @ bs \<and> ring_seq cf t1 c1 = ring_seq cf t c
    \<and> unat (data_next_size t1) = unat (data_next_size t) + length bs"
proof -
  have Q: "ring_ok cf p t c" "0 < smss t" "unat (smss t) \<le> 1460" "unat (data_next t - send_una t) < ring_size cf"
     "unat (send_next t - send_una t) + waiting t = unat (data_next t - send_una t)"
     "sums_to (data_sum t) (chunk cf t c (data_next t) (unat (data_next_size t)))"
     "\<forall>k < waiting t. sums_to (CSum_of (ack_num (tcp_hdr (ring_buf cf t c (send_next t + of_nat k)))))
          (chunk cf t c (send_next t + of_nat k) (unat (smss t)))"
    using q by (simp_all add: queue_inv_def)
  have b: "buf_ready cf t b" "peer_of b = p" "getSendBuf cf t (data_next t) c = Some b"
    using ring_ok_buf [OF Q(1), of "data_next t"] by (simp_all add: b_def)
  have v: "ring_view t1 = ring_view t" by (simp add: ring_view_def t1_def)
  note rv = ring_view_cong [OF v]
  have off4: "data_off cf t = 0 \<and> \<not> hasTs cf t \<or> data_off cf t = 12 \<and> hasTs cf t" by (simp add: data_off_def)
  have fits: "off + length bs \<le> length (body b)" using b(1) bs(2) off4 by (auto simp: buf_ready_def off_def)
  let ?b1 = "b\<lparr>body := take off (body b) @ bs @ drop (off + length bs) (body b)\<rparr>"
  have b1: "buf_ready cf t ?b1" "peer_of ?b1 = p"
    using b(1,2) fits off4 by (auto simp: buf_ready_def ip_covers_def hdr_sum_def peer_of_def off_def)
  have r1: "ring_ok cf p t c1" by (rule ring_ok_update [OF Q(1) b1]) (simp add: c1_def)
  have here: "ring_buf cf t c1 (data_next t) = ?b1"
    using ring_ok_index [OF Q(1), of "data_next t"] by (simp add: ring_buf_def c1_def)
  have oth: "ring_buf cf t c1 j = ring_buf cf t c j" if "sbuf_idx cf t j \<noteq> sbuf_idx cf t (data_next t)" for j
    using that by (simp add: ring_buf_def c1_def)
  have len: "length bs \<le> 1460" using bs(2) Q(3) by simp
  have dn: "unat (data_next_size t1) = unat (data_next_size t) + length bs"
  proof -
    have l: "unat (of_nat (length bs) :: u32) = length bs" using len by (intro unat_of_nat_small) simp
    then show ?thesis unfolding t1_def using bs(2) Q(3) by (simp add: unat_add_u32_nowrap)
  qed
  have ch: "chunk cf t c1 (data_next t) (unat (data_next_size t1)) = chunk cf t c (data_next t) (unat (data_next_size t)) @ bs"
    unfolding chunk_def here dn using fits by (simp add: off_def b_def [symmetric] drop_take)
  have chl: "length (chunk cf t c (data_next t) (unat (data_next_size t))) = unat (data_next_size t)"
    using bs(2) by (intro chunk_length [OF Q(1)]) simp
  have ds: "data_sum t1 = CSum_add (CSum_of cks) (data_sum t)" by (simp add: t1_def)
  have s1: "sums_to (data_sum t1) (chunk cf t c1 (data_next t) (unat (data_next_size t1)))"
    unfolding ch ds using sums_to_append [OF Q(6), of bs cks] bs ck chl Q(3) len by simp
  have full: "ring_buf cf t c1 (send_next t + of_nat k) = ring_buf cf t c (send_next t + of_nat k)" if "k < waiting t" for k
    using queue_index [OF q that] by (rule oth)
  have f1: "send_next t1 = send_next t" "send_una t1 = send_una t" "data_next t1 = data_next t" "waiting t1 = waiting t"
    by (simp_all add: t1_def waiting_def)
  have le: "data_next_size t1 \<le> smss t" unfolding word_le_nat_alt dn by (rule bs(2))
  have cf: "chunk cf t c1 (send_next t + of_nat k) n = chunk cf t c (send_next t + of_nat k) n" if "k < waiting t" for k n
    using full [OF that] by (simp add: chunk_def)
  have "queue_inv cf p t1 c1"
    unfolding queue_inv_def f1 rv chunk_view [OF v] using r1 Q(2-5,7) le s1 full cf room by auto
  moreover have "unsent cf t1 c1 = unsent cf t c @ bs"
  proof -
    have "map (\<lambda>k. chunk cf t c1 (send_next t + of_nat k) (unat (smss t))) [0..<waiting t]
        = map (\<lambda>k. chunk cf t c (send_next t + of_nat k) (unat (smss t))) [0..<waiting t]"
      using cf by (intro map_cong) auto
    then show ?thesis unfolding unsent_def f1 rv chunk_view [OF v] ch by (simp only: append_assoc)
  qed
  moreover have "ring_seq cf t1 c1 = ring_seq cf t c"
  proof
    fix j
    show "ring_seq cf t1 c1 j = ring_seq cf t c j"
      unfolding chunk_view [OF v] using oth [of j] ring_ok_index [OF Q(1), of "data_next t"]
      by (cases "sbuf_idx cf t j = sbuf_idx cf t (data_next t)") (auto simp: ring_seq_def ring_buf_def c1_def b_def)
  qed
  ultimately show ?thesis using dn by blast
qed

subsection \<open>Closing a buffer\<close>

lemma ring_room:
  assumes "queue_inv cf p t c" "send_una t + ConnSendBufCnt cf - 1 \<noteq> data_next t"
  shows "unat (data_next t + 1 - send_una t) = unat (data_next t - send_una t) + 1"
    and "unat (data_next t - send_una t) + 1 < ring_size cf"
proof -
  have q: "unat (data_next t - send_una t) < ring_size cf" "2 \<le> ring_size cf"
    using assms(1) by (simp_all add: queue_inv_def ring_ok_def)
  have "unat (data_next t - send_una t) \<noteq> unat (ConnSendBufCnt cf - 1)"
  proof
    assume "unat (data_next t - send_una t) = unat (ConnSendBufCnt cf - 1)"
    then have "data_next t - send_una t = ConnSendBufCnt cf - 1" by (simp only: word_unat_eq_iff)
    then show False using assms(2) by (simp add: algebra_simps)
  qed
  moreover have "unat (ConnSendBufCnt cf - 1) = ring_size cf - 1"
    using q(2) by (subst unat_sub) (simp_all add: word_le_nat_alt)
  ultimately show r: "unat (data_next t - send_una t) + 1 < ring_size cf" using q(1) by linarith
  have e: "data_next t + 1 - send_una t = data_next t - send_una t + 1" by simp
  have "unat (data_next t - send_una t + 1) = unat (data_next t - send_una t) + unat (1 :: u32)"
    using less_trans [OF r unat_lt_u32] by (intro unat_add_u32_nowrap) simp
  then show "unat (data_next t + 1 - send_una t) = unat (data_next t - send_una t) + 1" unfolding e by simp
qed

lemma sums_to_nil: "sums_to (CSum_of 0) []"
  by (simp add: sums_to_def)

lemma queue_send:
  assumes q: "queue_inv cf p t c" and room: "send_una t + ConnSendBufCnt cf - 1 \<noteq> data_next t" and h: "data_next t = send_next t"
  shows "\<exists>t' c' f. Option.bind (Option.bind (sendBuf cf (data_next_size t) (data_sum t) (data_next t) (t, c))
      (advanceNext cf (data_next_size t))) (\<lambda>(t, c). Some (advanceData t, c)) = Some (t', c')
    \<and> queue_inv cf p t' c' \<and> unsent cf t' c' = [] \<and> wire c' = wire c @ [f]
    \<and> data_frame (data_off cf t) p (ring_seq cf t c (send_next t)) (unsent cf t c) f
    \<and> ring_seq cf t' c' (send_next t') = ring_seq cf t c (send_next t) + of_nat (length (unsent cf t c))
    \<and> ring_view t' = ring_view t \<and> both_wnd_seq t' = both_wnd_seq t \<and> send_una t' = send_una t \<and> data_next_size t' = 0
    \<and> fin_sent t' = fin_sent t \<and> waiting t' = 0"
proof -
  let ?n = "unat (data_next_size t)"
  have Q: "ring_ok cf p t c" "0 < smss t" "unat (smss t) \<le> 1460" "?n \<le> unat (smss t)"
     "sums_to (data_sum t) (chunk cf t c (send_next t) ?n)"
    using q h by (simp_all add: queue_inv_def word_le_nat_alt)
  have w: "waiting t = 0" using h by (simp add: waiting_def)
  have u: "unsent cf t c = chunk cf t c (send_next t) ?n" by (simp add: unsent_def w h)
  note room' = ring_room [OF q room]
  have dv: "ring_size cf dvd 2 ^ 32" "1 < ring_size cf" using Q(1) by (simp_all add: ring_ok_def)
  have ne: "sbuf_idx cf t (send_next t) \<noteq> sbuf_idx cf t (send_next t + 1)"
    using dv by (intro sbuf_idx_distinct) simp_all
  obtain t1 c1 f where e: "Option.bind (sendBuf cf (of_nat ?n) (data_sum t) (send_next t) (t, c)) (advanceNext cf (data_next_size t)) = Some (t1, c1)"
    "t1 = t\<lparr>pending_ack := False, last_ack_seq := recv_buf_seq t + seg_second t, send_next := send_next t + 1\<rparr>"
    "wire c1 = wire c @ [f]" "data_frame (data_off cf t) p (ring_seq cf t c (send_next t)) (chunk cf t c (send_next t) ?n) f"
    "ring_ok cf p t1 c1" "ring_seq cf t1 c1 (send_next t + 1) = ring_seq cf t c (send_next t) + data_next_size t"
    using emit_head [OF Q(1,5,4,3) ne, of "data_next_size t"] by blast
  let ?t2 = "advanceData t1"
  have v: "ring_view ?t2 = ring_view t1" by (simp add: ring_view_def advanceData_def)
  have f2: "data_next ?t2 = send_next t + 1" "send_next ?t2 = send_next t + 1" "send_una ?t2 = send_una t" "data_next_size ?t2 = 0"
    "data_sum ?t2 = CSum_of 0" "smss ?t2 = smss t" "waiting ?t2 = 0" "both_wnd_seq ?t2 = both_wnd_seq t" "ring_view ?t2 = ring_view t"
    "fin_sent ?t2 = fin_sent t"
    by (simp_all add: advanceData_def e(2) h waiting_def ring_view_def)
  have "queue_inv cf p ?t2 c1"
    using Q(2,3) e(5) room' sums_to_nil unfolding queue_inv_def f2 ring_view_cong(5) [OF v] by (simp add: chunk_def h)
  moreover have "unsent cf ?t2 c1 = []" by (simp add: unsent_def f2 chunk_def)
  moreover have "ring_seq cf ?t2 c1 (send_next ?t2) = ring_seq cf t c (send_next t) + of_nat (length (unsent cf t c))"
    unfolding f2 chunk_view(2) [OF v] e(6) u chunk_length [OF Q(1,4)] by simp
  ultimately show ?thesis using e(1,3,4) f2 u h by (intro exI [of _ ?t2] exI [of _ c1] exI [of _ f]) simp
qed

lemma queue_close:
  assumes q: "queue_inv cf p t c" and room: "send_una t + ConnSendBufCnt cf - 1 \<noteq> data_next t" and full: "data_next_size t = smss t"
  defines "b \<equiv> ring_buf cf t c (data_next t)"
  defines "t' \<equiv> advanceData t"
    and "c' \<equiv> c\<lparr>send_bufs := (send_bufs c)[sbuf_idx cf t (data_next t) := b\<lparr>tcp_hdr := (tcp_hdr b)\<lparr>ack_num := csum (data_sum t)\<rparr>\<rparr>]\<rparr>"
  shows "queue_inv cf p t' c' \<and> unsent cf t' c' = unsent cf t c \<and> ring_seq cf t' c' = ring_seq cf t c
    \<and> ring_view t' = ring_view t \<and> both_wnd_seq t' = both_wnd_seq t \<and> send_una t' = send_una t \<and> send_next t' = send_next t
    \<and> data_next_size t' = 0 \<and> wire c' = wire c"
proof -
  have Q: "ring_ok cf p t c" "0 < smss t" "unat (smss t) \<le> 1460" "unat (send_next t - send_una t) + waiting t = unat (data_next t - send_una t)"
     "sums_to (data_sum t) (chunk cf t c (data_next t) (unat (smss t)))"
     "\<forall>k < waiting t. sums_to (CSum_of (ack_num (tcp_hdr (ring_buf cf t c (send_next t + of_nat k)))))
          (chunk cf t c (send_next t + of_nat k) (unat (smss t)))"
    using q full by (simp_all add: queue_inv_def)
  note room' = ring_room [OF q room]
  have v: "ring_view t' = ring_view t" by (simp add: ring_view_def t'_def advanceData_def)
  have il: "sbuf_idx cf t j < length (send_bufs c)" for j by (rule ring_ok_index [OF Q(1)])
  let ?b = "b\<lparr>tcp_hdr := (tcp_hdr b)\<lparr>ack_num := csum (data_sum t)\<rparr>\<rparr>"
  have here: "ring_buf cf t c' (data_next t) = ?b" using il by (simp add: ring_buf_def c'_def)
  have rb: "ring_buf cf t c' j = (if sbuf_idx cf t j = sbuf_idx cf t (data_next t) then ?b else ring_buf cf t c j)" for j
    using il by (simp add: ring_buf_def c'_def)
  have hb: "ring_buf cf t c j = b" if "sbuf_idx cf t j = sbuf_idx cf t (data_next t)" for j using that by (simp add: ring_buf_def b_def)
  have ch: "chunk cf t c' = chunk cf t c" using rb hb by (intro ext) (auto simp: chunk_def)
  have sq: "ring_seq cf t c' = ring_seq cf t c" using rb hb by (intro ext) (auto simp: ring_seq_def)
  have r: "ring_ok cf p t c'"
    by (rule ring_ok_update [OF Q(1)]) (simp_all add: buf_ready_number ring_ok_buf [OF Q(1)] b_def c'_def)
  have wl: "waiting t + 1 < 4294967296" using Q(4) room'(2) unat_lt_u32 [of "ConnSendBufCnt cf"] by linarith
  have e: "data_next t + 1 - send_next t = (data_next t - send_next t) + 1" by simp
  have w: "waiting t' = waiting t + 1"
    unfolding waiting_def t'_def advanceData_def using wl
    by (simp add: e) (subst unat_add_u32_nowrap, simp_all add: waiting_def)
  have f: "send_next t' = send_next t" "send_una t' = send_una t" "data_next t' = data_next t + 1" "data_next_size t' = 0"
    "data_sum t' = CSum_of 0" "smss t' = smss t" "both_wnd_seq t' = both_wnd_seq t"
    by (simp_all add: t'_def advanceData_def)
  have lst: "send_next t + of_nat (waiting t) = data_next t" by (simp add: waiting_def)
  have sums: "sums_to (CSum_of (ack_num (tcp_hdr (ring_buf cf t c' (send_next t + of_nat k))))) (chunk cf t c (send_next t + of_nat k) (unat (smss t)))"
    if "k < waiting t + 1" for k
  proof (cases "k = waiting t")
    case True
    then show ?thesis using Q(5) by (simp add: lst here sums_to_def)
  next
    case False
    then have k: "k < waiting t" using that by simp
    then show ?thesis using Q(6) queue_index [OF q k] by (simp add: rb)
  qed
  have "queue_inv cf p t' c'"
    unfolding queue_inv_def f w ring_view_cong [OF v] chunk_view [OF v] ch
    using r Q(2-4) room' sums sums_to_nil by (simp add: chunk_def)
  moreover have "unsent cf t' c' = unsent cf t c"
    unfolding unsent_def f w chunk_view [OF v] ch by (simp add: lst full chunk_def)
  ultimately show ?thesis using sq f v by (simp add: chunk_view [OF v] c'_def)
qed

subsection \<open>The loop of \<open>sendPartial\<close>\<close>

text \<open>
  Frames that carry a run of bytes in order, without gaps, to one peer, none of them beyond the
  end \<open>w\<close> of the send window.
\<close>

fun sent_in_order :: "nat \<Rightarrow> u8 list \<times> u32 \<times> u32 \<times> u16 \<times> u16 \<Rightarrow> u32 \<Rightarrow> u32 \<Rightarrow> Frame list \<Rightarrow> u8 list \<Rightarrow> bool" where
  "sent_in_order off p w sq [] bs \<longleftrightarrow> bs = []"
| "sent_in_order off p w sq (f # fs) bs \<longleftrightarrow>
     (let n = length (drop off (f_payload f))
      in data_frame off p sq (take n bs) f \<and> sle0 (sq + of_nat n - w)
         \<and> sent_in_order off p w (sq + of_nat n) fs (drop n bs))"

lemma sent_in_order_one:
  "data_frame off p sq bs f \<Longrightarrow> sle0 (sq + of_nat (length bs) - w) \<Longrightarrow> sent_in_order off p w sq [f] bs"
  by (auto simp: data_frame_def Let_def)

lemma sent_in_order_length:
  "data_frame off p sq (take n bs) f \<Longrightarrow> n = length (drop off (f_payload f)) \<Longrightarrow> n \<le> length bs"
  by (auto simp: data_frame_def dest: arg_cong [where f = length])

lemma sent_in_order_append:
  assumes "sent_in_order off p w sq fs xs" "sent_in_order off p w (sq + of_nat (length xs)) gs ys"
  shows "sent_in_order off p w sq (fs @ gs) (xs @ ys)"
  using assms
proof (induction fs arbitrary: sq xs)
  case (Cons f fs)
  let ?n = "length (drop off (f_payload f))"
  have c: "data_frame off p sq (take ?n xs) f" "sle0 (sq + of_nat ?n - w)" "sent_in_order off p w (sq + of_nat ?n) fs (drop ?n xs)"
    using Cons.prems(1) by (simp_all add: Let_def)
  have l: "?n \<le> length xs" using sent_in_order_length [OF c(1) refl] .
  have e: "sq + of_nat ?n + of_nat (length (drop ?n xs)) = sq + of_nat (length xs)"
    using l by (simp add: of_nat_diff)
  have "sent_in_order off p w (sq + of_nat ?n) (fs @ gs) (drop ?n xs @ ys)"
    using Cons.prems(2) c(3) by (intro Cons.IH) (simp_all only: e)
  then show ?case using c l by (simp add: Let_def)
qed simp

text \<open>What a stretch of the loop achieves between two states, having taken \<open>bs\<close> from the user.\<close>

definition queue_step ::
  "Conf \<Rightarrow> u8 list \<times> u32 \<times> u32 \<times> u16 \<times> u16 \<Rightarrow> TcpConn \<times> 'a Core_scheme \<Rightarrow> u8 list \<Rightarrow> TcpConn \<times> 'a Core_scheme \<Rightarrow> bool" where
  "queue_step cf p s bs s' \<longleftrightarrow> (case (s, s') of ((t, c), (t', c')) \<Rightarrow>
     queue_inv cf p t' c' \<and> data_next_size t' < smss t' \<and> ring_view t' = ring_view t
     \<and> both_wnd_seq t' = both_wnd_seq t \<and> send_una t' = send_una t \<and> fin_sent t' = fin_sent t
     \<and> (\<exists>fs xs. wire c' = wire c @ fs \<and> unsent cf t c @ bs = xs @ unsent cf t' c'
          \<and> sent_in_order (data_off cf t) p (both_wnd_seq t) (ring_seq cf t c (send_next t)) fs xs
          \<and> ring_seq cf t' c' (send_next t') = ring_seq cf t c (send_next t) + of_nat (length xs)))"

lemma queue_step_refl:
  "queue_inv cf p t c \<Longrightarrow> data_next_size t < smss t \<Longrightarrow> queue_step cf p (t, c) [] (t, c)"
  by (simp add: queue_step_def)

lemma queue_step_trans:
  assumes "queue_step cf p s bs s'" "queue_step cf p s' bs' s''"
  shows "queue_step cf p s (bs @ bs') s''"
proof -
  obtain t c t' c' t'' c'' where s: "s = (t, c)" "s' = (t', c')" "s'' = (t'', c'')" by (cases s; cases s'; cases s'')
  obtain fs xs where 1: "wire c' = wire c @ fs" "unsent cf t c @ bs = xs @ unsent cf t' c'"
    "sent_in_order (data_off cf t) p (both_wnd_seq t) (ring_seq cf t c (send_next t)) fs xs"
    "ring_seq cf t' c' (send_next t') = ring_seq cf t c (send_next t) + of_nat (length xs)"
    and v: "ring_view t' = ring_view t" "both_wnd_seq t' = both_wnd_seq t" "send_una t' = send_una t" "fin_sent t' = fin_sent t"
    using assms(1) by (auto simp: s queue_step_def)
  obtain gs ys where 2: "wire c'' = wire c' @ gs" "unsent cf t' c' @ bs' = ys @ unsent cf t'' c''"
    "sent_in_order (data_off cf t') p (both_wnd_seq t') (ring_seq cf t' c' (send_next t')) gs ys"
    "ring_seq cf t'' c'' (send_next t'') = ring_seq cf t' c' (send_next t') + of_nat (length ys)"
    and v2: "queue_inv cf p t'' c''" "data_next_size t'' < smss t''" "ring_view t'' = ring_view t'"
      "both_wnd_seq t'' = both_wnd_seq t'" "send_una t'' = send_una t'" "fin_sent t'' = fin_sent t'"
    using assms(2) by (auto simp: s queue_step_def)
  have "sent_in_order (data_off cf t) p (both_wnd_seq t) (ring_seq cf t c (send_next t)) (fs @ gs) (xs @ ys)"
    using 1(3) 2(3) unfolding chunk_view(3) [OF v(1)] v(2) 1(4) by (rule sent_in_order_append)
  moreover have "unsent cf t c @ bs @ bs' = (xs @ ys) @ unsent cf t'' c''"
    using 1(2) 2(2) by (metis append.assoc)
  ultimately show ?thesis using 1 2 v v2 unfolding queue_step_def s
    by (auto intro!: exI [of _ "fs @ gs"] exI [of _ "xs @ ys"] simp: add.assoc)
qed

lemma sendPartial_iteration:
  fixes c :: "'a Core_scheme"
  assumes q: "queue_inv cf p t c" and lt: "data_next_size t < smss t" and d: "data \<noteq> []" "length data < 2 ^ 32"
    and room: "send_una t + ConnSendBufCnt cf - 1 \<noteq> data_next t"
  shows "\<exists>k t1 c1. 0 < k \<and> k \<le> length data
    \<and> sendPartialLoop cf lst data sent (t, c) = sendPartialLoop cf lst (drop k data) (sent + k) (t1, c1)
    \<and> queue_step cf p (t, c) (take k data) (t1, c1)"
proof -
  let ?d = "data_next t"
  define k where "k = unat (min (smss t - data_next_size t) (of_nat (length data)))"
  define off where "off = data_off cf t + unat (data_next_size t)"
  define b where "b = ring_buf cf t c ?d"
  have Q: "ring_ok cf p t c" "unat (smss t) \<le> 1460" using q by (simp_all add: queue_inv_def)
  have sub: "unat (smss t - data_next_size t) = unat (smss t) - unat (data_next_size t)"
    using lt by (intro unat_sub) simp
  have ul: "unat (of_nat (length data) :: u32) = length data" using d(2) by (intro unat_of_nat_small) simp
  have k: "k = min (unat (smss t) - unat (data_next_size t)) (length data)"
    by (auto simp: k_def min_def word_le_nat_alt sub ul)
  have kk: "0 < k" "k \<le> length data" "unat (data_next_size t) + k \<le> unat (smss t)"
    using lt d(1) by (auto simp: k word_less_nat_alt min_def)
  let ?bs = "take k data"
  have bl: "length ?bs = k" "?bs \<noteq> []" using kk by auto
  have uoff: "unat (of_nat off :: u64) = off"
    using kk(3) Q(2) by (intro unat_of_nat_small) (simp add: off_def data_off_def)
  have odd: "odd off \<longleftrightarrow> odd (unat (data_next_size t))" by (simp add: off_def data_off_def)
  obtain cs where cs: "copyAndSum (of_nat off) ?bs = Some (?bs, cs)"
    "unat (csum cs) mod 65535 = bsum (odd (unat (data_next_size t))) ?bs mod 65535" "unat (csum cs) \<le> length ?bs div 4 + 131070"
    using copyAndSum_val [of ?bs "of_nat off"] bl kk d(2) unfolding uoff odd by auto
  have csv: "CSum_of (csum cs) = cs" by (cases cs) (simp add: CSum_of_def)
  have bb: "getSendBuf cf t ?d c = Some b" "data_off cf t + unat (smss t) \<le> length (body b)"
    using ring_ok_buf [OF Q(1), of ?d] by (simp_all add: b_def buf_ready_def data_off_def)
  define nb where "nb = b\<lparr>body := take off (body b) @ ?bs @ drop (off + length ?bs) (body b)\<rparr>"
  have fits: "off + length ?bs \<le> length (body b)" using bb(2) kk(3) bl(1) by (simp add: off_def)
  define t1 where "t1 = t\<lparr>data_sum := CSum_add cs (data_sum t), data_next_size := data_next_size t + of_nat k\<rparr>"
  define c1 where "c1 = c\<lparr>send_bufs := (send_bufs c)[sbuf_idx cf t ?d := nb]\<rparr>"
  have A: "queue_inv cf p t1 c1" "unsent cf t1 c1 = unsent cf t c @ ?bs" "ring_seq cf t1 c1 = ring_seq cf t c"
    "unat (data_next_size t1) = unat (data_next_size t) + k"
    using queue_append [OF q ring_room(2) [OF q room] bl(2), of "csum cs"] kk(3) cs(2,3) bl(1)
    unfolding off_def [symmetric] b_def [symmetric] csv t1_def c1_def nb_def by simp_all
  have f1: "data_next t1 = ?d" "send_next t1 = send_next t" "send_una t1 = send_una t" "smss t1 = smss t"
    "both_wnd_seq t1 = both_wnd_seq t" "ring_view t1 = ring_view t" "fin_sent t1 = fin_sent t"
    by (simp_all add: t1_def ring_view_def)
  note v1 = chunk_view(3) [OF f1(6)]
  define can where "can \<longleftrightarrow> ?d = send_next t \<and> sle0 (ntohl (seq_num (tcp_hdr nb)) + data_next_size t1 - both_wnd_seq t)"
  have si: "sbuf_idx cf t1 ?d = sbuf_idx cf t ?d" by (simp add: sbuf_idx_def t1_def)
  have il: "sbuf_idx cf t ?d < length (send_bufs c)" by (rule ring_ok_index [OF Q(1)])
  have pb: "putSendBuf cf t1 ?d nb c = Some c1" using il by (simp add: putSendBuf_def si c1_def)
  have unf: "sendPartialLoop cf lst data sent (t, c) =
     Option.bind (if data_next_size t1 = smss t \<or> lst \<and> can then
         Option.bind (if can then Option.bind (sendBuf cf (data_next_size t1) (data_sum t1) ?d (t1, c1)) (advanceNext cf (data_next_size t1))
           else map_option (Pair t1) (putSendBuf cf t1 ?d (nb\<lparr>tcp_hdr := (tcp_hdr nb)\<lparr>ack_num := csum (data_sum t1)\<rparr>\<rparr>) c1))
         (\<lambda>(t, c). Some (advanceData t, c)) else Some (t1, c1))
       (sendPartialLoop cf lst (drop k data) (sent + k))"
  proof -
    have st: "store_bytes off ?bs (body b) = Some (take off (body b) @ ?bs @ drop (off + length ?bs) (body b))"
      using fits by (simp add: store_bytes_def)
    have o: "(if hasTs cf t then 12 else 0) + unat (data_next_size t) = off" by (simp add: off_def data_off_def)
    show ?thesis
      unfolding sendPartialLoop.simps [of cf lst data] prod.case
      using d(1) room
      by (simp only: if_False simp_thms bb(1) bind.simps Let_def k_def [symmetric] o cs(1) prod.case st t1_def [symmetric]
          nb_def [symmetric] f1 pb can_def [symmetric])
  qed
  have seqs: "ntohl (seq_num (tcp_hdr nb)) = ring_seq cf t c ?d" by (simp add: nb_def ring_seq_def b_def)
  have room1: "send_una t1 + ConnSendBufCnt cf - 1 \<noteq> data_next t1" using room by (simp add: f1)
  have sz: "data_next_size t1 \<le> smss t1" using A(1) by (simp add: queue_inv_def)
  consider (more) "\<not> (data_next_size t1 = smss t \<or> lst \<and> can)" | (send) "data_next_size t1 = smss t \<or> lst \<and> can" "can"
    | (close) "data_next_size t1 = smss t" "\<not> can" by blast
  then show ?thesis
  proof cases
    case more
    have "queue_step cf p (t, c) ?bs (t1, c1)"
      using A sz more f1 unfolding queue_step_def by (auto intro!: exI [of _ "[]"] simp: c1_def)
    then show ?thesis using kk unf more by (intro exI [of _ k] exI [of _ t1] exI [of _ c1]) simp
  next
    case send
    then have h: "data_next t1 = send_next t1" and win: "sle0 (ring_seq cf t c (send_next t) + data_next_size t1 - both_wnd_seq t)"
      using seqs by (auto simp: can_def f1)
    obtain t2 c2 f where s: "Option.bind (Option.bind (sendBuf cf (data_next_size t1) (data_sum t1) (data_next t1) (t1, c1))
      (advanceNext cf (data_next_size t1))) (\<lambda>(t, c). Some (advanceData t, c)) = Some (t2, c2)"
      "queue_inv cf p t2 c2" "unsent cf t2 c2 = []" "wire c2 = wire c1 @ [f]"
      "data_frame (data_off cf t1) p (ring_seq cf t1 c1 (send_next t1)) (unsent cf t1 c1) f"
      "ring_seq cf t2 c2 (send_next t2) = ring_seq cf t1 c1 (send_next t1) + of_nat (length (unsent cf t1 c1))"
      "ring_view t2 = ring_view t1" "both_wnd_seq t2 = both_wnd_seq t1" "send_una t2 = send_una t1" "data_next_size t2 = 0"
      "fin_sent t2 = fin_sent t1"
      using queue_send [OF A(1) room1 h] by blast
    have "waiting t1 = 0" using h by (simp add: waiting_def)
    then have ul: "of_nat (length (unsent cf t1 c1)) = data_next_size t1"
      using A(1) sz by (simp add: unsent_def chunk_length [of cf p] queue_inv_def word_le_nat_alt)
    have ord: "sent_in_order (data_off cf t) p (both_wnd_seq t) (ring_seq cf t c (send_next t)) [f] (unsent cf t1 c1)"
      using s(5) win ul by (intro sent_in_order_one) (simp_all add: v1 A(3) f1)
    have p0: "0 < smss t2" using s(2) by (simp add: queue_inv_def)
    have "queue_step cf p (t, c) ?bs (t2, c2)"
      using s A ord p0 f1 unfolding queue_step_def
      by (auto intro!: exI [of _ "[f]"] exI [of _ "unsent cf t1 c1"] simp: c1_def)
    then show ?thesis using kk unf send s(1) by (intro exI [of _ k] exI [of _ t2] exI [of _ c2]) (simp add: f1)
  next
    case close
    have full: "data_next_size t1 = smss t1" using close f1 by simp
    have nb1: "ring_buf cf t1 c1 (data_next t1) = nb" using il by (simp add: ring_buf_def f1 si c1_def)
    note C = queue_close [OF A(1) room1 full, unfolded nb1]
    let ?t2 = "advanceData t1"
    let ?c2 = "c1\<lparr>send_bufs := (send_bufs c1)[sbuf_idx cf t1 (data_next t1) := nb\<lparr>tcp_hdr := (tcp_hdr nb)\<lparr>ack_num := csum (data_sum t1)\<rparr>\<rparr>]\<rparr>"
    have p0: "0 < smss ?t2" "fin_sent ?t2 = fin_sent t1" using C by (simp_all add: queue_inv_def advanceData_def)
    have "queue_step cf p (t, c) ?bs (?t2, ?c2)"
      using C A p0 f1 unfolding queue_step_def by (auto intro!: exI [of _ "[]"] simp: c1_def)
    moreover have "putSendBuf cf t1 ?d (nb\<lparr>tcp_hdr := (tcp_hdr nb)\<lparr>ack_num := csum (data_sum t1)\<rparr>\<rparr>) c1 = Some ?c2"
      using il by (simp add: putSendBuf_def si f1 c1_def)
    ultimately show ?thesis using kk unf close by (intro exI [of _ k] exI [of _ ?t2] exI [of _ ?c2]) simp
  qed
qed

lemma sendPartialLoop_queue:
  assumes "queue_inv cf p t c" "data_next_size t < smss t" "length data < 2 ^ 32"
  shows "\<exists>n t' c'. sendPartialLoop cf lst data sent (t, c) = Some (of_nat (sent + n), t', c') \<and> n \<le> length data
    \<and> (n = length data \<or> send_una t + ConnSendBufCnt cf - 1 = data_next t') \<and> queue_step cf p (t, c) (take n data) (t', c')"
  using assms
proof (induction "length data" arbitrary: data sent t c rule: less_induct)
  case less
  show ?case
  proof (cases "data = [] \<or> send_una t + ConnSendBufCnt cf - 1 = data_next t")
    case True
    then have "sendPartialLoop cf lst data sent (t, c) = Some (of_nat (sent + 0), t, c)" by (simp add: sendPartialLoop.simps)
    then show ?thesis using True queue_step_refl [OF less.prems(1,2)] by (intro exI [of _ 0] exI [of _ t] exI [of _ c]) auto
  next
    case False
    then obtain k t1 c1 where k: "0 < k" "k \<le> length data" "queue_step cf p (t, c) (take k data) (t1, c1)"
      "sendPartialLoop cf lst data sent (t, c) = sendPartialLoop cf lst (drop k data) (sent + k) (t1, c1)"
      using sendPartial_iteration [OF less.prems(1,2), of data] less.prems(3) by blast
    have i1: "queue_inv cf p t1 c1" "data_next_size t1 < smss t1" "send_una t1 = send_una t"
      using k(3) by (auto simp: queue_step_def)
    have "length (drop k data) < length data" "length (drop k data) < 2 ^ 32" using k(1,2) less.prems(3) by auto
    from less.hyps [OF this(1) i1(1,2) this(2)] obtain n t' c' where n:
      "sendPartialLoop cf lst (drop k data) (sent + k) (t1, c1) = Some (of_nat (sent + k + n), t', c')" "n \<le> length (drop k data)"
      "n = length (drop k data) \<or> send_una t1 + ConnSendBufCnt cf - 1 = data_next t'"
      "queue_step cf p (t1, c1) (take n (drop k data)) (t', c')" by blast
    have "queue_step cf p (t, c) (take (k + n) data) (t', c')"
      using queue_step_trans [OF k(3) n(4)] by (simp only: take_add)
    then show ?thesis using k n i1 by (intro exI [of _ "k + n"] exI [of _ t'] exI [of _ c']) (auto simp: add.assoc)
  qed
qed

subsection \<open>Sending what the window allows\<close>

lemma queue_pop:
  fixes c :: "'a Core_scheme"
  assumes q: "queue_inv cf p t c" and w: "0 < waiting t"
  defines "b \<equiv> ring_buf cf t c (send_next t)"
  shows "\<exists>t' c' f. Option.bind (sendBuf cf (smss t) (CSum_of (ack_num (tcp_hdr b))) (send_next t) (t, c)) (advanceNext cf (smss t)) = Some (t', c')
    \<and> queue_inv cf p t' c' \<and> wire c' = wire c @ [f]
    \<and> data_frame (data_off cf t) p (ring_seq cf t c (send_next t)) (chunk cf t c (send_next t) (unat (smss t))) f
    \<and> unsent cf t c = chunk cf t c (send_next t) (unat (smss t)) @ unsent cf t' c'
    \<and> ring_seq cf t' c' (send_next t') = ring_seq cf t c (send_next t) + smss t
    \<and> waiting t' = waiting t - 1
    \<and> ring_view t' = ring_view t \<and> both_wnd_seq t' = both_wnd_seq t \<and> send_una t' = send_una t
    \<and> data_next_size t' = data_next_size t \<and> fin_sent t' = fin_sent t"
proof -
  let ?n = "unat (smss t)" and ?s = "send_next t"
  have Q: "ring_ok cf p t c" "0 < smss t" "?n \<le> 1460" "unat (data_next t - send_una t) < ring_size cf"
    "unat (?s - send_una t) + waiting t = unat (data_next t - send_una t)" "data_next_size t \<le> smss t"
    "data_next_size t = 0 \<or> unat (data_next t - send_una t) + 1 < ring_size cf"
    "sums_to (data_sum t) (chunk cf t c (data_next t) (unat (data_next_size t)))"
    "\<forall>k < waiting t. sums_to (CSum_of (ack_num (tcp_hdr (ring_buf cf t c (?s + of_nat k))))) (chunk cf t c (?s + of_nat k) ?n)"
    using q by (simp_all add: queue_inv_def)
  have s0: "sums_to (CSum_of (ack_num (tcp_hdr b))) (chunk cf t c ?s ?n)" using Q(9) w by (force simp: b_def)
  have dv: "ring_size cf dvd 2 ^ 32" "1 < ring_size cf" using Q(1) by (simp_all add: ring_ok_def)
  have ne: "sbuf_idx cf t ?s \<noteq> sbuf_idx cf t (?s + 1)" using dv by (intro sbuf_idx_distinct) simp_all
  obtain t1 c1 f where e: "Option.bind (sendBuf cf (of_nat ?n) (CSum_of (ack_num (tcp_hdr b))) ?s (t, c)) (advanceNext cf (smss t)) = Some (t1, c1)"
    "t1 = t\<lparr>pending_ack := False, last_ack_seq := recv_buf_seq t + seg_second t, send_next := ?s + 1\<rparr>"
    "wire c1 = wire c @ [f]" "data_frame (data_off cf t) p (ring_seq cf t c ?s) (chunk cf t c ?s ?n) f"
    "ring_ok cf p t1 c1" "ring_seq cf t1 c1 (?s + 1) = ring_seq cf t c ?s + smss t"
    "\<forall>j. sbuf_idx cf t j \<noteq> sbuf_idx cf t ?s \<longrightarrow> body (ring_buf cf t1 c1 j) = body (ring_buf cf t c j)
         \<and> ack_num (tcp_hdr (ring_buf cf t1 c1 j)) = ack_num (tcp_hdr (ring_buf cf t c j))"
    using emit_head [OF Q(1) s0 order_refl Q(3) ne, of "smss t"] by blast
  have v: "ring_view t1 = ring_view t" by (simp add: ring_view_def e(2))
  have f1: "send_next t1 = ?s + 1" "data_next t1 = data_next t" "send_una t1 = send_una t" "data_next_size t1 = data_next_size t"
    "data_sum t1 = data_sum t" "smss t1 = smss t" "both_wnd_seq t1 = both_wnd_seq t" "fin_sent t1 = fin_sent t" by (simp_all add: e(2))
  have wn: "waiting t < 4294967296" by (simp add: waiting_def)
  have w1: "waiting t1 = waiting t - 1"
  proof -
    have x: "data_next t - (?s + 1) = (data_next t - ?s) - 1" by simp
    have "data_next t - ?s \<noteq> 0" using w by (auto simp: waiting_def)
    then show ?thesis unfolding waiting_def f1 x by (rule unat_minus_one)
  qed
  have a1: "unat (?s + 1 - send_una t) = unat (?s - send_una t) + 1"
  proof -
    have x: "?s + 1 - send_una t = (?s - send_una t) + 1" by simp
    have "unat (?s - send_una t) + unat (1 :: u32) < 4294967296" using Q(4,5) w unat_lt_u32 [of "ConnSendBufCnt cf"] unfolding unat_1 by linarith
    then show ?thesis unfolding x by (simp add: unat_add_u32_nowrap)
  qed
  have dis: "sbuf_idx cf t (?s + of_nat j) \<noteq> sbuf_idx cf t ?s" if "0 < j" "j \<le> waiting t" for j
  proof -
    have uj: "unat (of_nat j :: u32) = j" using that wn by (intro unat_of_nat_small) simp
    have "sbuf_idx cf t ?s \<noteq> sbuf_idx cf t (?s + of_nat j)"
    proof (rule sbuf_idx_distinct [OF dv(1)])
      show "?s \<noteq> ?s + of_nat j" using uj that(1) by auto
      show "unat (?s + of_nat j - ?s) < ring_size cf" using uj that(2) Q(4,5) by simp
    qed
    then show ?thesis by simp
  qed
  have ix: "?s + 1 + of_nat k = ?s + of_nat (k + 1)" for k by (simp add: add.assoc)
  have lst: "?s + of_nat (waiting t) = data_next t" by (simp add: waiting_def)
  have same: "ack_num (tcp_hdr (ring_buf cf t c1 (?s + of_nat j))) = ack_num (tcp_hdr (ring_buf cf t c (?s + of_nat j)))"
    "chunk cf t c1 (?s + of_nat j) n = chunk cf t c (?s + of_nat j) n" if "0 < j" "j \<le> waiting t" for j n
    using e(7) dis [OF that] by (simp_all add: ring_view_cong(6) [OF v] chunk_def)
  have sameD: "chunk cf t c1 (data_next t) n = chunk cf t c (data_next t) n" for n
    using same(2) [OF w order_refl] by (simp add: lst)
  have sums: "sums_to (CSum_of (ack_num (tcp_hdr (ring_buf cf t c1 (?s + of_nat (k + 1)))))) (chunk cf t c1 (?s + of_nat (k + 1)) ?n)"
    if "k < waiting t - 1" for k
    using Q(9) same [of "k + 1"] that by (simp del: of_nat_add of_nat_Suc)
  have "queue_inv cf p t1 c1"
    unfolding queue_inv_def f1 w1 a1 ix chunk_view [OF v] ring_view_cong(6) [OF v] sameD
    using e(5) Q(2-8) w sums by (simp del: of_nat_add of_nat_Suc)
  moreover have "unsent cf t c = chunk cf t c ?s ?n @ unsent cf t1 c1"
  proof -
    have u: "[0..<waiting t] = 0 # map Suc [0..<waiting t - 1]" using w by (simp add: upt_conv_Cons map_Suc_upt)
    have m: "map (\<lambda>k. chunk cf t c1 (?s + of_nat (k + 1)) ?n) [0..<waiting t - 1]
        = map (\<lambda>k. chunk cf t c (?s + of_nat (k + 1)) ?n) [0..<waiting t - 1]"
      using same(2) by (intro map_cong) (simp_all del: of_nat_add of_nat_Suc)
    have "map (\<lambda>k. chunk cf t c (?s + of_nat k) ?n) [0..<waiting t]
        = chunk cf t c ?s ?n # map (\<lambda>k. chunk cf t c (?s + of_nat (k + 1)) ?n) [0..<waiting t - 1]"
      unfolding u by (simp add: o_def)
    then show ?thesis unfolding unsent_def f1 w1 ix chunk_view [OF v] sameD m by (simp only: concat.simps append_assoc)
  qed
  ultimately show ?thesis using e f1 v w1 by (intro exI [of _ t1] exI [of _ c1] exI [of _ f]) simp
qed

lemma advanceNext_advanceData:
  "Option.bind (Option.bind x (\<lambda>(t, c). Some (advanceData t, c))) (advanceNext cf n)
    = Option.bind (Option.bind x (advanceNext cf n)) (\<lambda>(t, c). Some (advanceData t, c))"
proof (cases x)
  case (Some s)
  obtain t c where s: "s = (t, c)" by (cases s)
  have i: "sbuf_idx cf (t\<lparr>data_next := a, data_sum := b, data_next_size := d, send_next := e\<rparr>) j = sbuf_idx cf t j"
    "sbuf_idx cf (t\<lparr>data_next := a, data_sum := b, data_next_size := d\<rparr>) j = sbuf_idx cf t j"
    "sbuf_idx cf (t\<lparr>send_next := e\<rparr>) j = sbuf_idx cf t j" for a b d e j by (simp_all add: sbuf_idx_def)
  have ct: "ctimer (t\<lparr>data_next := a, data_sum := b, data_next_size := d\<rparr>) k = ctimer t k" for a b d k by (simp add: ctimer_def)
  show ?thesis
    by (simp add: Some s advanceNext_def advanceData_def getSendBuf_def putSendBuf_def startResendTimer_def Let_def i ct
        split: option.splits Option.bind_splits)
qed simp

lemma room_of:
  assumes "queue_inv cf p t c" "data_next_size t \<noteq> 0"
  shows "send_una t + ConnSendBufCnt cf - 1 \<noteq> data_next t"
proof
  assume a: "send_una t + ConnSendBufCnt cf - 1 = data_next t"
  have q: "unat (data_next t - send_una t) + 1 < ring_size cf" using assms by (simp add: queue_inv_def)
  have "data_next t - send_una t = ConnSendBufCnt cf - 1" unfolding a [symmetric] by simp
  moreover have "unat (ConnSendBufCnt cf - 1) = ring_size cf - 1" using q by (subst unat_sub) (simp_all add: word_le_nat_alt)
  ultimately show False using q by simp
qed

lemma sendUnsent_queue:
  fixes c :: "'a Core_scheme"
  assumes "queue_inv cf p t c" "data_next_size t < smss t" "\<not> fin_sent t"
  shows "\<exists>t' c'. sendUnsent cf (t, c) = Some (t', c') \<and> queue_step cf p (t, c) [] (t', c') \<and> \<not> fin_sent t'
    \<and> (unsent cf t' c' = []
       \<or> sint (ring_seq cf t' c' (send_next t') + (if data_next t' = send_next t' then data_next_size t' else smss t') - both_wnd_seq t') > 0)"
  using assms
proof (induction "2 * waiting t + (if data_next_size t = 0 then 0 else 1)" arbitrary: t c rule: less_induct)
  case less
  let ?sz = "if data_next t = send_next t then data_next_size t else smss t"
  let ?win = "ntohl (seq_num (tcp_hdr (ring_buf cf t c (send_next t)))) + ?sz - both_wnd_seq t"
  have Q: "ring_ok cf p t c" "0 < smss t" using less.prems(1) by (simp_all add: queue_inv_def)
  have wt: "data_next t = send_next t \<longleftrightarrow> waiting t = 0" by (auto simp: waiting_def unat_eq_zero)
  note gb = ring_ok_buf(1) [OF Q(1), of "send_next t"]
  consider (stop) "?sz = 0 \<or> sint ?win > 0" | (head) "?sz \<noteq> 0" "sint ?win \<le> 0" "waiting t \<noteq> 0"
    | (tail) "?sz \<noteq> 0" "sint ?win \<le> 0" "waiting t = 0" by linarith
  then show ?case
  proof cases
    case stop
    have "sendUnsent cf (t, c) = Some (t, c)"
      using stop gb by (subst sendUnsent.simps) (auto simp: Let_def)
    moreover have "unsent cf t c = [] \<or> sint (ring_seq cf t c (send_next t) + ?sz - both_wnd_seq t) > 0"
      using stop Q(2) wt by (auto simp: ring_seq_def unsent_def chunk_def split: if_splits)
    ultimately show ?thesis using queue_step_refl [OF less.prems(1,2)] less.prems(3) by blast
  next
    case head
    then have ne: "data_next t \<noteq> send_next t" using wt by simp
    obtain t1 c1 f where s: "Option.bind (sendBuf cf (smss t) (CSum_of (ack_num (tcp_hdr (ring_buf cf t c (send_next t))))) (send_next t) (t, c))
        (advanceNext cf (smss t)) = Some (t1, c1)" "queue_inv cf p t1 c1" "wire c1 = wire c @ [f]"
      "data_frame (data_off cf t) p (ring_seq cf t c (send_next t)) (chunk cf t c (send_next t) (unat (smss t))) f"
      "unsent cf t c = chunk cf t c (send_next t) (unat (smss t)) @ unsent cf t1 c1"
      "ring_seq cf t1 c1 (send_next t1) = ring_seq cf t c (send_next t) + smss t" "waiting t1 = waiting t - 1"
      "ring_view t1 = ring_view t" "both_wnd_seq t1 = both_wnd_seq t" "send_una t1 = send_una t"
      "data_next_size t1 = data_next_size t" "fin_sent t1 = fin_sent t"
      using queue_pop [OF less.prems(1)] head by blast
    have sm: "smss t1 = smss t" using s(8) by (rule ring_view_cong)
    have l: "length (chunk cf t c (send_next t) (unat (smss t))) = unat (smss t)" by (rule chunk_length [OF Q(1) order_refl])
    have "sent_in_order (data_off cf t) p (both_wnd_seq t) (ring_seq cf t c (send_next t)) [f] (chunk cf t c (send_next t) (unat (smss t)))"
      using s(4) head(2) ne l by (intro sent_in_order_one) (simp_all add: ring_seq_def)
    then have st: "queue_step cf p (t, c) [] (t1, c1)"
      using s l sm less.prems(2) unfolding queue_step_def by (auto intro!: exI [of _ "[f]"])
    have m: "2 * waiting t1 + (if data_next_size t1 = 0 then 0 else 1) < 2 * waiting t + (if data_next_size t = 0 then 0 else 1)"
      using head(3) s(7,11) by auto
    have run: "sendUnsent cf (t, c) = sendUnsent cf (t1, c1)"
      using head(1,2) ne gb s(1) by (subst sendUnsent.simps) (auto simp: Let_def simp flip: Option.bind_assoc)
    show ?thesis
      using less.hyps [OF m s(2)] less.prems(2,3) s(11,12) sm queue_step_trans [OF st, of "[]"] unfolding run by fastforce
  next
    case tail
    then have h: "data_next t = send_next t" and sz: "data_next_size t \<noteq> 0" using wt by (auto split: if_splits)
    obtain t1 c1 f where s: "Option.bind (Option.bind (sendBuf cf (data_next_size t) (data_sum t) (data_next t) (t, c))
      (advanceNext cf (data_next_size t))) (\<lambda>(t, c). Some (advanceData t, c)) = Some (t1, c1)"
      "queue_inv cf p t1 c1" "unsent cf t1 c1 = []" "wire c1 = wire c @ [f]"
      "data_frame (data_off cf t) p (ring_seq cf t c (send_next t)) (unsent cf t c) f"
      "ring_seq cf t1 c1 (send_next t1) = ring_seq cf t c (send_next t) + of_nat (length (unsent cf t c))"
      "ring_view t1 = ring_view t" "both_wnd_seq t1 = both_wnd_seq t" "send_una t1 = send_una t" "data_next_size t1 = 0"
      "fin_sent t1 = fin_sent t" "waiting t1 = 0"
      using queue_send [OF less.prems(1) room_of [OF less.prems(1) sz] h] by blast
    have l: "of_nat (length (unsent cf t c)) = data_next_size t"
      using h wt less.prems(2) by (simp add: unsent_def chunk_length [OF Q(1)] word_less_nat_alt)
    have sm: "0 < smss t1" using s(2) by (simp add: queue_inv_def)
    have "sent_in_order (data_off cf t) p (both_wnd_seq t) (ring_seq cf t c (send_next t)) [f] (unsent cf t c)"
      using s(5) tail(2) h l by (intro sent_in_order_one) (simp_all add: ring_seq_def)
    then have st: "queue_step cf p (t, c) [] (t1, c1)"
      using s sm unfolding queue_step_def by (auto intro!: exI [of _ "[f]"] exI [of _ "unsent cf t c"])
    have m: "2 * waiting t1 + (if data_next_size t1 = 0 then 0 else 1) < 2 * waiting t + (if data_next_size t = 0 then 0 else 1)"
      using sz s(10,12) by simp
    have run: "sendUnsent cf (t, c) = sendUnsent cf (t1, c1)"
    proof -
      let ?b = "ring_buf cf t c (send_next t)"
      have nf: "\<not> flag_fin (tcp_hdr ?b)" using ring_ok_buf(2) [OF Q(1)] by (simp add: buf_ready_def)
      have "set_fin False (tcp_hdr ?b) = tcp_hdr ?b"
        using nf by (cases "tcp_hdr ?b") (auto simp: set_fin_def put_bit_iff intro!: bit_word_eqI split: if_splits)
      then have "putSendBuf cf t (send_next t) (?b\<lparr>tcp_hdr := set_fin (fin_sent t) (tcp_hdr ?b)\<rparr>) c = Some c"
        using less.prems(3) ring_ok_index [OF Q(1), of "send_next t"]
        by (simp add: putSendBuf_def ring_buf_def)
      then show ?thesis
        using tail(1,2) h gb s(1) less.prems(3)
        by (subst sendUnsent.simps)
          (auto simp: Let_def advanceNext_advanceData [symmetric] simp flip: Option.bind_assoc)
    qed
    show ?thesis
      using less.hyps [OF m s(2)] less.prems(3) s(10,11) sm queue_step_trans [OF st, of "[]"] unfolding run by fastforce
  qed
qed

subsection \<open>Gathered writes\<close>

lemma sendPartial_full:
  "send_una t + ConnSendBufCnt cf - 1 = data_next t \<Longrightarrow> sendPartial cf data lst (t, c) = Some (0, t, c)"
  by (simp add: sendPartial_def sendPartialLoop.simps)

lemma sendvLoop_full:
  "send_una t + ConnSendBufCnt cf - 1 = data_next t \<Longrightarrow> sendvLoop cf iov tot (t, c) = Some (tot, t, c)"
  by (induction iov) (simp_all add: sendPartial_full)

text \<open>
  The pieces of a gathered write are taken one after the other: once the ring is full, nothing of
  a later piece is taken, so that what is taken is a prefix of the whole.
\<close>

lemma sendvLoop_queue:
  assumes "queue_inv cf p t c" "data_next_size t < smss t" "length (concat iov) < 2 ^ 32"
  shows "\<exists>n t' c'. sendvLoop cf iov tot (t, c) = Some (tot + of_nat n, t', c') \<and> n \<le> length (concat iov)
    \<and> (n = length (concat iov) \<or> send_una t + ConnSendBufCnt cf - 1 = data_next t')
    \<and> queue_step cf p (t, c) (take n (concat iov)) (t', c')"
  using assms
proof (induction iov arbitrary: tot t c)
  case Nil
  then show ?case using queue_step_refl [OF Nil(1,2)] by (intro exI [of _ 0] exI [of _ t] exI [of _ c]) simp
next
  case (Cons d ds)
  obtain n t1 c1 where n: "sendPartial cf d (ds = []) (t, c) = Some (of_nat n, t1, c1)" "n \<le> length d"
    "n = length d \<or> send_una t + ConnSendBufCnt cf - 1 = data_next t1" "queue_step cf p (t, c) (take n d) (t1, c1)"
    using sendPartialLoop_queue [OF Cons.prems(1,2), of d "ds = []" 0] Cons.prems(3) by (auto simp: sendPartial_def)
  have i1: "queue_inv cf p t1 c1" "data_next_size t1 < smss t1" "send_una t1 = send_una t"
    using n(4) by (auto simp: queue_step_def)
  show ?case
  proof (cases "n = length d")
    case True
    obtain m t' c' where m: "sendvLoop cf ds (tot + of_nat n) (t1, c1) = Some (tot + of_nat n + of_nat m, t', c')" "m \<le> length (concat ds)"
      "m = length (concat ds) \<or> send_una t1 + ConnSendBufCnt cf - 1 = data_next t'"
      "queue_step cf p (t1, c1) (take m (concat ds)) (t', c')"
      using Cons.IH [OF i1(1,2), of "tot + of_nat n"] Cons.prems(3) by auto
    have "queue_step cf p (t, c) (take (n + m) (d @ concat ds)) (t', c')"
      using queue_step_trans [OF n(4) m(4)] True by simp
    then show ?thesis using n(1) m i1(3) True by (intro exI [of _ "n + m"] exI [of _ t'] exI [of _ c']) (auto simp: add.assoc)
  next
    case False
    then have full: "send_una t1 + ConnSendBufCnt cf - 1 = data_next t1" using n(3) i1(3) by simp
    then show ?thesis using n sendvLoop_full [OF full] i1(3) by (intro exI [of _ n] exI [of _ t1] exI [of _ c1]) simp
  qed
qed

subsection \<open>Properties\<close>

text \<open>An established connection with a ring of two buffers, and two bytes that wait in the first.\<close>

definition ring_cf :: Conf where
  "ring_cf = two_cf\<lparr>SendBuf1K := True, ConnSendBufCnt := 2, TimestampOption := False\<rparr>"

definition ring_conn :: TcpConn where
  "ring_conn = zero_conn\<lparr>data_next_size := 2, smss := 4, both_wnd_seq := 4, tcpsum := CSum_of 0x600\<rparr>"

definition ring_peer :: "u8 list \<times> u32 \<times> u32 \<times> u16 \<times> u16" where
  "ring_peer = (replicate 6 0, 0, 0, 0, 0)"

lemma ring_conn_queue: "queue_inv ring_cf ring_peer ring_conn zero_core" "data_next_size ring_conn < smss ring_conn" "\<not> fin_sent ring_conn"
proof -
  have n: "ConnSendBufCnt ring_cf = 2" "\<not> hasTs ring_cf ring_conn" by (simp_all add: ring_cf_def hasTs_def)
  have f: "tcpsum ring_conn = CSum_of 0x600" "ipsum ring_conn = CSum_of 0" "smss ring_conn = 4" "tc_base ring_conn = 0"
    by (simp_all add: ring_conn_def zero_conn_def)
  have ip: "words_sum (ip_words ((ip_hdr zero_buf)\<lparr>tot_len := 0, ip_checksum := 0\<rparr>)) = 0"
    by (simp add: ip_words_def zero_buf_def words_sum_def halves_def)
  have b: "buf_ready ring_cf ring_conn zero_buf" "peer_of zero_buf = ring_peer"
    unfolding buf_ready_def ip_covers_def ip
    by (simp_all add: n f hdr_sum_def zero_buf_def u32_sum_def peer_of_def ring_peer_def CSum_of_def htons_def)
  have "ring_ok ring_cf ring_peer ring_conn zero_core"
    unfolding ring_ok_def zero_core_parts n using b
    by (auto simp: f less_2_cases_iff CSum_of_def)
  moreover have "chunk ring_cf ring_conn zero_core 0 2 = [0, 0]"
    by (simp add: chunk_def ring_buf_def sbuf_idx_def zero_core_parts data_off_def n ring_conn_def zero_conn_def zero_buf_def numeral_2_eq_2)
  ultimately show "queue_inv ring_cf ring_peer ring_conn zero_core"
    unfolding queue_inv_def n by (simp add: ring_conn_def zero_conn_def waiting_def sums_to_def)
qed (simp_all add: ring_conn_def zero_conn_def)

text \<open>
  C10: \<^verbatim>\<open>TcpConn::send\<close> (\<^verbatim>\<open>sendPartial\<close>). On an established connection it returns the number of
  bytes it took, all of them unless the ring of send buffers is full. What it puts on the wire are
  valid frames to the peer that carry, in order, without gaps and never beyond the send window, a
  prefix of the bytes that waited followed by the bytes taken; the rest waits, and the sequence
  number of the next frame continues where the frames end. After a FIN it takes nothing.
\<close>

theorem conn_send_queue:
  assumes "queue_inv cf p t c" "data_next_size t < smss t" "length data < 2 ^ 32"
  shows "if fin_sent t then conn_send cf data more_data (t, c) = Some (0, t, c)
    else \<exists>n t' c' fs xs. conn_send cf data more_data (t, c) = Some (of_nat n, t', c') \<and> n \<le> length data
      \<and> (n = length data \<or> send_una t + ConnSendBufCnt cf - 1 = data_next t')
      \<and> queue_inv cf p t' c' \<and> data_next_size t' < smss t' \<and> wire c' = wire c @ fs
      \<and> unsent cf t c @ take n data = xs @ unsent cf t' c'
      \<and> sent_in_order (data_off cf t) p (both_wnd_seq t) (ring_seq cf t c (send_next t)) fs xs
      \<and> ring_seq cf t' c' (send_next t') = ring_seq cf t c (send_next t) + of_nat (length xs)"
proof -
  obtain n t' c' where "sendPartialLoop cf (\<not> more_data) data 0 (t, c) = Some (of_nat n, t', c')" "n \<le> length data"
    "n = length data \<or> send_una t + ConnSendBufCnt cf - 1 = data_next t'" "queue_step cf p (t, c) (take n data) (t', c')"
    using sendPartialLoop_queue [OF assms, of "\<not> more_data" 0] by auto
  then show ?thesis by (auto simp: conn_send_def sendPartial_def queue_step_def)
qed

theorem conn_send_queue_witness:
  "\<exists>n t' c' fs xs. conn_send ring_cf [1, 2, 3, 4, 5, 6] False (ring_conn, zero_core) = Some (of_nat n, t', c') \<and> n \<le> 6
    \<and> wire c' = wire zero_core @ fs \<and> unsent ring_cf ring_conn zero_core @ take n [1, 2, 3, 4, 5, 6] = xs @ unsent ring_cf t' c'
    \<and> sent_in_order 0 ring_peer 4 0 fs xs"
proof -
  have v: "data_off ring_cf ring_conn = 0" "both_wnd_seq ring_conn = 4" "ring_seq ring_cf ring_conn zero_core (send_next ring_conn) = 0"
    by (simp_all add: data_off_def hasTs_def ring_cf_def ring_conn_def zero_conn_def ring_seq_def ring_buf_def sbuf_idx_def
        zero_core_parts zero_buf_def htonl_def)
  show ?thesis
    using conn_send_queue [OF ring_conn_queue(1,2), of "[1, 2, 3, 4, 5, 6]" False] ring_conn_queue(3)
    unfolding v by fastforce
qed

text \<open>
  \<^verbatim>\<open>TcpConn::sendv\<close>. The bytes taken from a gathered write are a prefix of the concatenation
  of its pieces, as if it had been written at once: never the start of a piece after a piece that
  was cut short.
\<close>

theorem conn_sendv_queue:
  assumes "queue_inv cf p t c" "data_next_size t < smss t" "\<not> fin_sent t" "length (concat iov) < 2 ^ 32"
  shows "\<exists>n t' c' fs xs. conn_sendv cf iov (t, c) = Some (of_nat n, t', c') \<and> n \<le> length (concat iov)
      \<and> (n = length (concat iov) \<or> send_una t + ConnSendBufCnt cf - 1 = data_next t')
      \<and> queue_inv cf p t' c' \<and> wire c' = wire c @ fs
      \<and> unsent cf t c @ take n (concat iov) = xs @ unsent cf t' c'
      \<and> sent_in_order (data_off cf t) p (both_wnd_seq t) (ring_seq cf t c (send_next t)) fs xs"
proof -
  obtain n t' c' where "sendvLoop cf iov 0 (t, c) = Some (of_nat n, t', c')" "n \<le> length (concat iov)"
    "n = length (concat iov) \<or> send_una t + ConnSendBufCnt cf - 1 = data_next t'"
    "queue_step cf p (t, c) (take n (concat iov)) (t', c')"
    using sendvLoop_queue [OF assms(1,2,4), of 0] by auto
  then show ?thesis using assms(3) unfolding conn_sendv_def queue_step_def prod.case fst_conv by (simp only: if_False) blast
qed

theorem conn_sendv_queue_witness:
  "\<exists>n t' c'. conn_sendv ring_cf [[1, 2, 3], [], [4, 5, 6]] (ring_conn, zero_core) = Some (of_nat n, t', c') \<and> n \<le> 6
    \<and> (n = 6 \<or> send_una ring_conn + ConnSendBufCnt ring_cf - 1 = data_next t') \<and> queue_inv ring_cf ring_peer t' c'"
  using conn_sendv_queue [OF ring_conn_queue, of "[[1, 2, 3], [], [4, 5, 6]]"] by fastforce

text \<open>
  C11: the sending loop of \<^verbatim>\<open>TcpConn::onPack\<close>. It ends, and when it ends either every waiting byte
  has been sent or the next frame would pass the end of the send window; the frames it sends carry
  a prefix of the waiting bytes in order and the rest still waits.
\<close>

theorem sendUnsent_drains:
  assumes "queue_inv cf p t c" "data_next_size t < smss t" "\<not> fin_sent t"
  shows "\<exists>t' c' fs xs. sendUnsent cf (t, c) = Some (t', c') \<and> queue_inv cf p t' c' \<and> wire c' = wire c @ fs
    \<and> unsent cf t c = xs @ unsent cf t' c'
    \<and> sent_in_order (data_off cf t) p (both_wnd_seq t) (ring_seq cf t c (send_next t)) fs xs
    \<and> (unsent cf t' c' = []
       \<or> sint (ring_seq cf t' c' (send_next t') + (if data_next t' = send_next t' then data_next_size t' else smss t') - both_wnd_seq t') > 0)"
proof -
  obtain t' c' where u: "sendUnsent cf (t, c) = Some (t', c')" "queue_step cf p (t, c) [] (t', c')"
    "unsent cf t' c' = []
       \<or> sint (ring_seq cf t' c' (send_next t') + (if data_next t' = send_next t' then data_next_size t' else smss t') - both_wnd_seq t') > 0"
    using sendUnsent_queue [OF assms] by blast
  from u(2) obtain fs xs where "queue_inv cf p t' c'" "wire c' = wire c @ fs" "unsent cf t c = xs @ unsent cf t' c'"
    "sent_in_order (data_off cf t) p (both_wnd_seq t) (ring_seq cf t c (send_next t)) fs xs"
    by (auto simp: queue_step_def)
  with u(1,3) show ?thesis by blast
qed

theorem sendUnsent_drains_witness:
  "\<exists>t' c' fs xs. sendUnsent ring_cf (ring_conn, zero_core) = Some (t', c') \<and> wire c' = wire zero_core @ fs
    \<and> unsent ring_cf ring_conn zero_core = xs @ unsent ring_cf t' c'
    \<and> sent_in_order (data_off ring_cf ring_conn) ring_peer 4 (ring_seq ring_cf ring_conn zero_core 0) fs xs"
proof -
  have "both_wnd_seq ring_conn = 4" "send_next ring_conn = 0" by (simp_all add: ring_conn_def zero_conn_def)
  then show ?thesis using sendUnsent_drains [OF ring_conn_queue] by metis
qed

end
