(* ===== verification/Established.thy ===== *)
theory Established
  imports SendQueue
begin

text \<open>
  The handshake makes a connection ready to send: when \<^verbatim>\<open>onEstablished\<close> has copied the headers of
  the SYN to the other buffers of the ring, the cached sums cover every buffer and the queue is
  empty.
\<close>

subsection \<open>Copying the headers\<close>

definition same_ip :: "SendBuf \<Rightarrow> SendBuf \<Rightarrow> bool" where
  "same_ip a b \<longleftrightarrow> (ip_hdr a)\<lparr>dst_ip := 0, tot_len := 0, ip_checksum := 0\<rparr> = (ip_hdr b)\<lparr>dst_ip := 0, tot_len := 0, ip_checksum := 0\<rparr>"

text \<open>A buffer as \<^verbatim>\<open>Core::init\<close> and earlier connections leave it: only the addresses are missing.\<close>

definition buf_shell :: "Conf \<Rightarrow> TcpConn \<Rightarrow> SendBuf \<Rightarrow> SendBuf \<Rightarrow> bool" where
  "buf_shell cf t syn b \<longleftrightarrow> same_ip b syn \<and> urgent_pointer (tcp_hdr b) = urgent_pointer (tcp_hdr syn)
     \<and> 32 \<le> length (body b) \<and> data_off cf t + unat (smss t) \<le> length (body b) \<and> length (body b) \<le> 65000"

lemma ip_covers_same:
  assumes "ip_covers t syn" "same_ip b syn" "dst_ip (ip_hdr b) = dst_ip (ip_hdr syn)"
  shows "ip_covers t b"
proof -
  have "(ip_hdr b)\<lparr>tot_len := 0, ip_checksum := 0\<rparr> = (ip_hdr syn)\<lparr>tot_len := 0, ip_checksum := 0\<rparr>"
    using assms(2,3) unfolding same_ip_def by (cases "ip_hdr b"; cases "ip_hdr syn") simp
  then show ?thesis using assms(1) by (simp add: ip_covers_def)
qed

lemma copyHeader_ready:
  assumes "buf_ready cf t syn" "buf_shell cf t syn b" "32 \<le> length (body syn)"
  shows "\<exists>b'. copyHeader cf t syn b = Some b' \<and> buf_ready cf t b' \<and> peer_of b' = peer_of syn
    \<and> seq_num (tcp_hdr b') = seq_num (tcp_hdr b)"
proof -
  define mem where "mem = (if hasTs cf t then take 4 (body syn) @ drop 4 (body b) else body b)"
  let ?b = "b\<lparr>eth_hdr := (eth_hdr b)\<lparr>dst_mac := dst_mac (eth_hdr syn)\<rparr>,
     ip_hdr := (ip_hdr b)\<lparr>dst_ip := dst_ip (ip_hdr syn)\<rparr>,
     tcp_hdr := (tcp_hdr b)\<lparr>src_port := src_port (tcp_hdr syn), dst_port := dst_port (tcp_hdr syn),
       offset_flags := offset_flags (tcp_hdr syn)\<rparr>, body := mem\<rparr>"
  have len: "32 \<le> length (body syn)" "32 \<le> length (body b)"
    using assms by (auto simp: buf_shell_def)
  have si: "src_ip (ip_hdr b) = src_ip (ip_hdr syn)"
    using assms(2) by (auto simp: buf_shell_def same_ip_def dest: arg_cong [where f = src_ip])
  have "same_ip ?b syn" using assms(2) by (simp add: buf_shell_def same_ip_def)
  with assms(1) have ip: "ip_covers t ?b" by (auto simp: buf_ready_def elim: ip_covers_same)
  have m: "length mem = length (body b)" "hasTs cf t \<Longrightarrow> take 4 mem = take 4 (body syn)" using len by (auto simp: mem_def)
  have "hdr_sum cf t ?b = hdr_sum cf t syn" using assms(2) m(2) si by (simp add: hdr_sum_def buf_shell_def)
  moreover have "copyHeader cf t syn b = Some ?b"
    using len by (simp add: copyHeader_def load_bytes_def store_bytes_def mem_def Let_def min_absorb2)
  ultimately show ?thesis
    using assms ip m si len by (intro exI [of _ ?b]) (auto simp: buf_ready_def buf_shell_def peer_of_def data_off_def)
qed

text \<open>The loop: the buffers \<open>i\<close> to \<open>N - 1\<close> of the ring become ready, the others stay.\<close>

lemma copyHeaders_ready:
  assumes "buf_ready cf t syn" "N = ring_size cf" "32 \<le> length (body syn)" "tc_base t + N \<le> length (send_bufs c)" "i \<le> N"
    and "\<forall>k. i \<le> k \<and> k < N \<longrightarrow> buf_shell cf t syn (send_bufs c ! (tc_base t + k))"
  shows "\<exists>bs. copyHeaders cf t syn (map of_nat [i..<N]) c = Some (c\<lparr>send_bufs := bs\<rparr>) \<and> length bs = length (send_bufs c)
    \<and> (\<forall>k. i \<le> k \<and> k < N \<longrightarrow> buf_ready cf t (bs ! (tc_base t + k)) \<and> peer_of (bs ! (tc_base t + k)) = peer_of syn
         \<and> seq_num (tcp_hdr (bs ! (tc_base t + k))) = seq_num (tcp_hdr (send_bufs c ! (tc_base t + k))))
    \<and> (\<forall>j. j < tc_base t + i \<or> tc_base t + N \<le> j \<longrightarrow> bs ! j = send_bufs c ! j)"
  using assms(4-6)
proof (induction "N - i" arbitrary: i c)
  case 0
  then show ?case by (intro exI [of _ "send_bufs c"]) auto
next
  case (Suc d)
  then have i: "i < N" by simp
  let ?j = "tc_base t + i"
  obtain b where b: "copyHeader cf t syn (send_bufs c ! ?j) = Some b" "buf_ready cf t b" "peer_of b = peer_of syn"
    "seq_num (tcp_hdr b) = seq_num (tcp_hdr (send_bufs c ! ?j))"
    using copyHeader_ready [OF assms(1)] Suc.prems(3) assms(3) i by blast
  have "unat (of_nat i :: u32) = i" using less_trans [OF i [unfolded assms(2)] unat_lt_u32] by (intro unat_of_nat_small) simp
  then have ix: "sbuf_idx cf t (of_nat i) = ?j" using i assms(2) by (simp add: sbuf_idx_nat)
  have jl: "?j < length (send_bufs c)" using Suc.prems(1) i by simp
  let ?c = "c\<lparr>send_bufs := (send_bufs c)[?j := b]\<rparr>"
  have "\<exists>bs. copyHeaders cf t syn (map of_nat [Suc i..<N]) ?c = Some (?c\<lparr>send_bufs := bs\<rparr>) \<and> length bs = length (send_bufs ?c)
    \<and> (\<forall>k. Suc i \<le> k \<and> k < N \<longrightarrow> buf_ready cf t (bs ! (tc_base t + k)) \<and> peer_of (bs ! (tc_base t + k)) = peer_of syn
         \<and> seq_num (tcp_hdr (bs ! (tc_base t + k))) = seq_num (tcp_hdr (send_bufs ?c ! (tc_base t + k))))
    \<and> (\<forall>j. j < tc_base t + Suc i \<or> tc_base t + N \<le> j \<longrightarrow> bs ! j = send_bufs ?c ! j)"
    using Suc.hyps(2) Suc.prems i by (intro Suc.hyps(1)) simp_all
  then obtain bs where bs: "copyHeaders cf t syn (map of_nat [Suc i..<N]) ?c = Some (c\<lparr>send_bufs := bs\<rparr>)" "length bs = length (send_bufs c)"
    "\<And>k. Suc i \<le> k \<Longrightarrow> k < N \<Longrightarrow> buf_ready cf t (bs ! (tc_base t + k)) \<and> peer_of (bs ! (tc_base t + k)) = peer_of syn
         \<and> seq_num (tcp_hdr (bs ! (tc_base t + k))) = seq_num (tcp_hdr (send_bufs c ! (tc_base t + k)))"
    "\<And>j. j < tc_base t + Suc i \<or> tc_base t + N \<le> j \<Longrightarrow> bs ! j = (send_bufs c)[?j := b] ! j"
    by auto
  have run: "copyHeaders cf t syn (map of_nat [i..<N]) c = Some (c\<lparr>send_bufs := bs\<rparr>)"
    using i jl bs(1) by (simp add: upt_conv_Cons getSendBuf_def putSendBuf_def ix b(1))
  have here: "bs ! ?j = b" using bs(4) [of ?j] jl by simp
  have "buf_ready cf t (bs ! (tc_base t + k)) \<and> peer_of (bs ! (tc_base t + k)) = peer_of syn
         \<and> seq_num (tcp_hdr (bs ! (tc_base t + k))) = seq_num (tcp_hdr (send_bufs c ! (tc_base t + k)))" if "i \<le> k" "k < N" for k
    using that bs(3) [of k] here b by (cases "k = i") simp_all
  moreover have "bs ! j = send_bufs c ! j" if "j < ?j \<or> tc_base t + N \<le> j" for j
    using bs(4) [of j] that i by (cases "j = ?j") auto
  ultimately show ?case using run bs(2) by (intro exI [of _ bs]) simp
qed

subsection \<open>Becoming established\<close>

text \<open>
  The state between the exchange of the SYNs and \<^verbatim>\<open>onEstablished\<close>: the buffer at \<open>send_una\<close> holds
  our SYN, which the sums cover but for its flags; the data starts in the next buffer.
\<close>

definition handshake_done :: "Conf \<Rightarrow> TcpConn \<Rightarrow> 'a Core_scheme \<Rightarrow> SendBuf \<Rightarrow> bool" where
  "handshake_done cf t c syn \<longleftrightarrow>
     send_una t = 0 \<and> send_next t = 1 \<and> data_next t = 1 \<and> data_next_size t = 0 \<and> data_sum t = CSum_of 0
     \<and> 0 < smss t \<and> unat (smss t) \<le> 1460
     \<and> ring_size cf dvd 2 ^ 32 \<and> 2 \<le> ring_size cf \<and> tc_base t + ring_size cf \<le> length (send_bufs c)
     \<and> send_bufs c ! tc_base t = syn \<and> ip_covers t syn \<and> unat (csum (tcpsum t)) < 2 ^ 21 + 2 ^ 17
     \<and> unat (csum (tcpsum t)) mod 65535 = hdr_sum cf t (syn\<lparr>tcp_hdr := (tcp_hdr syn)\<lparr>offset_flags := 0\<rparr>\<rparr>) mod 65535
     \<and> (\<forall>k < ring_size cf. buf_shell cf t syn (send_bufs c ! (tc_base t + k)))"

definition data_hdr :: "bool \<Rightarrow> TcpHeader \<Rightarrow> TcpHeader" where
  "data_hdr ts h = set_ack True (set_psh True (set_data_offset (if ts then 8 else 5) (h\<lparr>offset_flags := 0\<rparr>)))"

lemma data_hdr_fields:
  "src_port (data_hdr ts h) = src_port h" "dst_port (data_hdr ts h) = dst_port h" "seq_num (data_hdr ts h) = seq_num h"
  "urgent_pointer (data_hdr ts h) = urgent_pointer h" "\<not> flag_fin (data_hdr ts h)"
  by (simp_all add: data_hdr_def set_ack_def set_psh_def set_data_offset_def put_bit_iff)

lemma onEstablished_queue:
  assumes h: "handshake_done cf t c syn"
  shows "\<exists>t' c'. onEstablished cf hdl pkt (t, c) = onConnectionEstablished hdl (t', c') \<and> established t'
    \<and> queue_inv cf (peer_of syn) t' c' \<and> unsent cf t' c' = [] \<and> wire c' = wire c
    \<and> ring_seq cf t' c' (send_next t') = ring_seq cf t c 1 \<and> fin_sent t' = fin_sent t"
proof -
  have H: "send_una t = 0" "send_next t = 1" "data_next t = 1" "data_next_size t = 0" "data_sum t = CSum_of 0"
    "0 < smss t" "unat (smss t) \<le> 1460" "ring_size cf dvd 2 ^ 32" "2 \<le> ring_size cf" "tc_base t + ring_size cf \<le> length (send_bufs c)"
    "send_bufs c ! tc_base t = syn" "ip_covers t syn" "unat (csum (tcpsum t)) < 2 ^ 21 + 2 ^ 17"
    "unat (csum (tcpsum t)) mod 65535 = hdr_sum cf t (syn\<lparr>tcp_hdr := (tcp_hdr syn)\<lparr>offset_flags := 0\<rparr>\<rparr>) mod 65535"
    "\<forall>k < ring_size cf. buf_shell cf t syn (send_bufs c ! (tc_base t + k))"
    using h by (auto simp: handshake_done_def)
  let ?h = "data_hdr (hasTs cf t) (tcp_hdr syn)"
  let ?syn = "syn\<lparr>tcp_hdr := ?h\<rparr>" and ?c = "c\<lparr>send_bufs := (send_bufs c)[tc_base t := syn\<lparr>tcp_hdr := ?h\<rparr>]\<rparr>"
  have shell: "buf_shell cf t syn syn" using H(9,11) H(15) [rule_format, of 0] by simp
  obtain t' where t': "onEstablished cf hdl pkt (t, c)
      = Option.bind (copyHeaders cf t' ?syn (map of_nat [1..<ring_size cf]) ?c) (\<lambda>c. onConnectionEstablished hdl (t', c))"
    "tc_base t' = tc_base t" "ipsum t' = ipsum t" "tcpsum t' = CSum_add16 (offset_flags ?h) (tcpsum t)" "has_ts t' = has_ts t"
    "smss t' = smss t" "send_una t' = send_una t" "send_next t' = send_next t" "data_next t' = data_next t"
    "data_next_size t' = data_next_size t" "data_sum t' = data_sum t" "established t'" "fin_sent t' = fin_sent t"
  proof -
    have g: "getSendBuf cf x 0 c = Some syn" "putSendBuf cf x 0 b c = Some (c\<lparr>send_bufs := (send_bufs c)[tc_base t := b]\<rparr>)"
      if "tc_base x = tc_base t" for x b
      using that H(9-11) by (simp_all add: getSendBuf_def putSendBuf_def sbuf_idx_nat)
    show thesis
      by (cases "CongestionControlAlgo cf = 0";
        rule that, (simp add: onEstablished_def updateBothWndSeq_def getSendSeq_def g H(1,2) Let_def updateRto_def data_hdr_def hasTs_def)+)
  qed
  have ts: "hasTs cf t' = hasTs cf t" by (simp add: hasTs_def t')
  have tv: "unat (csum (tcpsum t')) = unat (csum (tcpsum t)) + unat (offset_flags ?h)"
    unfolding t'(4) using H(13) unat_le_u16 [of "offset_flags ?h"] by (subst CSum_add16_val) simp_all
  have hs: "hdr_sum cf t' ?syn = hdr_sum cf t (syn\<lparr>tcp_hdr := (tcp_hdr syn)\<lparr>offset_flags := 0\<rparr>\<rparr>) + unat (offset_flags ?h)"
    by (simp add: hdr_sum_def ts data_hdr_fields)
  have "unat (csum (tcpsum t')) mod 65535 = hdr_sum cf t' ?syn mod 65535"
    unfolding tv hs by (rule mod_add_cong [OF H(14) refl])
  then have rs: "buf_ready cf t' ?syn"
    using shell H(12) by (simp add: buf_ready_def ip_covers_def t' data_hdr_fields buf_shell_def data_off_def ts)
  have sh: "buf_shell cf t' ?syn (send_bufs ?c ! (tc_base t' + k))" if "1 \<le> k" "k < ring_size cf" for k
    using that H(15) by (simp add: t' buf_shell_def same_ip_def data_hdr_fields data_off_def ts)
  have "32 \<le> length (body ?syn)" using shell by (simp add: buf_shell_def)
  then obtain bs where bs: "copyHeaders cf t' ?syn (map of_nat [1..<ring_size cf]) ?c = Some (?c\<lparr>send_bufs := bs\<rparr>)" "length bs = length (send_bufs c)"
    "\<And>k. 1 \<le> k \<Longrightarrow> k < ring_size cf \<Longrightarrow> buf_ready cf t' (bs ! (tc_base t + k)) \<and> peer_of (bs ! (tc_base t + k)) = peer_of ?syn
         \<and> seq_num (tcp_hdr (bs ! (tc_base t + k))) = seq_num (tcp_hdr (send_bufs c ! (tc_base t + k)))"
    "\<And>j. j < tc_base t + 1 \<Longrightarrow> bs ! j = send_bufs ?c ! j"
    using copyHeaders_ready [OF rs refl, of ?c 1] H(9,10) sh by (auto simp: t')
  let ?c' = "?c\<lparr>send_bufs := bs\<rparr>"
  have ps: "peer_of ?syn = peer_of syn" by (simp add: peer_of_def data_hdr_fields)
  have b0: "bs ! tc_base t = ?syn" using bs(4) [of "tc_base t"] H(9,10) by simp
  have all: "buf_ready cf t' (bs ! (tc_base t + k)) \<and> peer_of (bs ! (tc_base t + k)) = peer_of syn" if "k < ring_size cf" for k
    using bs(3) [of k] that b0 rs ps by (cases "k = 0") auto
  have "ring_ok cf (peer_of syn) t' ?c'"
    unfolding ring_ok_def using H(8-10,13) all bs(2) tv unat_le_u16 [of "offset_flags ?h"] by (simp add: t')
  then have "queue_inv cf (peer_of syn) t' ?c'"
    using H(1-9) sums_to_nil by (simp add: queue_inv_def t' waiting_def chunk_def)
  moreover have "unsent cf t' ?c' = []" by (simp add: unsent_def waiting_def t' H chunk_def)
  moreover have "sbuf_idx cf t' 1 = tc_base t + 1" "sbuf_idx cf t 1 = tc_base t + 1" using H(9) by (simp_all add: sbuf_idx_nat t')
  then have "ring_seq cf t' ?c' (send_next t') = ring_seq cf t c 1"
    using bs(3) [of 1] H(9) by (simp add: ring_seq_def ring_buf_def t' H(2))
  ultimately show ?thesis using bs(1) t'(1,12,13) by (intro exI [of _ t'] exI [of _ ?c']) simp
qed

end
