(* ===== verification/Handshake.thy ===== *)
theory Handshake
  imports Established
begin

text \<open>The whole opening of a connection on the server's side, up to the point where it can send.\<close>

text \<open>The ring of a connection before it is opened: buffers that differ in nothing the sums cover.\<close>

definition ring_fresh :: "Conf \<Rightarrow> TcpConn \<Rightarrow> 'a Core_scheme \<Rightarrow> bool" where
  "ring_fresh cf t c \<longleftrightarrow> ring_size cf dvd 2 ^ 32 \<and> 2 \<le> ring_size cf \<and> tc_base t + ring_size cf \<le> length (send_bufs c)
     \<and> (\<forall>k < ring_size cf. let b = send_bufs c ! (tc_base t + k) in
          same_ip b (send_bufs c ! tc_base t) \<and> urgent_pointer (tcp_hdr b) = 0 \<and> 32 \<le> length (body b) \<and> length (body b) \<le> 65000)"

definition seg_fits :: "Conf \<Rightarrow> TcpConn \<Rightarrow> 'a Core_scheme \<Rightarrow> u32 \<Rightarrow> bool" where
  "seg_fits cf t c m \<longleftrightarrow> 0 < m \<and> unat m \<le> 1460 \<and> (\<forall>k < ring_size cf. data_off cf t + unat m \<le> length (body (send_bufs c ! (tc_base t + k))))"

lemma same_ip_cong:
  "same_ip (b\<lparr>tcp_hdr := x\<rparr>) y = same_ip b y" "same_ip b b" "same_ip a b \<Longrightarrow> same_ip b a" "same_ip a b \<Longrightarrow> same_ip b d \<Longrightarrow> same_ip a d"
  by (simp_all add: same_ip_def)

lemma same_ip_hdr:
  "ip_hdr b = (ip_hdr a)\<lparr>tot_len := tlen, ip_checksum := ic\<rparr> \<Longrightarrow> same_ip b a"
  "ip_hdr b = (ip_hdr a)\<lparr>dst_ip := d, tot_len := tlen, ip_checksum := ic\<rparr> \<Longrightarrow> same_ip b a"
  by (simp_all add: same_ip_def)

lemma sendSyn_done:
  assumes fresh: "ring_fresh cf t c" and rdy: "syn_ready cf t c1 syn" and fits: "seg_fits cf t c (smss t)"
    and t: "send_next t = 0" "send_una t = 0" "data_next t = 1" "data_next_size t = 0" "data_sum t = CSum_of 0" "unat (csum (tcpsum t)) < 2 ^ 21 + 2 ^ 17"
    and bufs: "length (send_bufs c1) = length (send_bufs c)" "\<And>i. i \<noteq> tc_base t \<Longrightarrow> send_bufs c1 ! i = send_bufs c ! i"
    and syn: "same_ip syn (send_bufs c ! tc_base t)" "length (body syn) = length (body (send_bufs c ! tc_base t))"
  shows "\<exists>t' c' f b. sendSyn cf (t, c1) = Some (t', c') \<and> wire c' = wire c1 @ [f] \<and> frame_valid f \<and> syn_frame cf t c1 syn f
    \<and> handshake_done cf t' c' b \<and> peer_of b = peer_of syn \<and> ring_seq cf t' c' 1 = ntohl (seq_num (tcp_hdr syn)) + 1
    \<and> fin_sent t' = fin_sent t"
proof -
  let ?N = "ring_size cf" and ?B = "tc_base t"
  have F: "?N dvd 2 ^ 32" "2 \<le> ?N" "?B + ?N \<le> length (send_bufs c)"
    "\<And>k. k < ?N \<Longrightarrow> same_ip (send_bufs c ! (?B + k)) (send_bufs c ! ?B) \<and> urgent_pointer (tcp_hdr (send_bufs c ! (?B + k))) = 0
       \<and> 32 \<le> length (body (send_bufs c ! (?B + k))) \<and> length (body (send_bufs c ! (?B + k))) \<le> 65000"
    using fresh by (auto simp: ring_fresh_def Let_def)
  have ix: "sbuf_idx cf t 0 = ?B" "sbuf_idx cf t 1 = ?B + 1" using F(2) by (simp_all add: sbuf_idx_nat)
  have nb: "getSendBuf cf t (send_next t + 1) c1 = Some (send_bufs c ! (?B + 1))"
    using F(2,3) bufs by (simp add: getSendBuf_def t ix)
  obtain t' c' f b sq where s: "sendSyn cf (t, c1) = Some (t', c')" "wire c' = wire c1 @ [f]" "frame_valid f" "syn_frame cf t c1 syn f"
    "t' = t\<lparr>rto := 1000, pending_ack := False, last_ack_seq := recv_buf_seq t + seg_second t, send_next := send_next t + 1\<rparr>"
    "getSendSeq cf t' (send_next t') c' = Some (ntohl (seq_num (tcp_hdr syn)) + 1)" "syn_buf cf t syn b"
    "send_bufs c' = (send_bufs c1)[?B := b, ?B + 1 := (send_bufs c ! (?B + 1))\<lparr>tcp_hdr := (tcp_hdr (send_bufs c ! (?B + 1)))\<lparr>seq_num := sq\<rparr>\<rparr>]"
    using sendSyn_frame [OF rdy nb] by (auto simp: t ix)
  have f': "tc_base t' = ?B" "ipsum t' = ipsum t" "tcpsum t' = tcpsum t" "smss t' = smss t" "send_una t' = 0" "send_next t' = 1"
    "data_next t' = 1" "data_next_size t' = 0" "data_sum t' = CSum_of 0" "fin_sent t' = fin_sent t" "hasTs cf t' = hasTs cf t"
    by (simp_all add: s(5) t hasTs_def)
  have b: "same_ip b syn" "dst_mac (eth_hdr b) = dst_mac (eth_hdr syn)" "src_port (tcp_hdr b) = src_port (tcp_hdr syn)"
    "dst_port (tcp_hdr b) = dst_port (tcp_hdr syn)" "urgent_pointer (tcp_hdr b) = 0" "length (body b) = length (body syn)"
    "hasTs cf t \<Longrightarrow> take 4 (body b) = take 4 (body syn)" "dst_ip (ip_hdr b) = dst_ip (ip_hdr syn)" "src_ip (ip_hdr b) = src_ip (ip_hdr syn)"
    using s(7) by (auto simp: syn_buf_def intro: same_ip_hdr)
  have bc: "same_ip b (send_bufs c ! ?B)" by (rule same_ip_cong(4) [OF b(1) syn(1)])
  have shell: "buf_shell cf t' b (send_bufs c' ! (?B + k))" if "k < ?N" for k
  proof -
    have nth: "send_bufs c' ! (?B + k) = (if k = 0 then b else if k = 1 then (send_bufs c ! (?B + 1))\<lparr>tcp_hdr := (tcp_hdr (send_bufs c ! (?B + 1)))\<lparr>seq_num := sq\<rparr>\<rparr>
        else send_bufs c ! (?B + k))"
      using F(3) that bufs by (simp add: s(8) nth_list_update)
    have l: "data_off cf t + unat (smss t) \<le> length (body (send_bufs c ! (?B + k)))" using fits that by (simp add: seg_fits_def)
    have sm: "same_ip (send_bufs c ! (?B + k)) b" using same_ip_cong(4) [OF conjunct1 [OF F(4) [OF that]] same_ip_cong(3) [OF bc]] .
    show ?thesis using F(4) [OF that] l sm b(5,6) syn(2) same_ip_cong(2) [of b]
      unfolding nth by (auto simp: buf_shell_def f' same_ip_cong(1) data_off_def)
  qed
  have "ip_covers t' b = ip_covers t b" by (simp add: ip_covers_def f')
  then have ipc: "ip_covers t' b" using rdy ip_covers_same [OF _ b(1,8)] by (simp add: syn_ready_def)
  have hs: "hdr_sum cf t' (b\<lparr>tcp_hdr := (tcp_hdr b)\<lparr>offset_flags := 0\<rparr>\<rparr>) =
         u32_sum (src_ip (ip_hdr syn)) + u32_sum (dst_ip (ip_hdr syn)) + unat (htons 6)
          + unat (src_port (tcp_hdr syn)) + unat (dst_port (tcp_hdr syn)) + (if hasTs cf t then bsum False (take 4 (body syn)) else 0)"
    using b by (simp add: hdr_sum_def f')
  have "send_bufs c' ! ?B = b" using F(2,3) bufs by (simp add: s(8) nth_list_update)
  then have "handshake_done cf t' c' b"
    unfolding handshake_done_def hs f' using F(1-3) t(6) fits ipc shell rdy bufs
    by (simp add: s(8) seg_fits_def syn_ready_def)
  moreover have "ring_seq cf t' c' 1 = ntohl (seq_num (tcp_hdr syn)) + 1"
    using s(6) by (auto simp: f' getSendSeq_def getSendBuf_def ring_seq_def ring_buf_def bind_eq_Some_conv)
  moreover have "peer_of b = peer_of syn" using b by (simp add: peer_of_def)
  ultimately show ?thesis using s(1-4) f'(10) by blast
qed

text \<open>
  C12: The opening of a connection on the server's side, from \<^verbatim>\<open>TcpConn::reset\<close> over \<^verbatim>\<open>onSyn\<close>
  and \<^verbatim>\<open>sendSyn\<close> to \<^verbatim>\<open>onEstablished\<close>. The user is told about a connection that is ready to
  send: the cached sums cover every buffer of the ring, each buffer is addressed to the peer, nothing
  waits, and the first data will carry the sequence number after the SYN.
\<close>

theorem server_handshake_ready:
  assumes "ring_fresh cf t c" and "Option.bind (conn_reset cf sp dmac dip dp (t, c)) (onSyn cf pkt) = Some (t2, c2)"
    and "seg_fits cf t2 c (smss t2)"
  shows "\<exists>t3 c3 t4 c4 f. sendSyn cf (t2, c2) = Some (t3, c3) \<and> wire c3 = wire c @ [f] \<and> frame_valid f
    \<and> onEstablished cf hdl ack (t3, c3) = onConnectionEstablished hdl (t4, c4) \<and> wire c4 = wire c3
    \<and> established t4 \<and> \<not> fin_sent t4 \<and> unsent cf t4 c4 = []
    \<and> queue_inv cf (dmac, src_ip (ip_hdr (send_bufs c ! tc_base t)), dip, sp, dp) t4 c4
    \<and> ring_seq cf t4 c4 (send_next t4) = genISN dip dp c + 1"
proof -
  let ?b0 = "send_bufs c ! tc_base t"
  have F: "2 \<le> ring_size cf" "tc_base t + ring_size cf \<le> length (send_bufs c)" "urgent_pointer (tcp_hdr ?b0) = 0"
    "32 \<le> length (body ?b0)" "length (body ?b0) \<le> 65000"
    using assms(1) unfolding ring_fresh_def Let_def by (auto dest: spec [of _ 0])
  have ix: "sbuf_idx cf t 0 = tc_base t" by (simp add: sbuf_idx_nat)
  have g: "getSendBuf cf t 0 c = Some ?b0" using F(1,2) by (simp add: getSendBuf_def ix)
  obtain t1 c1 syn where r: "conn_reset cf sp dmac dip dp (t, c) = Some (t1, c1)" "syn_ready cf t1 c1 syn" "wire c1 = wire c"
    "send_next t1 = 0" "send_una t1 = 0" "hasTs cf t1 = TimestampOption cf" "unat (csum (tcpsum t1)) < 2 ^ 21"
    "seq_num (tcp_hdr syn) = htonl (genISN dip dp c)" "src_port (tcp_hdr syn) = sp" "dst_port (tcp_hdr syn) = dp"
    "dst_ip (ip_hdr syn) = dip" "dst_mac (eth_hdr syn) = dmac"
    "length (send_bufs c1) = length (send_bufs c)" "tc_base t1 = tc_base t" "\<And>i. i \<noteq> tc_base t \<Longrightarrow> send_bufs c1 ! i = send_bufs c ! i"
    "data_next t1 = 1" "data_next_size t1 = 0" "data_sum t1 = CSum_of 0" "\<not> fin_sent t1"
    "ip_hdr syn = (ip_hdr ?b0)\<lparr>dst_ip := dip, tot_len := 0, ip_checksum := 0\<rparr>" "length (body syn) = length (body ?b0)"
    using conn_reset_ready [OF g F(3-5), of sp dmac dip dp] unfolding ix by blast
  have "onSyn cf pkt (t1, c1) = Some (t2, c2)" using assms(2) r(1) by simp
  from onSyn_ready [OF r(2,6) _ r(7) this] r(4,5)
  have o: "c2 = c1" "syn_ready cf t2 c1 syn" "send_next t2 = 0" "send_una t2 = 0" "tc_base t2 = tc_base t1" "data_next t2 = 1"
    "data_next_size t2 = 0" "data_sum t2 = CSum_of 0" "\<not> fin_sent t2" "unat (csum (tcpsum t2)) < 2 ^ 21 + 2 ^ 17"
    using r by simp_all
  have b2: "tc_base t2 = tc_base t" using o(5) r(14) by simp
  have fresh2: "ring_fresh cf t2 c" using assms(1) by (simp add: ring_fresh_def b2)
  have ip: "same_ip syn (send_bufs c ! tc_base t2)" unfolding b2 by (rule same_ip_hdr(2) [OF r(20)])
  obtain t3 c3 f b where s: "sendSyn cf (t2, c1) = Some (t3, c3)" "wire c3 = wire c1 @ [f]" "frame_valid f"
    "handshake_done cf t3 c3 b" "peer_of b = peer_of syn" "ring_seq cf t3 c3 1 = ntohl (seq_num (tcp_hdr syn)) + 1" "fin_sent t3 = fin_sent t2"
    using sendSyn_done [OF fresh2 o(2) assms(3) o(3,4,6,7,8,10) r(13) _ ip] r(15,21) by (auto simp: b2)
  have p: "peer_of syn = (dmac, src_ip (ip_hdr ?b0), dip, sp, dp)" using r by (simp add: peer_of_def)
  show ?thesis using onEstablished_queue [OF s(4), of hdl ack] s r(3,8) o(1,9) unfolding s(5) p by fastforce
qed

lemma ring_fresh_zero: "ring_fresh ring_cf zero_conn zero_core"
proof -
  have "ConnSendBufCnt ring_cf = 2" by (simp add: ring_cf_def)
  then show ?thesis
    by (auto simp: ring_fresh_def zero_core_parts zero_conn_def Let_def less_2_cases_iff zero_bufs(4-6) same_ip_cong(2))
qed

definition silent :: "(TcpConn \<times> Core) EventHandler" where
  "silent = \<lparr>onConnectionEstablished = Some, onConnectionReset = Some, onConnectionTimeout = Some, onConnectionClosed = Some,
     onConnectionRefused = Some, onMoreSendable = Some, onUserTimeout = (\<lambda>_. Some), onData = (\<lambda>_ s. Some (0, s)),
     onFin = (\<lambda>_. Some), allowNewConnection = (\<lambda>_ _. True)\<rparr>"

lemma plain_syn_size:
  "\<exists>t2. onSyn ring_cf plain_syn (t, c) = Some (t2, c) \<and> smss t2 = 956 \<and> tc_base t2 = tc_base t"
proof -
  have "\<not> TimestampOption ring_cf" "SendMTU ring_cf = 996"
    by (simp_all add: ring_cf_def SendMTU_def MaxSendMTU_def SendBufSize_def)
  moreover have "ntohs (word16 [5, 180]) = 1460" by (simp add: word16_def htons_def)
  ultimately show ?thesis unfolding onSyn_def prod.case Let_def plain_syn_start by (simp add: plain_syn_options)
qed

theorem server_handshake_ready_witness:
  "\<exists>t2 c2 t3 c3 t4 c4.
     Option.bind (conn_reset ring_cf 0x5000 [1, 2, 3, 4, 5, 6] 9 0x1600 (zero_conn, zero_core)) (onSyn ring_cf plain_syn) = Some (t2, c2)
     \<and> sendSyn ring_cf (t2, c2) = Some (t3, c3)
     \<and> onEstablished ring_cf silent plain_syn (t3, c3) = onConnectionEstablished silent (t4, c4)
     \<and> queue_inv ring_cf ([1, 2, 3, 4, 5, 6], 0, 9, 0x5000, 0x1600) t4 c4"
proof -
  obtain t1 c1 where r: "conn_reset ring_cf 0x5000 [1, 2, 3, 4, 5, 6] 9 0x1600 (zero_conn, zero_core) = Some (t1, c1)" "tc_base t1 = tc_base zero_conn"
    using conn_reset_ready [of ring_cf zero_conn zero_core zero_buf "0x5000" "[1, 2, 3, 4, 5, 6]" 9 "0x1600"] zero_bufs(4-6)
    by (auto simp: getSendBuf_def sbuf_idx_nat zero_conn_def zero_core_parts)
  obtain t2 where o: "onSyn ring_cf plain_syn (t1, c1) = Some (t2, c1)" "smss t2 = 956" "tc_base t2 = tc_base t1"
    using plain_syn_size by blast
  have b: "Option.bind (conn_reset ring_cf 0x5000 [1, 2, 3, 4, 5, 6] 9 0x1600 (zero_conn, zero_core)) (onSyn ring_cf plain_syn) = Some (t2, c1)"
    using r(1) o(1) by simp
  have "ConnSendBufCnt ring_cf = 2" "data_off ring_cf t2 = 0" "tc_base t2 = 0" "length (body zero_buf) = 956"
    using r(2) o(3) by (simp_all add: ring_cf_def data_off_def hasTs_def zero_conn_def zero_buf_def)
  then have fit: "seg_fits ring_cf t2 zero_core (smss t2)"
    by (auto simp: seg_fits_def zero_core_parts o(2) less_2_cases_iff)
  have "src_ip (ip_hdr (send_bufs zero_core ! tc_base zero_conn)) = 0" by (simp add: zero_core_parts zero_conn_def zero_buf_def)
  then show ?thesis using server_handshake_ready [OF ring_fresh_zero b fit, of silent plain_syn] b by auto
qed

end
