(* ===== verification/SendStream.thy ===== *)
theory SendStream
  imports SendQueue
begin

text \<open>
  The life of the sending side: a connection whose user writes, in whole or in pieces, while
  acknowledgements and window updates arrive. What leaves is the stream of the bytes taken from the
  user.
\<close>

subsection \<open>Queues of bytes\<close>

text \<open>A sequence of actions on a queue, each of which takes some bytes.\<close>

fun run_acts :: "('a \<Rightarrow> 's \<Rightarrow> ('b list \<times> 's) option) \<Rightarrow> 'a list \<Rightarrow> 's \<Rightarrow> ('b list \<times> 's) option" where
  "run_acts act [] s = Some ([], s)"
| "run_acts act (a # as) s = do {
     (bs, s) \<leftarrow> act a s;
     (cs, s) \<leftarrow> run_acts act as s;
     Some (bs @ cs, s)
   }"

text \<open>
  The contract of a queue: an action returns, and what it takes is sent behind what was kept before,
  or kept in the same order.
\<close>

locale byte_queue =
  fixes ok :: "'s \<Rightarrow> bool" and sent :: "'s \<Rightarrow> 'b list" and kept :: "'s \<Rightarrow> 'b list"
    and legal :: "'a \<Rightarrow> bool" and act :: "'a \<Rightarrow> 's \<Rightarrow> ('b list \<times> 's) option"
  assumes act_ok: "ok s \<Longrightarrow> legal a \<Longrightarrow>
    \<exists>bs s' out. act a s = Some (bs, s') \<and> ok s' \<and> sent s' = sent s @ out \<and> kept s @ bs = out @ kept s'"
begin

lemma run_exact:
  assumes "ok s" "list_all legal as"
  shows "\<exists>bs s' out. run_acts act as s = Some (bs, s') \<and> ok s' \<and> sent s' = sent s @ out \<and> kept s @ bs = out @ kept s'"
  using assms
proof (induction as arbitrary: s)
  case (Cons a as)
  obtain bs s1 out where 1: "act a s = Some (bs, s1)" "ok s1" "sent s1 = sent s @ out" "kept s @ bs = out @ kept s1"
    using act_ok [of s a] Cons.prems by auto
  obtain cs s2 out2 where 2: "run_acts act as s1 = Some (cs, s2)" "ok s2" "sent s2 = sent s1 @ out2" "kept s1 @ cs = out2 @ kept s2"
    using Cons.IH [OF 1(2)] Cons.prems(2) by auto
  have "kept s @ bs @ cs = (out @ out2) @ kept s2" using 1(4) 2(4) by (metis append.assoc)
  then show ?case using 1 2 by (intro exI [of _ "bs @ cs"] exI [of _ s2] exI [of _ "out @ out2"]) simp
qed (auto intro!: exI [of _ "[]"])

end

subsection \<open>The frames on the wire\<close>

text \<open>Valid frames to one peer whose sequence numbers follow one another from \<open>sq\<close> on.\<close>

fun carries :: "nat \<Rightarrow> u8 list \<times> u32 \<times> u32 \<times> u16 \<times> u16 \<Rightarrow> u32 \<Rightarrow> Frame list \<Rightarrow> bool" where
  "carries off p sq [] \<longleftrightarrow> True"
| "carries off p sq (f # fs) \<longleftrightarrow>
     data_frame off p sq (drop off (f_payload f)) f \<and> carries off p (sq + of_nat (length (drop off (f_payload f)))) fs"

definition frame_bytes :: "nat \<Rightarrow> Frame list \<Rightarrow> u8 list" where
  "frame_bytes off fs = concat (map (\<lambda>f. drop off (f_payload f)) fs)"

lemma sent_in_order_carries:
  "sent_in_order off p w sq fs xs \<Longrightarrow> carries off p sq fs \<and> frame_bytes off fs = xs"
proof (induction fs arbitrary: sq xs)
  case (Cons f fs)
  let ?n = "length (drop off (f_payload f))"
  have c: "data_frame off p sq (take ?n xs) f" "sent_in_order off p w (sq + of_nat ?n) fs (drop ?n xs)"
    using Cons.prems by (simp_all add: Let_def)
  have e: "drop off (f_payload f) = take ?n xs" using c(1) unfolding data_frame_def by blast
  have "carries off p (sq + of_nat ?n) fs" "frame_bytes off fs = drop ?n xs" using Cons.IH [OF c(2)] by simp_all
  moreover have "data_frame off p sq (drop off (f_payload f)) f" using c(1) by (simp add: data_frame_def)
  moreover have "drop off (f_payload f) @ drop ?n xs = xs" by (subst e) (rule append_take_drop_id)
  ultimately show ?case by (simp add: frame_bytes_def)
qed (simp add: frame_bytes_def)

lemma carries_append:
  "carries off p sq (fs @ gs) \<longleftrightarrow> carries off p sq fs \<and> carries off p (sq + of_nat (length (frame_bytes off fs))) gs"
  by (induction fs arbitrary: sq) (simp_all add: frame_bytes_def add.assoc)

subsection \<open>Acknowledgements\<close>

lemma queue_inv_una:
  assumes "queue_inv cf p t c" "send_una t \<noteq> send_next t"
  shows "queue_inv cf p (t\<lparr>send_una := send_una t + 1\<rparr>) c"
proof -
  let ?t = "t\<lparr>send_una := send_una t + 1\<rparr>"
  have v: "ring_view ?t = ring_view t" by (simp add: ring_view_def)
  have w: "waiting ?t = waiting t" by (simp add: waiting_def)
  have q: "unat (data_next t - send_una t) < ring_size cf" "unat (send_next t - send_una t) + waiting t = unat (data_next t - send_una t)"
    using assms(1) by (simp_all add: queue_inv_def)
  have s: "send_next t - send_una t \<noteq> 0" using assms(2) by simp
  then have s1: "unat (send_next t - (send_una t + 1)) = unat (send_next t - send_una t) - 1" "0 < unat (send_next t - send_una t)"
    using unat_minus_one [OF s] by (simp_all add: diff_diff_eq [symmetric] unat_gt_0)
  then have "data_next t - send_una t \<noteq> 0" using q(2) by auto
  then have d1: "unat (data_next t - (send_una t + 1)) = unat (data_next t - send_una t) - 1"
    using unat_minus_one [of "data_next t - send_una t"] by (simp add: diff_diff_eq [symmetric])
  show ?thesis
    using assms(1) s1 d1 q unfolding queue_inv_def w ring_view_cong [OF v] chunk_view [OF v] by auto
qed

lemma ackLoop_queue:
  assumes "queue_inv cf p t c"
  shows "\<exists>u. ackLoop cf ack t c = Some (t\<lparr>send_una := u\<rparr>) \<and> queue_inv cf p (t\<lparr>send_una := u\<rparr>) c"
  using assms
proof (induction "unat (send_next t - send_una t)" arbitrary: t rule: less_induct)
  case less
  have r: "ring_ok cf p t c" using less.prems by (simp add: queue_inv_def)
  have same: "t\<lparr>send_una := send_una t\<rparr> = t" by simp
  have g: "getSendSeq cf t (send_una t + 1) c = Some (ring_seq cf t c (send_una t + 1))"
    using ring_ok_buf(1) [OF r] by (simp add: getSendSeq_def ring_seq_def)
  show ?case
  proof (cases "send_una t = send_next t \<or> slt0 (ack - ring_seq cf t c (send_una t + 1))")
    case True
    then have "ackLoop cf ack t c = Some t" using g by (subst ackLoop.simps) auto
    then show ?thesis using less.prems by (intro exI [of _ "send_una t"]) simp
  next
    case False
    let ?t = "t\<lparr>send_una := send_una t + 1\<rparr>"
    have "send_next t - send_una t \<noteq> 0" using False by auto
    then have "unat (send_next ?t - send_una ?t) < unat (send_next t - send_una t)"
      using unat_dec_less [of "send_next t - send_una t"] by (simp add: diff_diff_eq)
    from less.hyps [OF this queue_inv_una [OF less.prems]] False
    show ?thesis using g by (subst ackLoop.simps) auto
  qed
qed

lemma updateBothWndSeq_queue:
  assumes "queue_inv cf p t c"
  shows "\<exists>w. updateBothWndSeq cf (t, c) = Some (t\<lparr>both_wnd_seq := w\<rparr>, c)"
proof -
  have "ring_ok cf p t c" using assms by (simp add: queue_inv_def)
  then show ?thesis using ring_ok_buf(1) [of cf p t c "send_una t"]
    by (auto simp: updateBothWndSeq_def getSendSeq_def Let_def)
qed

lemma queue_window:
  "queue_inv cf p (t\<lparr>send_wnd_seq := x\<rparr>) c = queue_inv cf p t c"
  "queue_inv cf p (t\<lparr>both_wnd_seq := y\<rparr>) c = queue_inv cf p t c"
  "unsent cf (t\<lparr>send_una := u, send_wnd_seq := x, both_wnd_seq := y\<rparr>) c = unsent cf t c"
  "ring_seq cf (t\<lparr>send_una := u, send_wnd_seq := x, both_wnd_seq := y\<rparr>) c = ring_seq cf t c"
proof -
  have v: "ring_view (t\<lparr>send_wnd_seq := x\<rparr>) = ring_view t" "ring_view (t\<lparr>both_wnd_seq := y\<rparr>) = ring_view t"
    "ring_view (t\<lparr>send_una := u, send_wnd_seq := x, both_wnd_seq := y\<rparr>) = ring_view t" by (simp_all add: ring_view_def)
  have w: "waiting (t\<lparr>send_wnd_seq := x\<rparr>) = waiting t" "waiting (t\<lparr>both_wnd_seq := y\<rparr>) = waiting t"
    "waiting (t\<lparr>send_una := u, send_wnd_seq := x, both_wnd_seq := y\<rparr>) = waiting t" by (simp_all add: waiting_def)
  show "queue_inv cf p (t\<lparr>send_wnd_seq := x\<rparr>) c = queue_inv cf p t c"
    unfolding queue_inv_def w ring_view_cong [OF v(1)] chunk_view [OF v(1)] by simp
  show "queue_inv cf p (t\<lparr>both_wnd_seq := y\<rparr>) c = queue_inv cf p t c"
    unfolding queue_inv_def w ring_view_cong [OF v(2)] chunk_view [OF v(2)] by simp
  show "unsent cf (t\<lparr>send_una := u, send_wnd_seq := x, both_wnd_seq := y\<rparr>) c = unsent cf t c"
    unfolding unsent_def w chunk_view [OF v(3)] by simp
  show "ring_seq cf (t\<lparr>send_una := u, send_wnd_seq := x, both_wnd_seq := y\<rparr>) c = ring_seq cf t c"
    by (rule chunk_view(2) [OF v(3)])
qed

subsection \<open>The sending side of a connection is such a queue\<close>

text \<open>
  The user's two ways to write, and the three steps of \<^verbatim>\<open>onPack\<close> that move the queue: the loop
  that takes an acknowledgement, the new end of the send window, and the sending loop.
\<close>

datatype tx_act = Send "u8 list" bool | Sendv "u8 list list" | Acked u32 | Window u32 | Drain

fun tx_legal :: "tx_act \<Rightarrow> bool" where
  "tx_legal (Send data m) \<longleftrightarrow> length data < 2 ^ 32"
| "tx_legal (Sendv iov) \<longleftrightarrow> length (concat iov) < 2 ^ 32"
| "tx_legal _ \<longleftrightarrow> True"

text \<open>An action returns the bytes it took from the user.\<close>

fun tx_do :: "Conf \<Rightarrow> tx_act \<Rightarrow> 'a cs \<Rightarrow> (u8 list \<times> 'a cs) option" where
  "tx_do cf (Send data m) s = do { (n, s) \<leftarrow> conn_send cf data m s; Some (take (unat n) data, s) }"
| "tx_do cf (Sendv iov) s = do { (n, s) \<leftarrow> conn_sendv cf iov s; Some (take (unat n) (concat iov), s) }"
| "tx_do cf (Acked ack) s = do { t \<leftarrow> ackLoop cf ack (fst s) (snd s); Some ([], t, snd s) }"
| "tx_do cf (Window wnd) s = do { s \<leftarrow> updateBothWndSeq cf ((fst s)\<lparr>send_wnd_seq := wnd\<rparr>, snd s); Some ([], s) }"
| "tx_do cf Drain s = do { s \<leftarrow> sendUnsent cf s; Some ([], s) }"

text \<open>The bytes sent since the wire held the frames \<open>ws\<close>, the first of them with the number \<open>sq\<close>.\<close>

definition tx_sent :: "nat \<Rightarrow> Frame list \<Rightarrow> 'a cs \<Rightarrow> u8 list" where
  "tx_sent off ws s = frame_bytes off (drop (length ws) (wire (snd s)))"

definition tx_kept :: "Conf \<Rightarrow> 'a cs \<Rightarrow> u8 list" where
  "tx_kept cf s = unsent cf (fst s) (snd s)"

definition tx_ok :: "Conf \<Rightarrow> u8 list \<times> u32 \<times> u32 \<times> u16 \<times> u16 \<Rightarrow> nat \<Rightarrow> Frame list \<Rightarrow> u32 \<Rightarrow> 'a cs \<Rightarrow> bool" where
  "tx_ok cf p off ws sq s \<longleftrightarrow> (case s of (t, c) \<Rightarrow>
     queue_inv cf p t c \<and> data_next_size t < smss t \<and> \<not> fin_sent t \<and> data_off cf t = off
     \<and> take (length ws) (wire c) = ws \<and> carries off p sq (drop (length ws) (wire c))
     \<and> ring_seq cf t c (send_next t) = sq + of_nat (length (tx_sent off ws s)))"

text \<open>A step of the queue keeps the contract.\<close>

lemma tx_ok_step:
  assumes "tx_ok cf p off ws sq (t, c)" "queue_step cf p (t, c) bs (t', c')"
  shows "tx_ok cf p off ws sq (t', c') \<and> (\<exists>out. tx_sent off ws (t', c') = tx_sent off ws (t, c) @ out \<and> tx_kept cf (t, c) @ bs = out @ tx_kept cf (t', c'))"
proof -
  obtain fs xs where q: "queue_inv cf p t' c'" "data_next_size t' < smss t'" "ring_view t' = ring_view t" "wire c' = wire c @ fs"
    "unsent cf t c @ bs = xs @ unsent cf t' c'" "sent_in_order (data_off cf t) p (both_wnd_seq t) (ring_seq cf t c (send_next t)) fs xs"
    "ring_seq cf t' c' (send_next t') = ring_seq cf t c (send_next t) + of_nat (length xs)" "fin_sent t' = fin_sent t"
    using assms(2) by (auto simp: queue_step_def)
  have b: "carries off p sq (drop (length ws) (wire c))" "ring_seq cf t c (send_next t) = sq + of_nat (length (tx_sent off ws (t, c)))"
    "take (length ws) (wire c) = ws" "\<not> fin_sent t" "data_off cf t = off"
    using assms(1) by (simp_all add: tx_ok_def)
  have c: "carries off p (ring_seq cf t c (send_next t)) fs" "frame_bytes off fs = xs"
    using sent_in_order_carries [OF q(6)] b(5) by simp_all
  have l: "length ws \<le> length (wire c)" using b(3) by (metis length_take min.cobounded1)
  then have w: "drop (length ws) (wire c') = drop (length ws) (wire c) @ fs" "take (length ws) (wire c') = ws" using q(4) b(3) by simp_all
  have off: "data_off cf t' = off" using chunk_view(3) [OF q(3)] b(5) by simp
  have s: "tx_sent off ws (t', c') = tx_sent off ws (t, c) @ xs"
    using c(2) by (simp add: tx_sent_def w frame_bytes_def)
  have "carries off p sq (drop (length ws) (wire c) @ fs)"
    using b(1,2) c(1) by (simp add: carries_append tx_sent_def)
  then have "tx_ok cf p off ws sq (t', c')" using q b s w off by (simp add: tx_ok_def add.assoc)
  then show ?thesis using s q(5) by (auto simp: tx_kept_def)
qed

text \<open>So does a change of fields that the queue does not depend on.\<close>

lemma tx_ok_fields:
  assumes "tx_ok cf p off ws sq (t, c)" "queue_inv cf p (t\<lparr>send_una := u, send_wnd_seq := x, both_wnd_seq := y\<rparr>) c"
  shows "tx_ok cf p off ws sq (t\<lparr>send_una := u, send_wnd_seq := x, both_wnd_seq := y\<rparr>, c)"
    "tx_sent off ws (t\<lparr>send_una := u, send_wnd_seq := x, both_wnd_seq := y\<rparr>, c) = tx_sent off ws (t, c)"
    "tx_kept cf (t\<lparr>send_una := u, send_wnd_seq := x, both_wnd_seq := y\<rparr>, c) = tx_kept cf (t, c)"
proof -
  have d: "data_off cf (t\<lparr>send_una := u, send_wnd_seq := x, both_wnd_seq := y\<rparr>) = data_off cf t"
    by (simp add: data_off_def hasTs_def)
  show s: "tx_sent off ws (t\<lparr>send_una := u, send_wnd_seq := x, both_wnd_seq := y\<rparr>, c) = tx_sent off ws (t, c)"
    by (simp add: tx_sent_def)
  show "tx_kept cf (t\<lparr>send_una := u, send_wnd_seq := x, both_wnd_seq := y\<rparr>, c) = tx_kept cf (t, c)"
    by (simp add: tx_kept_def queue_window)
  show "tx_ok cf p off ws sq (t\<lparr>send_una := u, send_wnd_seq := x, both_wnd_seq := y\<rparr>, c)"
    using assms by (simp add: tx_ok_def s d queue_window)
qed

lemma tx_do_step:
  assumes ok: "tx_ok cf p off ws sq (t, c)" and leg: "tx_legal a"
  shows "\<exists>bs s'. tx_do cf a (t, c) = Some (bs, s') \<and> tx_ok cf p off ws sq s'
    \<and> (\<exists>out. tx_sent off ws s' = tx_sent off ws (t, c) @ out \<and> tx_kept cf (t, c) @ bs = out @ tx_kept cf s')"
proof -
  have q: "queue_inv cf p t c" "data_next_size t < smss t" "\<not> fin_sent t" using ok by (simp_all add: tx_ok_def)
  note step = tx_ok_step [OF ok]
  show ?thesis
  proof (cases a)
    case (Send data m)
    then obtain n t' c' where n: "sendPartialLoop cf (\<not> m) data 0 (t, c) = Some (of_nat n, t', c')" "n \<le> length data"
      "queue_step cf p (t, c) (take n data) (t', c')"
      using sendPartialLoop_queue [OF q(1,2), of data "\<not> m" 0] leg by auto
    have "unat (of_nat n :: u32) = n" using n(2) leg Send by (intro unat_of_nat_small) simp
    then have "tx_do cf a (t, c) = Some (take n data, t', c')" using Send n(1) q(3) by (simp add: conn_send_def sendPartial_def)
    then show ?thesis using step [OF n(3)] by blast
  next
    case (Sendv iov)
    then obtain n t' c' where n: "sendvLoop cf iov 0 (t, c) = Some (of_nat n, t', c')" "n \<le> length (concat iov)"
      "queue_step cf p (t, c) (take n (concat iov)) (t', c')"
      using sendvLoop_queue [OF q(1,2), of iov 0] leg by auto
    have "unat (of_nat n :: u32) = n" using n(2) leg Sendv by (intro unat_of_nat_small) simp
    then have "tx_do cf a (t, c) = Some (take n (concat iov), t', c')" using Sendv n(1) q(3) by (simp add: conn_sendv_def)
    then show ?thesis using step [OF n(3)] by blast
  next
    case (Acked ack)
    obtain u where u: "ackLoop cf ack t c = Some (t\<lparr>send_una := u\<rparr>)" "queue_inv cf p (t\<lparr>send_una := u\<rparr>) c"
      using ackLoop_queue [OF q(1)] by blast
    have "t\<lparr>send_una := u, send_wnd_seq := send_wnd_seq t, both_wnd_seq := both_wnd_seq t\<rparr> = t\<lparr>send_una := u\<rparr>" by simp
    then show ?thesis using Acked u tx_ok_fields [OF ok, where u = u and x = "send_wnd_seq t" and y = "both_wnd_seq t"] by auto
  next
    case (Window wnd)
    have i: "queue_inv cf p (t\<lparr>send_wnd_seq := wnd\<rparr>) c" using q(1) by (simp add: queue_window)
    obtain w where w: "updateBothWndSeq cf (t\<lparr>send_wnd_seq := wnd\<rparr>, c) = Some (t\<lparr>send_wnd_seq := wnd, both_wnd_seq := w\<rparr>, c)"
      using updateBothWndSeq_queue [OF i] by auto
    have "t\<lparr>send_una := send_una t, send_wnd_seq := wnd, both_wnd_seq := w\<rparr> = t\<lparr>send_wnd_seq := wnd, both_wnd_seq := w\<rparr>" by simp
    then show ?thesis using Window w i tx_ok_fields [OF ok, where u = "send_una t" and x = wnd and y = w] by (auto simp: queue_window)
  next
    case Drain
    then show ?thesis using sendUnsent_queue [OF q] step by fastforce
  qed
qed

interpretation tx: byte_queue "tx_ok cf p off ws sq" "tx_sent off ws" "tx_kept cf" tx_legal "tx_do cf" for cf p off ws sq
proof (unfold_locales, goal_cases)
  case (1 s a)
  then show ?case using tx_do_step [of cf p off ws sq "fst s" "snd s" a] by fastforce
qed

subsection \<open>Properties\<close>

text \<open>
  C9: the sending side of \<^verbatim>\<open>TcpConn\<close> as a stream. Take an established connection and any sequence
  of \<^verbatim>\<open>send\<close> and \<^verbatim>\<open>sendv\<close> calls, acknowledgements (the loop over \<^verbatim>\<open>send_una\<close>), changes of the
  window end (\<^verbatim>\<open>updateBothWndSeq\<close>) and runs of the sending loop of \<^verbatim>\<open>onPack\<close>, in any order and with
  any arguments. Every one of them returns; the new frames on the wire are valid frames to the peer
  with consecutive sequence numbers; and the bytes they carry, followed by the bytes that still
  wait, are exactly the bytes that waited at the start followed by the bytes taken from the user.
\<close>

theorem send_stream_exact:
  assumes "queue_inv cf p t c" "data_next_size t < smss t" "\<not> fin_sent t" "list_all tx_legal as"
  shows "\<exists>bs t' c' fs. run_acts (tx_do cf) as (t, c) = Some (bs, t', c') \<and> wire c' = wire c @ fs
    \<and> carries (data_off cf t) p (ring_seq cf t c (send_next t)) fs
    \<and> frame_bytes (data_off cf t) fs @ unsent cf t' c' = unsent cf t c @ bs \<and> queue_inv cf p t' c'"
proof -
  let ?off = "data_off cf t" and ?sq = "ring_seq cf t c (send_next t)"
  have "tx_ok cf p ?off (wire c) ?sq (t, c)" using assms(1,2,3) by (simp add: tx_ok_def tx_sent_def frame_bytes_def)
  from tx.run_exact [OF this assms(4)] obtain bs t' c' out where
    r: "run_acts (tx_do cf) as (t, c) = Some (bs, t', c')" "tx_ok cf p ?off (wire c) ?sq (t', c')"
      "tx_sent ?off (wire c) (t', c') = tx_sent ?off (wire c) (t, c) @ out" "tx_kept cf (t, c) @ bs = out @ tx_kept cf (t', c')"
    by fastforce
  define fs where "fs = drop (length (wire c)) (wire c')"
  have "take (length (wire c)) (wire c') = wire c" using r(2) by (simp add: tx_ok_def)
  then have "wire c' = wire c @ fs" unfolding fs_def by (metis append_take_drop_id)
  moreover have "frame_bytes ?off fs = out" using r(3) by (simp add: tx_sent_def fs_def frame_bytes_def)
  moreover have "carries ?off p ?sq fs" "queue_inv cf p t' c'" using r(2) by (simp_all add: tx_ok_def fs_def)
  ultimately show ?thesis using r(1,4) unfolding tx_kept_def by (intro exI [of _ bs] exI [of _ t'] exI [of _ c'] exI [of _ fs]) simp
qed

theorem send_stream_exact_witness:
  "\<exists>bs t' c' fs. run_acts (tx_do ring_cf) [Send [1, 2, 3, 4, 5, 6] False, Acked 4, Window 100, Drain, Sendv [[7], [8, 9]]] (ring_conn, zero_core)
      = Some (bs, t', c')
    \<and> wire c' = wire zero_core @ fs
    \<and> frame_bytes (data_off ring_cf ring_conn) fs @ unsent ring_cf t' c' = unsent ring_cf ring_conn zero_core @ bs"
  using send_stream_exact [OF ring_conn_queue, of "[Send [1, 2, 3, 4, 5, 6] False, Acked 4, Window 100, Drain, Sendv [[7], [8, 9]]]"]
  by (simp del: run_acts.simps) blast

end
