(* ===== verification/TcpClient.thy ===== *)
theory TcpClient
  imports TcpInput "HOL-Library.Char_ord"
begin

text \<open>
  The client of \<^verbatim>\<open>efvitcp/TcpClient.h\<close>: one connection over one \<^verbatim>\<open>Core\<close>, and how it
  finds the hardware address of its next hop. \<^verbatim>\<open>inet_pton\<close>, the output of the route command and
  the ARP file are arguments.
\<close>

record TcpClient = Core +
  cli_conn :: TcpConn

definition CliConf :: "Conf \<Rightarrow> Conf" where
  "CliConf cf = cf\<lparr>MaxConnCnt := 1\<rparr>"

definition with_cli ::
  "('a TcpClient_ext cs \<Rightarrow> 'a TcpClient_ext cs option) \<Rightarrow> 'a TcpClient_scheme \<Rightarrow> 'a TcpClient_scheme option" where
  "with_cli f c = do {
     (t, c) \<leftarrow> f (cli_conn c, c);
     Some (c\<lparr>cli_conn := t\<rparr>)
   }"

definition client_init :: "Conf \<Rightarrow> Device \<Rightarrow> u64 \<Rightarrow> 'a TcpClient_scheme \<Rightarrow> (string + 'a TcpClient_scheme) option" where
  "client_init cf dev ns c = do {
     r \<leftarrow> core_init (CliConf cf) dev ns c;
     case r of
       Inl err \<Rightarrow> Some (Inl err)
     | Inr c \<Rightarrow> map_option Inr (with_cli (\<lambda>s. Some (conn_init (CliConf cf) 0 0 s)) c)
   }"

definition client_close :: "Conf \<Rightarrow> 'a TcpClient_scheme \<Rightarrow> 'a TcpClient_scheme option" where
  "client_close cf c = with_cli (conn_close (CliConf cf)) c"

subsection \<open>The next hop\<close>

text \<open>
  What is used of the C library: \<^verbatim>\<open>fgets\<close> with a buffer of \<open>n\<close> bytes, \<^verbatim>\<open>strstr\<close>,
  and the conversion \<^verbatim>\<open>%s\<close> with a maximal width.
\<close>

definition is_space :: "char \<Rightarrow> bool" where
  "is_space ch \<longleftrightarrow> ch \<in> {CHR '' '', CHR 0x09, CHR 0x0A, CHR 0x0B, CHR 0x0C, CHR 0x0D}"

fun fgets :: "nat \<Rightarrow> string \<Rightarrow> string \<times> string" where
  "fgets 0 s = ([], s)"
| "fgets (Suc n) [] = ([], [])"
| "fgets (Suc n) (ch # s) =
     (if n = 0 then ([], ch # s)
      else if ch = CHR 0x0A then ([ch], s)
      else let (l, r) = fgets n s in (ch # l, r))"

fun strstr :: "string \<Rightarrow> string \<Rightarrow> string option" where
  "strstr pat [] = (if pat = [] then Some [] else None)"
| "strstr pat (ch # s) = (if take (length pat) (ch # s) = pat then Some (ch # s) else strstr pat s)"

definition scan_s :: "nat \<Rightarrow> string \<Rightarrow> (string \<times> string) option" where
  "scan_s width s =
     (let s = dropWhile is_space s;
          tok = take width (takeWhile (\<lambda>ch. \<not> is_space ch) s)
      in if tok = [] then None else Some (tok, drop (length tok) s))"

lemma fgets_length: "length (snd (fgets n s)) + length (fst (fgets n s)) = length s"
  by (induction n s rule: fgets.induct) (auto split: prod.splits)

text \<open>
  The lines of \<^verbatim>\<open>ip route get\<close> are searched for the gateway. Its buffer holds 64 bytes; a longer
  word overruns it, which is \<open>None\<close>. A successful result carries the gateway if there is one.
\<close>

function routeGw :: "string \<Rightarrow> string option option" where
  "routeGw pipe =
     (case fgets 1024 pipe of (buf, pipe') \<Rightarrow>
        if buf = [] then Some None
        else
          let str = (case strstr '' via '' buf of None \<Rightarrow> buf | Some pos \<Rightarrow> drop 5 pos)
          in case scan_s (length str) str of
               Some (gw_ip, r) \<Rightarrow> if length gw_ip < 64 then Some (Some gw_ip) else None
             | None \<Rightarrow> routeGw pipe')"
  by pat_completeness auto
termination
proof (relation "measure length", goal_cases)
  case (2 pipe p buf)
  have "length buf < length pipe"
    if "fgets 1024 pipe = (p, buf)" "p \<noteq> []"
    using fgets_length [of 1024 pipe] that by (cases p) simp_all
  with 2 show ?case by (simp only: in_measure split: prod.splits) simp
qed simp

declare routeGw.simps [simp del]

text \<open>One line of the ARP file: address, two skipped words, hardware address, two skipped words.\<close>

definition skipWord :: "string \<Rightarrow> string" where
  "skipWord s = (case scan_s (length s) s of None \<Rightarrow> [] | Some (w, r) \<Rightarrow> r)"

definition arpLine :: "string \<Rightarrow> (string \<times> string \<times> string) option" where
  "arpLine s = do {
     (ip, s) \<leftarrow> scan_s 63 s;
     (w1, s) \<leftarrow> scan_s (length s) s;
     (w2, s) \<leftarrow> scan_s (length s) s;
     (hw, s) \<leftarrow> scan_s 63 s;
     Some (ip, hw, skipWord (skipWord s))
   }"

lemma scan_s_length:
  assumes "scan_s w s = Some (tok, r)"
  shows "length r < length s"
proof -
  let ?s = "dropWhile is_space s"
  have tok: "tok = take w (takeWhile (\<lambda>ch. \<not> is_space ch) ?s)" "tok \<noteq> []" and r: "r = drop (length tok) ?s"
    using assms by (auto simp: scan_s_def Let_def split: if_splits)
  have "length tok \<le> length ?s"
    using tok(1) length_takeWhile_le [of "\<lambda>ch. \<not> is_space ch" ?s] by simp
  moreover have "length ?s \<le> length s" by (rule length_dropWhile_le)
  moreover have "0 < length tok" using tok(2) by blast
  ultimately show ?thesis unfolding r length_drop by linarith
qed

lemma skipWord_length: "length (skipWord s) \<le> length s"
  by (auto simp: skipWord_def split: option.splits dest!: scan_s_length)

lemma arpLine_length: "arpLine s = Some (ip, hw, r) \<Longrightarrow> length r < length s"
  by (auto simp: arpLine_def bind_eq_Some_conv dest!: scan_s_length intro!: le_less_trans [OF skipWord_length])

function arpFind :: "string \<Rightarrow> string \<Rightarrow> string option" where
  "arpFind gw_ip file =
     (case arpLine file of
        None \<Rightarrow> None
      | Some (ip, hw, rest) \<Rightarrow> if ip = gw_ip then Some hw else arpFind gw_ip rest)"
  by pat_completeness auto
termination
  by (relation "measure (\<lambda>(g, f). length f)") (auto dest: arpLine_length)

declare arpFind.simps [simp del]

definition hexchartoi :: "char \<Rightarrow> u8 option" where
  "hexchartoi ch =
     (if CHR ''0'' \<le> ch \<and> ch \<le> CHR ''9'' then Some (of_nat (of_char ch - of_char (CHR ''0'')))
      else if CHR ''A'' \<le> ch \<and> ch \<le> CHR ''F'' then Some (of_nat (of_char ch - of_char (CHR ''A'') + 10))
      else if CHR ''a'' \<le> ch \<and> ch \<le> CHR ''f'' then Some (of_nat (of_char ch - of_char (CHR ''a'') + 10))
      else None)"

definition parseMac :: "string \<Rightarrow> u8 list option" where
  "parseMac hw =
     (if length hw = 17
      then those (map (\<lambda>i. do {
             h \<leftarrow> hexchartoi (hw ! (3 * i));
             l \<leftarrow> hexchartoi (hw ! (3 * i + 1));
             Some (h * 16 + l)
           }) [0..<6])
      else None)"

text \<open>\<open>route\<close> and \<open>arp\<close> are \<open>None\<close> when the command or the file cannot be opened.\<close>

definition getDestMac :: "string option \<Rightarrow> string option \<Rightarrow> (string + u8 list) option" where
  "getDestMac route arp =
     (case route of
        None \<Rightarrow> Some (Inl ''/usr/sbin/ip route get failed'')
      | Some pipe \<Rightarrow> do {
          gw \<leftarrow> routeGw pipe;
          Some (case gw of
            None \<Rightarrow> Inl ''Can't find gw by /usr/sbin/ip route get''
          | Some gw_ip \<Rightarrow>
              (case arp of
                 None \<Rightarrow> Inl ''Can't open /proc/net/arp''
               | Some file \<Rightarrow>
                   (case fgets 1024 file of (first, rest) \<Rightarrow>
                      if first = [] then Inl ''Invalid file /proc/net/arp''
                      else case arpFind gw_ip rest of
                        None \<Rightarrow> Inl ''Can't find dest ip from arp cache, please ping dest ip first''
                      | Some hw \<Rightarrow> (case parseMac hw of None \<Rightarrow> Inl ''Invalid dest mac addr'' | Some m \<Rightarrow> Inr m))))
        })"

subsection \<open>Connecting\<close>

record Env =
  inet_pton :: "string \<Rightarrow> u32 option"
  route_cmd :: "string option"
  arp_file :: "string option"
  get_port :: "nat \<Rightarrow> string + u16"
  spec_ok :: "nat \<Rightarrow> bool"
  filter_add :: "nat \<Rightarrow> u16 \<Rightarrow> int"

definition connect ::
  "Conf \<Rightarrow> Env \<Rightarrow> string \<Rightarrow> u16 \<Rightarrow> u16 \<Rightarrow> 'a TcpClient_scheme \<Rightarrow> (string option \<times> 'a TcpClient_scheme) option" where
  "connect cf0 env server_ip server_port local_port c =
     (let cf = CliConf cf0 in
      if conn_cnt c \<noteq> 0 then Some (Some ''Connection already exists'', c)
      else case inet_pton env server_ip of
        None \<Rightarrow> Some (Some ''Invalid server ip'', c)
      | Some remote_ip \<Rightarrow> do {
          r \<leftarrow> getDestMac (route_cmd env) (arp_file env);
          case r of
            Inl err \<Rightarrow> Some (Some err, c)
          | Inr dmac \<Rightarrow>
              let server_port = htons server_port in
              (case setClientFilter (get_port env) (spec_ok env) (filter_add env) (htons local_port) of
                 Inl err \<Rightarrow> Some (Some err, c)
               | Inr local_port \<Rightarrow> do {
                   c \<leftarrow> with_cli (\<lambda>s. do {
                     s \<leftarrow> conn_reset cf local_port dmac remote_ip server_port s;
                     sendSyn cf s
                   }) c;
                   let k = connHashKey remote_ip server_port;
                   let c = c\<lparr>conn_cnt := conn_cnt c + 1\<rparr>;
                   entry \<leftarrow> findConnEntry c k;
                   c \<leftarrow> addConnEntry entry k 0 c;
                   Some (None, c)
                 })
        })"

subsection \<open>Polling\<close>

definition clientTimer ::
  "Conf \<Rightarrow> 'a TcpClient_ext cs EventHandler \<Rightarrow> timer_addr \<Rightarrow> 'a TcpClient_scheme \<Rightarrow> 'a TcpClient_scheme option" where
  "clientTimer cf hdl node c =
     (case node of TConn k i \<Rightarrow> if k = 0 then with_cli (onTimer cf hdl i) c else None | _ \<Rightarrow> None)"

definition clientPack :: "Conf \<Rightarrow> 'a cs EventHandler \<Rightarrow> Packet \<Rightarrow> 'a cs \<Rightarrow> 'a cs option" where
  "clientPack cf hdl pkt s = (case s of (t, c) \<Rightarrow>
     let th = p_tcp pkt in
     if \<not> established t then do {
       nb \<leftarrow> getSendBuf cf t (send_next t) c;
       let ack_ok = (flag_ack th \<and> ack_num th = seq_num (tcp_hdr nb));
       if \<not> ack_ok then map_option (Pair t) (rspRst pkt c)
       else if flag_rst th then do {
         s \<leftarrow> onConnectionRefused hdl (t, c);
         onClose cf False s
       }
       else if \<not> flag_syn th then Some (t, c)
       else do {
         s \<leftarrow> onSyn cf pkt (t, c);
         s \<leftarrow> onEstablished cf hdl pkt s;
         onPack cf hdl pkt s
       }
     } else onPack cf hdl pkt (t, c))"

definition clientRecv :: "Conf \<Rightarrow> 'a TcpClient_ext cs EventHandler \<Rightarrow> 'a TcpClient_ext recv_handler" where
  "clientRecv cf hdl k entry pkt c = do {
     e \<leftarrow> arr_get (conn_tbl c) entry;
     if key e \<noteq> k then rspRst pkt c else with_cli (clientPack cf hdl pkt) c
   }"

definition client_poll ::
  "Conf \<Rightarrow> 'a TcpClient_ext cs EventHandler \<Rightarrow> u64 \<Rightarrow> u64 \<Rightarrow> event list \<Rightarrow> 'a TcpClient_scheme \<Rightarrow> 'a TcpClient_scheme option" where
  "client_poll cf0 hdl getns ns evs c =
     (let cf = CliConf cf0 in do {
        c \<leftarrow> pollTime cf (clientTimer cf hdl) getns ns c;
        pollNet cf (clientRecv cf hdl) evs c
      })"

end
