(* ===== verification/Resolver.thy ===== *)
theory Resolver
  imports TcpClient
begin

text \<open>
  How the client finds the hardware address of its next hop: what \<^verbatim>\<open>getDestMac\<close> reads from the
  texts that the route command and the kernel's ARP file print is what was printed there.
\<close>

subsection \<open>Words and lines\<close>

definition word_ok :: "string \<Rightarrow> bool" where
  "word_ok w \<longleftrightarrow> w \<noteq> [] \<and> list_all (\<lambda>ch. \<not> is_space ch) w"

lemma space_is_space [simp]: "is_space (CHR '' '')" "is_space (CHR 0x0A)"
  by (simp_all add: is_space_def)

lemma word_ok_split:
  assumes "word_ok w" and "is_space sp"
  shows "takeWhile (\<lambda>ch. \<not> is_space ch) (w @ sp # s) = w" and "dropWhile is_space (w @ sp # s) = w @ sp # s"
  using assms by (auto simp: word_ok_def list_all_iff takeWhile_append dropWhile_append neq_Nil_conv)

lemma dropWhile_blanks: "list_all is_space b \<Longrightarrow> dropWhile is_space (b @ s) = dropWhile is_space s"
  by (induction b) simp_all

lemma scan_s_word:
  assumes "word_ok w" "is_space sp" "length w \<le> n" "list_all is_space b"
  shows "scan_s n (b @ w @ sp # s) = Some (w, sp # s)"
  using assms word_ok_split [OF assms(1,2), of s]
  by (cases w) (simp_all add: scan_s_def dropWhile_blanks Let_def word_ok_def)

lemma fgets_line:
  assumes "CHR 0x0A \<notin> set l" "length l + 1 < n"
  shows "fgets n (l @ CHR 0x0A # s) = (l @ [CHR 0x0A], s)"
  using assms
proof (induction l arbitrary: n)
  case Nil
  then obtain m where "n = Suc (Suc m)" by (metis add_0 less_natE list.size(3) plus_1_eq_Suc add_Suc_right)
  then show ?case by simp
next
  case (Cons ch l)
  then obtain m where n: "n = Suc m" by (cases n) auto
  with Cons show ?case by (auto simp: Cons.IH)
qed

lemma strstr_at:
  assumes "p \<noteq> []" "hd p \<notin> set w"
  shows "strstr p (w @ p @ s) = Some (p @ s)"
  using assms(2)
proof (induction w)
  case Nil
  then show ?case using assms(1) by (cases p) simp_all
next
  case (Cons ch w)
  then have "take (length p) (ch # w @ p @ s) \<noteq> p" using assms(1) by (cases p) auto
  then show ?case using Cons by simp
qed

subsection \<open>The ARP file\<close>

text \<open>An entry as the kernel prints it: address, type, flags, hardware address, mask, device.\<close>

record arp_entry =
  arp_ip :: string
  arp_type :: string
  arp_flags :: string
  arp_hw :: string
  arp_mask :: string
  arp_dev :: string

definition entry_ok :: "arp_entry \<Rightarrow> bool" where
  "entry_ok e \<longleftrightarrow> list_all word_ok [arp_ip e, arp_type e, arp_flags e, arp_hw e, arp_mask e, arp_dev e]
     \<and> length (arp_ip e) \<le> 63 \<and> length (arp_hw e) \<le> 63"

definition entry_text :: "arp_entry \<Rightarrow> string" where
  "entry_text e = arp_ip e @ '' '' @ arp_type e @ '' '' @ arp_flags e @ '' '' @ arp_hw e @ '' '' @ arp_mask e @ '' ''
     @ arp_dev e @ [CHR 0x0A]"

lemma skipWord_word: "word_ok w \<Longrightarrow> is_space sp \<Longrightarrow> list_all is_space b \<Longrightarrow> skipWord (b @ w @ sp # s) = sp # s"
  by (simp add: skipWord_def scan_s_word)

lemma arpLine_entry:
  assumes "entry_ok e" "list_all is_space b"
  shows "arpLine (b @ entry_text e @ s) = Some (arp_ip e, arp_hw e, CHR 0x0A # s)"
proof -
  have ok: "word_ok (arp_ip e)" "word_ok (arp_type e)" "word_ok (arp_flags e)" "word_ok (arp_hw e)" "word_ok (arp_mask e)"
    "word_ok (arp_dev e)" "length (arp_ip e) \<le> 63" "length (arp_hw e) \<le> 63" using assms(1) by (simp_all add: entry_ok_def)
  have sc: "scan_s n (CHR '' '' # w @ sp # r) = Some (w, sp # r)" if "word_ok w" "is_space sp" "length w \<le> n" for n w sp r
    using scan_s_word [OF that, of "'' ''" r] by simp
  have sk: "skipWord (CHR '' '' # w @ sp # r) = sp # r" if "word_ok w" "is_space sp" for w sp r
    using skipWord_word [OF that, of "'' ''" r] by simp
  show ?thesis
    unfolding arpLine_def entry_text_def
    by (simp add: scan_s_word [OF ok(1) _ ok(7) assms(2)] sc sk ok)
qed

lemma arpFind_text:
  assumes "list_all entry_ok es" "list_all is_space b"
  shows "arpFind gw (b @ concat (map entry_text es)) = map_of (map (\<lambda>e. (arp_ip e, arp_hw e)) es) gw"
  using assms
proof (induction es arbitrary: b)
  case Nil
  then have "dropWhile is_space b = []" using dropWhile_blanks [of b "[]"] by simp
  then have "scan_s 63 b = None" unfolding scan_s_def Let_def by (simp only:) simp
  then have "arpLine b = None" by (simp add: arpLine_def)
  then show ?case by (simp add: arpFind.simps)
next
  case (Cons e es)
  have "arpFind gw ([CHR 0x0A] @ concat (map entry_text es)) = map_of (map (\<lambda>e. (arp_ip e, arp_hw e)) es) gw"
    using Cons.prems by (intro Cons.IH) simp_all
  then show ?case using Cons.prems arpLine_entry [of e b "concat (map entry_text es)"]
    by (subst arpFind.simps) simp
qed

subsection \<open>Hardware addresses\<close>

definition hex_digit :: "nat \<Rightarrow> char" where
  "hex_digit n = ''0123456789abcdef'' ! n"

definition mac_text :: "u8 list \<Rightarrow> string" where
  "mac_text m = tl (concat (map (\<lambda>b. [CHR '':'', hex_digit (unat b div 16), hex_digit (unat b mod 16)]) m))"

lemma hexchartoi_digit: "n < 16 \<Longrightarrow> hexchartoi (hex_digit n) = Some (of_nat n)"
proof -
  have "list_all (\<lambda>n. hexchartoi (hex_digit n) = Some (of_nat n)) [0..<16]"
    by code_simp
  moreover assume "n < 16"
  ultimately show ?thesis by (simp add: list_all_iff)
qed

lemma hex_pair: "(of_nat (unat b div 16) * 16 + of_nat (unat b mod 16) :: u8) = b"
proof -
  have "(of_nat (unat b div 16) * 16 + of_nat (unat b mod 16) :: u8) = of_nat (unat b div 16 * 16 + unat b mod 16)" 
    by (simp only: of_nat_add of_nat_mult of_nat_numeral)
  also have "\<dots> = b" by (simp only: div_mult_mod_eq) simp
  finally show ?thesis .
qed

lemma parseMac_text:
  assumes "length m = 6"
  shows "parseMac (mac_text m) = Some m"
proof -
  obtain a b c d e f where m: "m = [a, b, c, d, e, f]" using assms by (auto simp: numeral_eq_Suc length_Suc_conv)
  have d: "unat x div 16 < 16" for x :: u8 using unat_lt_u8 [of x] by (intro less_mult_imp_div_less) simp
  show ?thesis
    by (simp add: m mac_text_def parseMac_def upt_rec hexchartoi_digit d hex_pair)
qed

subsection \<open>The address of the next hop\<close>

text \<open>The line that the route command prints, with or without a gateway.\<close>

definition route_text :: "string \<Rightarrow> string option \<Rightarrow> string \<Rightarrow> string" where
  "route_text dst gw rest =
     (case gw of None \<Rightarrow> dst @ '' '' @ rest @ [CHR 0x0A] | Some g \<Rightarrow> dst @ '' via '' @ g @ '' '' @ rest @ [CHR 0x0A])"

definition next_hop :: "string \<Rightarrow> string option \<Rightarrow> string" where
  "next_hop dst gw = (case gw of None \<Rightarrow> dst | Some g \<Rightarrow> g)"

definition route_ok :: "string \<Rightarrow> string option \<Rightarrow> string \<Rightarrow> bool" where
  "route_ok dst gw rest \<longleftrightarrow> word_ok dst \<and> word_ok (next_hop dst gw) \<and> length (next_hop dst gw) < 64
     \<and> CHR 0x0A \<notin> set rest \<and> length (route_text dst gw rest) < 1024
     \<and> (gw = None \<longrightarrow> strstr '' via '' (route_text dst gw rest) = None)"

lemma word_ok_no_newline: "word_ok w \<Longrightarrow> CHR 0x0A \<notin> set w" and word_ok_no_blank: "word_ok w \<Longrightarrow> CHR '' '' \<notin> set w"
  by (auto simp: word_ok_def list_all_iff)

lemma routeGw_text:
  assumes "route_ok dst gw rest"
  shows "routeGw (route_text dst gw rest @ tail) = Some (Some (next_hop dst gw))"
proof (cases gw)
  case None
  have r: "word_ok dst" "length dst < 64" "CHR 0x0A \<notin> set rest" "length dst + length rest < 1022"
    "strstr '' via '' (dst @ '' '' @ rest @ [CHR 0x0A]) = None"
    using assms None by (simp_all add: route_ok_def route_text_def next_hop_def)
  have f: "fgets 1024 ((dst @ '' '' @ rest) @ CHR 0x0A # tail) = ((dst @ '' '' @ rest) @ [CHR 0x0A], tail)"
    using r word_ok_no_newline [OF r(1)] by (intro fgets_line) simp_all
  have s: "scan_s n (dst @ CHR '' '' # rest @ [CHR 0x0A]) = Some (dst, CHR '' '' # rest @ [CHR 0x0A])" if "length dst \<le> n" for n
    using scan_s_word [OF r(1) _ that, of "CHR '' ''" "[]"] by simp
  show ?thesis using f r(2,5) None by (subst routeGw.simps) (simp add: route_text_def next_hop_def s)
next
  case (Some g)
  have r: "word_ok dst" "word_ok g" "length g < 64" "CHR 0x0A \<notin> set rest" "length dst + length g + length rest < 1017"
    using assms Some by (simp_all add: route_ok_def route_text_def next_hop_def)
  have f: "fgets 1024 ((dst @ '' via '' @ g @ '' '' @ rest) @ CHR 0x0A # tail) = ((dst @ '' via '' @ g @ '' '' @ rest) @ [CHR 0x0A], tail)"
    using r word_ok_no_newline [OF r(1)] word_ok_no_newline [OF r(2)] by (intro fgets_line) simp_all
  have st: "strstr '' via '' (dst @ '' via '' @ g @ '' '' @ rest @ [CHR 0x0A]) = Some ('' via '' @ g @ '' '' @ rest @ [CHR 0x0A])"
    using word_ok_no_blank [OF r(1)] by (intro strstr_at) simp_all
  have s: "scan_s n (g @ CHR '' '' # rest @ [CHR 0x0A]) = Some (g, CHR '' '' # rest @ [CHR 0x0A])" if "length g \<le> n" for n
    using scan_s_word [OF r(2) _ that, of "CHR '' ''" "[]"] by simp
  show ?thesis using f r(3) st Some by (subst routeGw.simps) (simp add: route_text_def next_hop_def s)
qed


definition gw_entry :: arp_entry where
  "gw_entry = \<lparr>arp_ip = ''10.0.0.1'', arp_type = ''0x1'', arp_flags = ''0x2'', arp_hw = ''02:00:00:00:00:fe'',
     arp_mask = ''*'', arp_dev = ''eth0''\<rparr>"


end
