(* ===== verification/TcpServer.thy ===== *)
theory TcpServer
  imports TcpInput
begin

text \<open>
  The server of \<^verbatim>\<open>efvitcp/TcpServer.h\<close>: an array of connections over one \<^verbatim>\<open>Core\<close>.
  Installing and removing filters is left to the card, see \<open>setServerFilter\<close>.
\<close>

record TcpServer = Core +
  server_port_be :: u16
  srv_conns :: "TcpConn list"

text \<open>Work on one connection of the array.\<close>

definition with_conn ::
  "nat \<Rightarrow> ('a TcpServer_ext cs \<Rightarrow> 'a TcpServer_ext cs option) \<Rightarrow> 'a TcpServer_scheme \<Rightarrow> 'a TcpServer_scheme option" where
  "with_conn i f c = do {
     t \<leftarrow> arr_get (srv_conns c) i;
     (t, c) \<leftarrow> f (t, c);
     ts \<leftarrow> arr_set (srv_conns c) i t;
     Some (c\<lparr>srv_conns := ts\<rparr>)
   }"

text \<open>The loops of \<^verbatim>\<open>init\<close>, \<^verbatim>\<open>close\<close> and \<^verbatim>\<open>foreachConn\<close>.\<close>

fun initConns :: "Conf \<Rightarrow> nat list \<Rightarrow> 'a TcpServer_scheme \<Rightarrow> 'a TcpServer_scheme option" where
  "initConns cf [] c = Some c"
| "initConns cf (i # is) c = do {
     c \<leftarrow> with_conn i (\<lambda>s. Some (conn_init cf (unat (of_nat i * ConnSendBufCnt cf)) (of_nat i) s)) c;
     initConns cf is c
   }"

definition server_init :: "Conf \<Rightarrow> Device \<Rightarrow> u64 \<Rightarrow> 'a TcpServer_scheme \<Rightarrow> (string + 'a TcpServer_scheme) option" where
  "server_init cf dev ns c = do {
     r \<leftarrow> core_init cf dev ns c;
     case r of
       Inl err \<Rightarrow> Some (Inl err)
     | Inr c \<Rightarrow> map_option Inr (initConns cf [0..<unat (MaxConnCnt cf)] c)
   }"

fun closeConns :: "Conf \<Rightarrow> nat list \<Rightarrow> 'a TcpServer_scheme \<Rightarrow> 'a TcpServer_scheme option" where
  "closeConns cf [] c = Some c"
| "closeConns cf (i # is) c = do {
     c \<leftarrow> with_conn i (conn_close cf) c;
     closeConns cf is c
   }"

definition server_close :: "Conf \<Rightarrow> 'a TcpServer_scheme \<Rightarrow> 'a TcpServer_scheme option" where
  "server_close cf c = closeConns cf [0..<length (srv_conns c)] c"

definition getConnCnt :: "'a TcpServer_scheme \<Rightarrow> u32" where
  "getConnCnt c = conn_cnt c"

fun foreachLoop ::
  "('a TcpServer_ext cs \<Rightarrow> 'a TcpServer_ext cs option) \<Rightarrow> nat list \<Rightarrow> 'a TcpServer_scheme \<Rightarrow> 'a TcpServer_scheme option" where
  "foreachLoop handler [] c = Some c"
| "foreachLoop handler (i # is) c = do {
     c \<leftarrow> with_conn i (\<lambda>s. if established (fst s) then handler s else Some s) c;
     foreachLoop handler is c
   }"

definition foreachConn ::
  "('a TcpServer_ext cs \<Rightarrow> 'a TcpServer_ext cs option) \<Rightarrow> 'a TcpServer_scheme \<Rightarrow> 'a TcpServer_scheme option" where
  "foreachConn handler c = foreachLoop handler [0..<length (srv_conns c)] c"

definition listen :: "bool \<Rightarrow> bool \<Rightarrow> u16 \<Rightarrow> 'a TcpServer_scheme \<Rightarrow> string option \<times> 'a TcpServer_scheme" where
  "listen spec_ok filter_ok server_port c =
     (let c = c\<lparr>server_port_be := htons server_port\<rparr>
      in case setServerFilter spec_ok filter_ok of
           Inl err \<Rightarrow> (Some err, c)
         | Inr u \<Rightarrow> (None, c))"

subsection \<open>Polling\<close>

definition serverTimer ::
  "Conf \<Rightarrow> 'a TcpServer_ext cs EventHandler \<Rightarrow> timer_addr \<Rightarrow> 'a TcpServer_scheme \<Rightarrow> 'a TcpServer_scheme option" where
  "serverTimer cf hdl node c =
     (case node of
        TConn k i \<Rightarrow> if k = unat (node_conn_id (timers c node)) then with_conn k (onTimer cf hdl i) c else None
      | _ \<Rightarrow> None)"

text \<open>A packet of a peer that has no connection.\<close>

definition newPeer ::
  "Conf \<Rightarrow> 'a TcpServer_ext cs EventHandler \<Rightarrow> u64 \<Rightarrow> nat \<Rightarrow> Packet \<Rightarrow> 'a TcpServer_scheme \<Rightarrow> 'a TcpServer_scheme option" where
  "newPeer cf hdl k entry pkt c =
     (let ip = p_ip pkt; th = p_tcp pkt in
      if flag_rst th then Some c
      else if flag_ack th \<or> \<not> flag_syn th \<or> conn_cnt c = MaxConnCnt cf
              \<or> \<not> allowNewConnection hdl (src_ip ip) (src_port th)
      then rspRst pkt c
      else do {
        (cid, c) \<leftarrow> allocConn entry k c;
        with_conn (unat cid) (\<lambda>s. do {
          s \<leftarrow> conn_reset cf (server_port_be c) (src_mac (p_eth pkt)) (src_ip ip) (src_port th) s;
          s \<leftarrow> onSyn cf pkt s;
          sendSyn cf s
        }) c
      })"

text \<open>A packet of a peer that has one; first the state SYN-RECEIVED.\<close>

definition knownPeer ::
  "Conf \<Rightarrow> 'a cs EventHandler \<Rightarrow> Packet \<Rightarrow> 'a cs \<Rightarrow> 'a cs option" where
  "knownPeer cf hdl pkt s = (case s of (t, c) \<Rightarrow>
     let th = p_tcp pkt in
     if \<not> established t then
       if flag_syn th \<and> \<not> flag_ack th then resendUna cf False (t, c)
       else if flag_rst th \<and> ntohl (seq_num th) = recv_buf_seq t + seg_second t then onClose cf False (t, c)
       else if \<not> flag_ack th then Some (t, c)
       else do {
         nb \<leftarrow> getSendBuf cf t (send_next t) c;
         if ack_num th \<noteq> seq_num (tcp_hdr nb) then map_option (Pair t) (rspRst pkt c)
         else do {
           s \<leftarrow> onEstablished cf hdl pkt (t, c);
           onPack cf hdl pkt s
         }
       }
     else onPack cf hdl pkt (t, c))"

definition serverRecv ::
  "Conf \<Rightarrow> 'a TcpServer_ext cs EventHandler \<Rightarrow> 'a TcpServer_ext recv_handler" where
  "serverRecv cf hdl k entry pkt c = do {
     e \<leftarrow> arr_get (conn_tbl c) entry;
     if key e \<noteq> k then newPeer cf hdl k entry pkt c
     else with_conn (unat (conn_id e)) (knownPeer cf hdl pkt) c
   }"

definition server_poll ::
  "Conf \<Rightarrow> 'a TcpServer_ext cs EventHandler \<Rightarrow> u64 \<Rightarrow> u64 \<Rightarrow> event list \<Rightarrow> 'a TcpServer_scheme \<Rightarrow> 'a TcpServer_scheme option" where
  "server_poll cf hdl getns ns evs c = do {
     c \<leftarrow> pollTime cf (serverTimer cf hdl) getns ns c;
     pollNet cf (serverRecv cf hdl) evs c
   }"

end
