(* ===== verification/EfviTcp.thy ===== *)
theory EfviTcp
  imports TcpServer TcpClient
begin

text \<open>
  The wrapper classes of \<^verbatim>\<open>efvitcp/EfviTcp.h\<close> that give the stack the interface of the other
  \<^verbatim>\<open>pollnet\<close> transports: error strings, send and receive timeouts on the two user timers, and
  reconnecting. The error of a connection, \<^verbatim>\<open>err_\<close> of its user data, is kept beside the
  connections.
\<close>

record WConf =
  WRecvBufSize :: u32
  WMaxConns :: u32
  SendTimeoutSec :: u32
  RecvTimeoutSec :: u32
  ConnRetrySec :: u32

record 'c UserHandler =
  onTcpConnectFailed :: "'c \<Rightarrow> 'c option"
  onTcpConnected :: "'c \<Rightarrow> 'c option"
  onTcpDisconnect :: "'c \<Rightarrow> 'c option"
  onTcpData :: "u8 list \<Rightarrow> 'c \<Rightarrow> (u32 \<times> 'c) option"
  onSendTimeout :: "'c \<Rightarrow> 'c option"
  onRecvTimeout :: "'c \<Rightarrow> 'c option"

definition userTimer :: "u32 \<Rightarrow> u32 \<Rightarrow> 'a cs \<Rightarrow> 'a cs" where
  "userTimer i sec s = (if sec \<noteq> 0 then setUserTimer i (sec * 1000) s else s)"

subsection \<open>The client\<close>

record EfviTcpClient = TcpClient +
  cli_err :: "string option"
  cli_server_ip :: string
  cli_server_port :: u16
  cli_local_port :: u16
  next_conn_ts :: int

type_synonym 'a ecs = "'a EfviTcpClient_ext TcpClient_ext cs"

definition set_err :: "string \<Rightarrow> 'a ecs \<Rightarrow> 'a ecs" where
  "set_err e s = (case s of (t, c) \<Rightarrow> (t, c\<lparr>cli_err := Some e\<rparr>))"

definition client_conn_close :: "WConf \<Rightarrow> string \<Rightarrow> 'a ecs \<Rightarrow> 'a ecs option" where
  "client_conn_close w reason s = conn_close (ClientConf (WRecvBufSize w)) (set_err reason s)"

definition writeSome :: "WConf \<Rightarrow> u8 list \<Rightarrow> bool \<Rightarrow> 'a ecs \<Rightarrow> (int \<times> 'a ecs) option" where
  "writeSome w data more_data s = do {
     (ret, s) \<leftarrow> conn_send (ClientConf (WRecvBufSize w)) data more_data s;
     Some (sint ret, userTimer 0 (SendTimeoutSec w) s)
   }"

definition writeNonblock :: "WConf \<Rightarrow> u8 list \<Rightarrow> bool \<Rightarrow> 'a ecs \<Rightarrow> (bool \<times> 'a ecs) option" where
  "writeNonblock w data more_data s = do {
     (ret, s) \<leftarrow> writeSome w data more_data s;
     if (of_int ret :: u32) \<noteq> of_nat (length data) then do {
       s \<leftarrow> client_conn_close w ''send buffer full'' s;
       Some (False, s)
     } else Some (True, s)
   }"

definition client_setup ::
  "WConf \<Rightarrow> Device \<Rightarrow> u64 \<Rightarrow> string \<Rightarrow> u16 \<Rightarrow> u16 \<Rightarrow> 'a EfviTcpClient_ext TcpClient_scheme
     \<Rightarrow> (bool \<times> 'a EfviTcpClient_ext TcpClient_scheme) option" where
  "client_setup w dev ns server_ip server_port local_port c = do {
     r \<leftarrow> client_init (ClientConf (WRecvBufSize w)) dev ns c;
     Some (case r of
       Inl err \<Rightarrow> (False, c\<lparr>cli_err := Some err\<rparr>)
     | Inr c \<Rightarrow> (True, c\<lparr>cli_err := None, cli_server_ip := server_ip, cli_server_port := server_port, cli_local_port := local_port\<rparr>))
   }"

definition allowReconnect :: "'a EfviTcpClient_ext TcpClient_scheme \<Rightarrow> 'a EfviTcpClient_ext TcpClient_scheme" where
  "allowReconnect c = c\<lparr>next_conn_ts := 0\<rparr>"

text \<open>The handler \<^verbatim>\<open>TmpHandler\<close> that \<^verbatim>\<open>poll\<close> passes down.\<close>

definition clientHandler :: "WConf \<Rightarrow> 'a ecs UserHandler \<Rightarrow> 'a ecs EventHandler" where
  "clientHandler w h =
     \<lparr>onConnectionEstablished = (\<lambda>s. onTcpConnected h (userTimer 1 (RecvTimeoutSec w) (userTimer 0 (SendTimeoutSec w) s))),
      onConnectionReset = (\<lambda>s. onTcpDisconnect h (set_err ''connection reset'' s)),
      onConnectionTimeout = (\<lambda>s. let s = set_err ''connection timeout'' s
         in if \<not> established (fst s) then onTcpConnectFailed h s else onTcpDisconnect h s),
      onConnectionClosed = (\<lambda>s. onTcpDisconnect h (set_err ''connection closed'' s)),
      onConnectionRefused = (\<lambda>s. onTcpConnectFailed h (set_err ''connection refused'' s)),
      onMoreSendable = Some,
      onUserTimeout = (\<lambda>timer_id s. if timer_id = 0 then onSendTimeout h s else onRecvTimeout h s),
      onData = (\<lambda>data s. onTcpData h data (userTimer 1 (RecvTimeoutSec w) s)),
      onFin = (\<lambda>data s. do {
         s \<leftarrow> (if data \<noteq> [] then map_option snd (onTcpData h data s) else Some s);
         s \<leftarrow> client_conn_close w ''remote close'' s;
         onTcpDisconnect h s
       }),
      allowNewConnection = (\<lambda>ip port. False)\<rparr>"

text \<open>
  \<^verbatim>\<open>poll\<close>: a closed connection is opened again when the retry time has come. \<open>now\<close> is the time
  in seconds.
\<close>

definition reconnect ::
  "WConf \<Rightarrow> 'a ecs UserHandler \<Rightarrow> Env \<Rightarrow> int \<Rightarrow> 'a EfviTcpClient_ext TcpClient_scheme
     \<Rightarrow> 'a EfviTcpClient_ext TcpClient_scheme option" where
  "reconnect w h env now c =
     (if isClosed (cli_conn c) \<and> next_conn_ts c \<le> now then do {
        let c = c\<lparr>next_conn_ts := (if ConnRetrySec w \<noteq> 0 then now + uint (ConnRetrySec w) else 2 ^ 63 - 1)\<rparr>;
        (err, c) \<leftarrow> connect (ClientConf (WRecvBufSize w)) env (cli_server_ip c) (cli_server_port c) (cli_local_port c) c;
        let c = c\<lparr>cli_err := err\<rparr>;
        if err \<noteq> None then with_cli (onTcpConnectFailed h) c else Some c
      } else Some c)"

definition efvi_client_poll ::
  "WConf \<Rightarrow> 'a ecs UserHandler \<Rightarrow> Env \<Rightarrow> int \<Rightarrow> u64 \<Rightarrow> u64 \<Rightarrow> event list
     \<Rightarrow> 'a EfviTcpClient_ext TcpClient_scheme \<Rightarrow> 'a EfviTcpClient_ext TcpClient_scheme option" where
  "efvi_client_poll w h env now getns ns evs c = do {
     c \<leftarrow> reconnect w h env now c;
     client_poll (ClientConf (WRecvBufSize w)) (clientHandler w h) getns ns evs c
   }"

subsection \<open>The server\<close>

record EfviTcpServer = TcpServer +
  srv_err :: "string option"
  conn_errs :: "u32 \<Rightarrow> string option"

type_synonym 'a ess = "'a EfviTcpServer_ext TcpServer_ext cs"

abbreviation srv_conf :: "WConf \<Rightarrow> Conf" where
  "srv_conf w \<equiv> ServerConf (WRecvBufSize w) (WMaxConns w)"

definition set_conn_err :: "string \<Rightarrow> 'a ess \<Rightarrow> 'a ess" where
  "set_conn_err e s = (case s of (t, c) \<Rightarrow> (t, c\<lparr>conn_errs := (conn_errs c)(tc_conn_id t \<mapsto> e)\<rparr>))"

definition server_conn_close :: "WConf \<Rightarrow> string \<Rightarrow> 'a ess \<Rightarrow> 'a ess option" where
  "server_conn_close w reason s = conn_close (srv_conf w) (set_conn_err reason s)"

definition server_writeNonblock :: "WConf \<Rightarrow> u8 list \<Rightarrow> bool \<Rightarrow> 'a ess \<Rightarrow> (bool \<times> 'a ess) option" where
  "server_writeNonblock w data more_data s = do {
     (ret, s) \<leftarrow> conn_send (srv_conf w) data more_data s;
     if ret \<noteq> of_nat (length data) then do {
       s \<leftarrow> server_conn_close w ''send buffer full'' s;
       Some (False, s)
     } else Some (True, userTimer 0 (SendTimeoutSec w) s)
   }"

definition server_setup ::
  "WConf \<Rightarrow> Device \<Rightarrow> u64 \<Rightarrow> bool \<Rightarrow> bool \<Rightarrow> u16 \<Rightarrow> 'a EfviTcpServer_ext TcpServer_scheme
     \<Rightarrow> (bool \<times> 'a EfviTcpServer_ext TcpServer_scheme) option" where
  "server_setup w dev ns sok fok server_port c = do {
     r \<leftarrow> server_init (srv_conf w) dev ns c;
     Some (case r of
       Inl err \<Rightarrow> (False, c\<lparr>srv_err := Some err\<rparr>)
     | Inr c \<Rightarrow> (case listen sok fok server_port c of (err, c) \<Rightarrow> (err = None, c\<lparr>srv_err := err\<rparr>)))
   }"

definition efvi_server_close ::
  "WConf \<Rightarrow> string option \<Rightarrow> 'a EfviTcpServer_ext TcpServer_scheme \<Rightarrow> 'a EfviTcpServer_ext TcpServer_scheme option" where
  "efvi_server_close w reason c =
     (let c = (if reason \<noteq> None then c\<lparr>srv_err := reason\<rparr> else c) in server_close (srv_conf w) c)"

definition server_isClosed :: "'a EfviTcpServer_ext TcpServer_scheme \<Rightarrow> bool" where
  "server_isClosed c \<longleftrightarrow> srv_err c \<noteq> None"

definition serverHandler :: "WConf \<Rightarrow> 'a ess UserHandler \<Rightarrow> 'a ess EventHandler" where
  "serverHandler w h =
     \<lparr>onConnectionEstablished = (\<lambda>s. onTcpConnected h (userTimer 1 (RecvTimeoutSec w) (userTimer 0 (SendTimeoutSec w) s))),
      onConnectionReset = (\<lambda>s. onTcpDisconnect h (set_conn_err ''connection reset'' s)),
      onConnectionTimeout = (\<lambda>s. let s = set_conn_err ''connection timeout'' s
         in if established (fst s) then onTcpDisconnect h s else Some s),
      onConnectionClosed = (\<lambda>s. onTcpDisconnect h (set_conn_err ''connection closed'' s)),
      onConnectionRefused = Some,
      onMoreSendable = Some,
      onUserTimeout = (\<lambda>timer_id s. if timer_id = 0 then onSendTimeout h s else onRecvTimeout h s),
      onData = (\<lambda>data s. onTcpData h data (userTimer 1 (RecvTimeoutSec w) s)),
      onFin = (\<lambda>data s. do {
         s \<leftarrow> (if data \<noteq> [] then map_option snd (onTcpData h data s) else Some s);
         s \<leftarrow> server_conn_close w ''remote close'' s;
         onTcpDisconnect h s
       }),
      allowNewConnection = (\<lambda>ip port. True)\<rparr>"

definition efvi_server_poll ::
  "WConf \<Rightarrow> 'a ess UserHandler \<Rightarrow> u64 \<Rightarrow> u64 \<Rightarrow> event list
     \<Rightarrow> 'a EfviTcpServer_ext TcpServer_scheme \<Rightarrow> 'a EfviTcpServer_ext TcpServer_scheme option" where
  "efvi_server_poll w h getns ns evs c = server_poll (srv_conf w) (serverHandler w h) getns ns evs c"

end
