(* ===== verification/Reconnect.thy ===== *)
theory Reconnect
  imports EfviTcp ConnLimits
begin

text \<open>
  Opening and reopening a connection: what \<^verbatim>\<open>TcpClient::connect\<close> reports, and when the wrapper
  \<^verbatim>\<open>EfviTcpClient::poll\<close> tries again.
\<close>

subsection \<open>What opening changes in the connection\<close>

lemma sendBuf_conn:
  assumes "sendBuf cf n sm idx (t, c) = Some (t', c')"
  shows "t' = t\<lparr>pending_ack := False, last_ack_seq := recv_buf_seq t + snd (segs t ! 0)\<rparr>"
  using assms
  by (auto simp: sendBuf_def updateLastAck_def Let_def bind_eq_Some_conv CSum_setVar32_def CSum_setVar16_def
      split: if_splits)

lemma advanceNext_conn:
  assumes "advanceNext cf n (t, c) = Some (t', c')"
  shows "t' = t\<lparr>send_next := send_next t + 1\<rparr>"
  using assms
  by (auto simp: advanceNext_def startResendTimer_def Let_def bind_eq_Some_conv split: if_splits)

lemma sendSyn_open:
  assumes "sendSyn cf (t, c) = Some (t', c')"
  shows "fin_received t' = fin_received t"
  using assms
  by (auto simp: sendSyn_def Let_def bind_eq_Some_conv dest!: sendBuf_conn advanceNext_conn split: if_splits)

lemma conn_reset_open:
  assumes "conn_reset cf sp dmac dip dp (t, c) = Some (t', c')"
  shows "\<not> fin_received t'"
  using assms
  by (cases "TimestampOption cf"; cases "WindowScaleOption cf") (clarsimp simp: conn_reset_def Let_def bind_eq_Some_conv CSum_setVar16_def)+

lemma tryExpand_keeps: "tryExpandConnTbl c = Some c' \<Longrightarrow> ConnTbl.more c' = ConnTbl.more c"
  by (auto simp: tryExpandConnTbl_def Let_def bind_eq_Some_conv split: if_splits)

lemma addConnEntry_keeps: "addConnEntry e k i c = Some c' \<Longrightarrow> ConnTbl.more c' = ConnTbl.more c"
  by (auto simp: addConnEntry_def bind_eq_Some_conv dest!: tryExpand_keeps)

lemma addConnEntry_cli: "addConnEntry e k i c = Some c' \<Longrightarrow> cli_conn c' = cli_conn c"
  by (cases c; cases c') (auto dest!: addConnEntry_keeps)

definition no_env :: Env where
  "no_env = \<lparr>inet_pton = (\<lambda>_. None), route_cmd = None, arp_file = None, get_port = (\<lambda>_. Inr 0), spec_ok = (\<lambda>_. True),
     filter_add = (\<lambda>_ _. 0)\<rparr>"

definition idle_client :: EfviTcpClient where
  "idle_client = Core.Core.extend zero_core
     \<lparr>cli_conn = zero_conn\<lparr>fin_received := True\<rparr>, cli_err = None, cli_server_ip = ''10.0.0.1'', cli_server_port = 80,
      cli_local_port = 0, next_conn_ts = 0\<rparr>"

lemma idle_client_parts: "conn_cnt idle_client = 0" "isClosed (cli_conn idle_client)" "next_conn_ts idle_client = 0"
  by (simp_all add: idle_client_def Core.Core.defs TcpClient.TcpClient.defs EfviTcp.EfviTcpClient.defs zero_conn_def isClosed_def zero_core_def ConnTbl.defs two_tbl_eq)

lemma idle_connect: "connect cf no_env ip port lport (idle_client\<lparr>next_conn_ts := ts\<rparr>) = Some (Some ''Invalid server ip'', idle_client\<lparr>next_conn_ts := ts\<rparr>)"
  by (simp add: connect_def no_env_def idle_client_parts)

subsection \<open>Errors of opening\<close>

lemma filter_loop_errors:
  "clientFilterLoop n auto gp so fa i port = Inl err \<Longrightarrow>
     err \<in> {''no available port'', ''ef_filter_spec_set_ip4_full failed'', ''ef_vi_filter_add failed''} \<or> (\<exists>j. gp j = Inl err)"
  by (induction n auto gp so fa i port rule: clientFilterLoop.induct) (auto split: sum.splits if_splits)

definition connect_errors :: "Env \<Rightarrow> string \<Rightarrow> string set" where
  "connect_errors env server_ip =
     {''Connection already exists'', ''no available port'', ''ef_filter_spec_set_ip4_full failed'', ''ef_vi_filter_add failed''}
     \<union> (if inet_pton env server_ip = None then {''Invalid server ip''} else {})
     \<union> {err. getDestMac (route_cmd env) (arp_file env) = Some (Inl err)} \<union> {err. \<exists>i. get_port env i = Inl err}"

lemma connect_result:
  assumes "connect cf env ip port lport c = Some (r, c')"
  shows "case r of
      Some err \<Rightarrow> c' = c \<and> err \<in> connect_errors env ip
    | None \<Rightarrow> conn_cnt c = 0 \<and> \<not> fin_received (cli_conn c') \<and> inet_pton env ip \<noteq> None"
proof -
  let ?cf = "CliConf cf"
  show ?thesis
  proof (cases "conn_cnt c \<noteq> 0 \<or> inet_pton env ip = None")
    case True
    then show ?thesis using assms by (cases "conn_cnt c = 0") (auto simp: connect_def Let_def connect_errors_def)
  next
    case False
    then obtain rip where rip: "inet_pton env ip = Some rip" and cnt: "conn_cnt c = 0" by auto
    then obtain m where m: "getDestMac (route_cmd env) (arp_file env) = Some m"
      using assms by (auto simp: connect_def Let_def bind_eq_Some_conv)
    show ?thesis
    proof (cases m)
      case (Inl err)
      then show ?thesis using assms rip cnt m by (auto simp: connect_def Let_def connect_errors_def)
    next
      case (Inr dmac)
      show ?thesis
      proof (cases "setClientFilter (get_port env) (spec_ok env) (filter_add env) (htons lport)")
        case (Inl err)
        then show ?thesis using assms rip cnt m Inr filter_loop_errors
          by (fastforce simp: connect_def Let_def connect_errors_def setClientFilter_def)
      next
        case f: (Inr lp)
        obtain t1 c1 t2 c2 e where s: "conn_reset ?cf lp dmac rip (htons port) (cli_conn c, c) = Some (t1, c1)"
          "sendSyn ?cf (t1, c1) = Some (t2, c2)" "r = None"
          and d: "addConnEntry e (connHashKey rip (htons port)) 0 (c2\<lparr>cli_conn := t2, conn_cnt := conn_cnt c2 + 1\<rparr>) = Some c'"
          using assms rip cnt m Inr f by (auto simp: connect_def Let_def with_cli_def bind_eq_Some_conv)
        have "cli_conn c' = t2" using addConnEntry_cli [OF d] by simp
        then show ?thesis using s rip cnt conn_reset_open [OF s(1)] sendSyn_open [OF s(2)] by simp
      qed
    qed
  qed
qed



subsection \<open>Reopening\<close>

lemma reconnect_open: "\<not> isClosed (cli_conn c) \<Longrightarrow> reconnect w h env now c = Some c"
  by (simp add: reconnect_def)

lemma reconnect_early: "now < next_conn_ts c \<Longrightarrow> reconnect w h env now c = Some c"
  by (simp add: reconnect_def)


definition quiet_user :: "'c UserHandler" where
  "quiet_user = \<lparr>onTcpConnectFailed = Some, onTcpConnected = Some, onTcpDisconnect = Some, onTcpData = (\<lambda>_ s. Some (0, s)),
     onSendTimeout = Some, onRecvTimeout = Some\<rparr>"


end
