(* ===== verification/Socket.thy ===== *)
theory Socket
  imports TcpInput
begin

text \<open>
  The socket transports of \<^verbatim>\<open>Socket.h\<close>. The system calls are a parameter: a record of functions
  on a state \<open>'o\<close> of the operating system, which also stands for whatever else the user's handlers
  change. A call that returns a negative number in C returns \<open>False\<close> or \<open>None\<close> here, and
  \<open>os_errno\<close> is the error number afterwards. Times are seconds; the addresses of the calls are a
  pair of an address and a port in network byte order.
\<close>

subsection \<open>The system calls\<close>

datatype errno = EAGAIN | EINPROGRESS | EALREADY | EISCONN | EBADF | EOTHER nat

datatype sock_kind = SockStream | SockDgram | SockRaw

datatype sock_opt = TCP_NODELAY | SO_REUSEADDR | IP_MULTICAST_TTL | IP_ADD_MEMBERSHIP u32 u32 | PACKET_ADD_MEMBERSHIP nat

datatype sock_addr = Inet u32 u16 | Link nat

record 'o Sys =
  os_errno :: "'o \<Rightarrow> errno"
  os_strerror :: "errno \<Rightarrow> string"
  os_socket :: "sock_kind \<Rightarrow> 'o \<Rightarrow> int option \<times> 'o"
  os_close :: "int \<Rightarrow> 'o \<Rightarrow> 'o"
  os_nonblock :: "int \<Rightarrow> 'o \<Rightarrow> bool \<times> 'o"
  os_setsockopt :: "sock_opt \<Rightarrow> int \<Rightarrow> 'o \<Rightarrow> bool \<times> 'o"
  os_bind :: "sock_addr \<Rightarrow> int \<Rightarrow> 'o \<Rightarrow> bool \<times> 'o"
  os_listen :: "int \<Rightarrow> 'o \<Rightarrow> bool \<times> 'o"
  os_accept :: "int \<Rightarrow> 'o \<Rightarrow> int option \<times> 'o"
  os_connect :: "sock_addr \<Rightarrow> int \<Rightarrow> 'o \<Rightarrow> bool \<times> 'o"
  os_send :: "u8 list \<Rightarrow> bool \<Rightarrow> int \<Rightarrow> 'o \<Rightarrow> nat option \<times> 'o"
  os_sendto :: "u8 list \<Rightarrow> sock_addr \<Rightarrow> int \<Rightarrow> 'o \<Rightarrow> nat option \<times> 'o"
  os_read :: "nat \<Rightarrow> int \<Rightarrow> 'o \<Rightarrow> u8 list option \<times> 'o"
  os_recvfrom :: "nat \<Rightarrow> int \<Rightarrow> 'o \<Rightarrow> (u8 list \<times> sock_addr) option \<times> 'o"

text \<open>The message that \<^verbatim>\<open>snprintf\<close> leaves in an array of 64 bytes.\<close>

definition error_text :: "string \<Rightarrow> string \<Rightarrow> string" where
  "error_text msg err = take 63 (msg @ '' '' @ err)"

subsection \<open>A TCP connection\<close>

record SConf =
  RecvBufSize :: u32
  MaxConns :: u32
  SSendTimeoutSec :: u32
  SRecvTimeoutSec :: u32
  SConnRetrySec :: u32
  SConnTimeoutSec :: u32

record SocketTcpConnection =
  sk_fd :: int
  sk_send_ts :: int
  sk_expire_ts :: int
  sk_head :: u32
  sk_tail :: u32
  sk_recvbuf :: "u8 list"
  sk_error :: string

type_synonym ('s, 'o) sk = "'s SocketTcpConnection_scheme \<times> 'o"

text \<open>What the user's handler does with a connection.\<close>

record ('s, 'o) SockHandler =
  sk_onTcpConnected :: "('s, 'o) sk \<Rightarrow> ('s, 'o) sk"
  sk_onTcpDisconnect :: "('s, 'o) sk \<Rightarrow> ('s, 'o) sk"
  sk_onTcpConnectFailed :: "('s, 'o) sk \<Rightarrow> ('s, 'o) sk"
  sk_onTcpData :: "u8 list \<Rightarrow> ('s, 'o) sk \<Rightarrow> u32 \<times> ('s, 'o) sk"
  sk_onSendTimeout :: "('s, 'o) sk \<Rightarrow> ('s, 'o) sk"
  sk_onRecvTimeout :: "('s, 'o) sk \<Rightarrow> ('s, 'o) sk"

definition isConnected :: "'s SocketTcpConnection_scheme \<Rightarrow> bool" where
  "isConnected s \<longleftrightarrow> 0 \<le> sk_fd s"

definition sk_saveError :: "'o Sys \<Rightarrow> string \<Rightarrow> bool \<Rightarrow> ('s, 'o) sk \<Rightarrow> ('s, 'o) sk" where
  "sk_saveError S msg check_errno sw = (case sw of (s, w) \<Rightarrow>
     (s\<lparr>sk_error := error_text msg (if check_errno then os_strerror S (os_errno S w) else '''')\<rparr>, w))"

definition sk_close :: "'o Sys \<Rightarrow> string \<Rightarrow> bool \<Rightarrow> ('s, 'o) sk \<Rightarrow> ('s, 'o) sk" where
  "sk_close S reason check_errno sw =
     (if 0 \<le> sk_fd (fst sw) then
        case sk_saveError S reason check_errno sw of (s, w) \<Rightarrow> (s\<lparr>sk_fd := - 1\<rparr>, os_close S (sk_fd s) w)
      else sw)"

definition sk_writeSome :: "SConf \<Rightarrow> 'o Sys \<Rightarrow> int \<Rightarrow> u8 list \<Rightarrow> bool \<Rightarrow> ('s, 'o) sk \<Rightarrow> nat option \<times> ('s, 'o) sk" where
  "sk_writeSome cf S now data more_data sw = (case sw of (s, w) \<Rightarrow>
     let (ret, w) = os_send S data more_data (sk_fd s) w;
         (ret, sw) = (case ret of
            Some n \<Rightarrow> (Some n, s, w)
          | None \<Rightarrow> if os_errno S w = EAGAIN then (Some 0, s, w) else (None, sk_close S ''send error'' True (s, w)));
         sw = (if SSendTimeoutSec cf \<noteq> 0 then ((fst sw)\<lparr>sk_send_ts := now\<rparr>, snd sw) else sw)
     in (ret, sw))"

text \<open>The loop of \<^verbatim>\<open>write\<close> ends only when the system takes the rest of the data; \<open>clock\<close> is the time of the call.\<close>

partial_function (option) sk_write ::
  "SConf \<Rightarrow> 'o Sys \<Rightarrow> ('o \<Rightarrow> int) \<Rightarrow> u8 list \<Rightarrow> bool \<Rightarrow> ('s, 'o) sk \<Rightarrow> (bool \<times> ('s, 'o) sk) option" where
  "sk_write cf S clock data more_data sw =
     (case sk_writeSome cf S (clock (snd sw)) data more_data sw of
        (None, sw) \<Rightarrow> Some (False, sw)
      | (Some sent, sw) \<Rightarrow>
          if drop sent data = [] then Some (True, sw) else sk_write cf S clock (drop sent data) more_data sw)"

definition sk_writeNonblock :: "SConf \<Rightarrow> 'o Sys \<Rightarrow> int \<Rightarrow> u8 list \<Rightarrow> bool \<Rightarrow> ('s, 'o) sk \<Rightarrow> bool \<times> ('s, 'o) sk" where
  "sk_writeNonblock cf S now data more_data sw =
     (case sk_writeSome cf S now data more_data sw of (ret, sw) \<Rightarrow>
        if ret \<noteq> Some (length data) then (False, sk_close S ''send error'' True sw) else (True, sw))"

text \<open>What \<^verbatim>\<open>read\<close> does with the bytes that the handler has left over.\<close>

definition sk_keepRest :: "SConf \<Rightarrow> 'o Sys \<Rightarrow> u32 \<Rightarrow> ('s, 'o) sk \<Rightarrow> ('s, 'o) sk option" where
  "sk_keepRest cf S remaining sw = (case sw of (s, w) \<Rightarrow>
     if remaining = 0 then Some (s\<lparr>sk_head := 0, sk_tail := 0\<rparr>, w)
     else do {
       let s = s\<lparr>sk_head := sk_tail s - remaining\<rparr>;
       if RecvBufSize cf div 2 \<le> sk_head s then do {
         mem \<leftarrow> memcpy_down (unat (sk_head s)) (unat remaining) (sk_recvbuf s);
         Some (s\<lparr>sk_recvbuf := mem, sk_head := 0, sk_tail := remaining\<rparr>, w)
       }
       else if sk_tail s = RecvBufSize cf then Some (sk_close S ''recv buf full'' False (s, w))
       else Some (s, w)
     })"

definition sk_read ::
  "SConf \<Rightarrow> 'o Sys \<Rightarrow> (u8 list \<Rightarrow> ('s, 'o) sk \<Rightarrow> u32 \<times> ('s, 'o) sk) \<Rightarrow> ('s, 'o) sk \<Rightarrow> (bool \<times> ('s, 'o) sk) option" where
  "sk_read cf S handler sw = (case sw of (s, w) \<Rightarrow>
     case os_read S (unat (RecvBufSize cf - sk_tail s)) (sk_fd s) w of
       (None, w) \<Rightarrow> Some (False, if os_errno S w = EAGAIN then (s, w) else sk_close S ''read error'' True (s, w))
     | (Some [], w) \<Rightarrow> Some (False, sk_close S ''remote close'' False (s, w))
     | (Some bs, w) \<Rightarrow> do {
         mem \<leftarrow> store_bytes (unat (sk_tail s)) bs (sk_recvbuf s);
         let s = s\<lparr>sk_recvbuf := mem, sk_tail := sk_tail s + of_nat (length bs)\<rparr>;
         data \<leftarrow> load_bytes (unat (sk_head s)) (unat (sk_tail s - sk_head s)) (sk_recvbuf s);
         let (remaining, s, w) = handler data (s, w);
         map_option (Pair True) (sk_keepRest cf S remaining (s, w))
       })"

definition sk_pollConn :: "SConf \<Rightarrow> 'o Sys \<Rightarrow> ('s, 'o) SockHandler \<Rightarrow> int \<Rightarrow> ('s, 'o) sk \<Rightarrow> ('s, 'o) sk option" where
  "sk_pollConn cf S h now sw = do {
     let sw = (if SSendTimeoutSec cf \<noteq> 0 \<and> sk_send_ts (fst sw) + uint (SSendTimeoutSec cf) \<le> now
               then case sk_onSendTimeout h sw of (s, w) \<Rightarrow> (s\<lparr>sk_send_ts := now\<rparr>, w) else sw);
     (got_data, sw) \<leftarrow> sk_read cf S (sk_onTcpData h) sw;
     if SRecvTimeoutSec cf \<noteq> 0 then
       let (got_data, sw) = (if \<not> got_data \<and> sk_expire_ts (fst sw) \<le> now then (True, sk_onRecvTimeout h sw) else (got_data, sw))
       in Some (if got_data then ((fst sw)\<lparr>sk_expire_ts := now + uint (SRecvTimeoutSec cf)\<rparr>, snd sw) else sw)
     else Some sw
   }"

definition sk_open :: "SConf \<Rightarrow> 'o Sys \<Rightarrow> int \<Rightarrow> int \<Rightarrow> ('s, 'o) sk \<Rightarrow> bool \<times> ('s, 'o) sk" where
  "sk_open cf S now fd sw = (case sw of (s, w) \<Rightarrow>
     let s = s\<lparr>sk_fd := fd, sk_head := 0, sk_tail := 0, sk_send_ts := now, sk_expire_ts := now + uint (SRecvTimeoutSec cf)\<rparr>
     in case os_nonblock S fd w of
          (False, w) \<Rightarrow> (False, sk_close S ''fcntl O_NONBLOCK error'' True (s, w))
        | (True, w) \<Rightarrow>
            (case os_setsockopt S TCP_NODELAY fd w of
               (False, w) \<Rightarrow> (False, sk_close S ''setsockopt TCP_NODELAY error'' True (s, w))
             | (True, w) \<Rightarrow> (True, s, w)))"

subsection \<open>The client\<close>

record SocketTcpClient = SocketTcpConnection +
  report_disconnect :: bool
  conn_fd :: int
  sk_next_conn_ts :: int
  conn_expire_ts :: int
  server_addr :: sock_addr
  sk_local_port :: u16

definition int64_max :: int where
  "int64_max = 2 ^ 63 - 1"

text \<open>\<open>pton\<close> is \<^verbatim>\<open>inet_pton\<close>, which leaves the address as it was when the text is malformed.\<close>

definition sk_client_init ::
  "(string \<Rightarrow> u32 option) \<Rightarrow> string \<Rightarrow> u16 \<Rightarrow> u16 \<Rightarrow> 's SocketTcpClient_scheme \<Rightarrow> 's SocketTcpClient_scheme" where
  "sk_client_init pton server_ip server_port local_port s =
     (let old = (case server_addr s of Inet a p \<Rightarrow> a | Link n \<Rightarrow> 0)
      in s\<lparr>server_addr := Inet (case pton server_ip of Some a \<Rightarrow> a | None \<Rightarrow> old) (htons server_port),
           sk_local_port := htons local_port\<rparr>)"

definition sk_allowReconnect :: "'s SocketTcpClient_scheme \<Rightarrow> 's SocketTcpClient_scheme" where
  "sk_allowReconnect s = s\<lparr>sk_next_conn_ts := 0\<rparr>"

datatype connected = Failed | Pending | Success

type_synonym ('s, 'o) skc = "'s SocketTcpClient_scheme \<times> 'o"

text \<open>The first half of \<^verbatim>\<open>connect\<close> makes a non-blocking socket; \<open>Inl\<close> is an early return.\<close>

definition sk_newSocket :: "SConf \<Rightarrow> 'o Sys \<Rightarrow> int \<Rightarrow> ('s, 'o) skc \<Rightarrow> (connected \<times> ('s, 'o) skc) + ('s, 'o) skc" where
  "sk_newSocket cf S now sw = (case sw of (s, w) \<Rightarrow>
     if now < sk_next_conn_ts s then Inl (Pending, s, w)
     else
       let s = s\<lparr>sk_next_conn_ts := (if SConnRetrySec cf \<noteq> 0 then now + uint (SConnRetrySec cf) else int64_max)\<rparr>
       in case os_socket S SockStream w of
            (None, w) \<Rightarrow> Inl (Failed, sk_saveError S ''socket error'' True (s, w))
          | (Some fd, w) \<Rightarrow>
              (case (if sk_local_port s \<noteq> 0 then os_bind S (Inet 0 (sk_local_port s)) fd w else (True, w)) of
                 (False, w) \<Rightarrow> (case sk_saveError S ''bind error'' True (s, w) of (s, w) \<Rightarrow> Inl (Failed, s, os_close S fd w))
               | (True, w) \<Rightarrow>
                   (case os_nonblock S fd w of
                      (False, w) \<Rightarrow> (case sk_saveError S ''fcntl O_NONBLOCK error'' True (s, w) of (s, w) \<Rightarrow> Inl (Failed, s, os_close S fd w))
                    | (True, w) \<Rightarrow>
                        Inr (s\<lparr>conn_fd := fd,
                               conn_expire_ts := (if SConnTimeoutSec cf \<noteq> 0 then now + uint (SConnTimeoutSec cf) else int64_max)\<rparr>, w))))"

text \<open>The second half asks the system about the connection.\<close>

definition sk_tryConnect :: "SConf \<Rightarrow> 'o Sys \<Rightarrow> int \<Rightarrow> ('s, 'o) skc \<Rightarrow> connected \<times> ('s, 'o) skc" where
  "sk_tryConnect cf S now sw = (case sw of (s, w) \<Rightarrow>
     case os_connect S (server_addr s) (conn_fd s) w of (ok, w) \<Rightarrow>
       let e = os_errno S w in
       if ok \<or> e = EISCONN then
         (case sk_open cf S now (conn_fd s) (s, w) of
            (opened, s, w) \<Rightarrow> (if opened then Success else Failed, s\<lparr>conn_fd := - 1\<rparr>, w))
       else if (e = EINPROGRESS \<or> e = EALREADY) \<and> now < conn_expire_ts s then (Pending, s, w)
       else case (if now < conn_expire_ts s then sk_saveError S ''connect error'' True (s, w)
                  else sk_saveError S ''connect expired'' False (s, w)) of
              (s, w) \<Rightarrow> (Failed, s\<lparr>conn_fd := - 1\<rparr>, os_close S (conn_fd s) w))"

definition sk_connect :: "SConf \<Rightarrow> 'o Sys \<Rightarrow> int \<Rightarrow> ('s, 'o) skc \<Rightarrow> connected \<times> ('s, 'o) skc" where
  "sk_connect cf S now sw =
     (case (if conn_fd (fst sw) < 0 then sk_newSocket cf S now sw else Inr sw) of
        Inl r \<Rightarrow> r
      | Inr sw \<Rightarrow> sk_tryConnect cf S now sw)"

definition sk_client_poll ::
  "SConf \<Rightarrow> 'o Sys \<Rightarrow> ('s SocketTcpClient_ext, 'o) SockHandler \<Rightarrow> int \<Rightarrow> ('s, 'o) skc \<Rightarrow> ('s, 'o) skc option" where
  "sk_client_poll cf S h now sw =
     (if isConnected (fst sw) then sk_pollConn cf S h now sw
      else
        let sw = (if report_disconnect (fst sw)
                  then case sk_onTcpDisconnect h sw of (s, w) \<Rightarrow> (s\<lparr>report_disconnect := False\<rparr>, w) else sw)
        in case sk_connect cf S now sw of
             (Failed, sw) \<Rightarrow> Some (sk_onTcpConnectFailed h sw)
           | (Pending, sw) \<Rightarrow> Some sw
           | (Success, s, w) \<Rightarrow> sk_pollConn cf S h now (sk_onTcpConnected h (s\<lparr>report_disconnect := True\<rparr>, w)))"

subsection \<open>The server\<close>

text \<open>\<^verbatim>\<open>conns_\<close> is an array of pointers into \<^verbatim>\<open>conns_data_\<close>; the pointers are indices here.\<close>

record 's SocketTcpServer =
  listenfd :: int
  sv_error :: string
  conns_cnt :: u32
  conns_ptr :: "nat list"
  conns_data :: "'s SocketTcpConnection_scheme list"

definition sv_close :: "'o Sys \<Rightarrow> string \<Rightarrow> 's SocketTcpServer \<times> 'o \<Rightarrow> 's SocketTcpServer \<times> 'o" where
  "sv_close S reason sw = (case sw of (s, w) \<Rightarrow>
     if 0 \<le> listenfd s
     then (s\<lparr>sv_error := error_text reason (os_strerror S (os_errno S w)), listenfd := - 1\<rparr>, os_close S (listenfd s) w)
     else (s, w))"

definition sv_init ::
  "SConf \<Rightarrow> 'o Sys \<Rightarrow> u32 \<Rightarrow> u16 \<Rightarrow> 's SocketTcpServer \<times> 'o \<Rightarrow> bool \<times> 's SocketTcpServer \<times> 'o" where
  "sv_init cf S server_ip server_port sw = (case sw of (s, w) \<Rightarrow>
     let s = s\<lparr>conns_ptr := [0..<unat (MaxConns cf)]\<rparr>
     in case os_socket S SockStream w of
          (None, w) \<Rightarrow> (False, s\<lparr>listenfd := - 1, sv_error := error_text ''socket error'' (os_strerror S (os_errno S w))\<rparr>, w)
        | (Some fd, w) \<Rightarrow>
            let s = s\<lparr>listenfd := fd\<rparr> in
            (case os_nonblock S fd w of (False, w) \<Rightarrow> (False, sv_close S ''fcntl O_NONBLOCK error'' (s, w)) | (True, w) \<Rightarrow>
            (case os_setsockopt S SO_REUSEADDR fd w of (False, w) \<Rightarrow> (False, sv_close S ''setsockopt SO_REUSEADDR error'' (s, w)) | (True, w) \<Rightarrow>
            (case os_bind S (Inet server_ip (htons server_port)) fd w of (False, w) \<Rightarrow> (False, sv_close S ''bind error'' (s, w)) | (True, w) \<Rightarrow>
            (case os_listen S fd w of (False, w) \<Rightarrow> (False, sv_close S ''listen error'' (s, w)) | (True, w) \<Rightarrow> (True, s, w))))))"

text \<open>Accepting one connection into the first unused slot.\<close>

definition sv_accept ::
  "SConf \<Rightarrow> 'o Sys \<Rightarrow> ('s, 'o) SockHandler \<Rightarrow> int \<Rightarrow> 's SocketTcpServer \<times> 'o \<Rightarrow> ('s SocketTcpServer \<times> 'o) option" where
  "sv_accept cf S h now sw = (case sw of (s, w) \<Rightarrow>
     if conns_cnt s < MaxConns cf then do {
       p \<leftarrow> arr_get (conns_ptr s) (unat (conns_cnt s));
       conn \<leftarrow> arr_get (conns_data s) p;
       case os_accept S (listenfd s) w of
         (None, w) \<Rightarrow> Some (s, w)
       | (Some fd, w) \<Rightarrow>
           (case sk_open cf S now fd (conn, w) of
              (False, conn, w) \<Rightarrow> Some (s\<lparr>conns_data := (conns_data s)[p := conn]\<rparr>, w)
            | (True, conn, w) \<Rightarrow>
                (case sk_onTcpConnected h (conn, w) of
                   (conn, w) \<Rightarrow> Some (s\<lparr>conns_cnt := conns_cnt s + 1, conns_data := (conns_data s)[p := conn]\<rparr>, w)))
     }
     else Some (s, w))"

definition swap_ptr :: "nat \<Rightarrow> nat \<Rightarrow> 'a list \<Rightarrow> 'a list" where
  "swap_ptr i j xs = xs[i := xs ! j, j := xs ! i]"

text \<open>Polling the connections; one that was lost changes place with the last one in use.\<close>

function sv_pollLoop ::
  "SConf \<Rightarrow> 'o Sys \<Rightarrow> ('s, 'o) SockHandler \<Rightarrow> int \<Rightarrow> nat \<Rightarrow> 's SocketTcpServer \<times> 'o \<Rightarrow> ('s SocketTcpServer \<times> 'o) option" where
  "sv_pollLoop cf S h now i (s, w) =
     (if i < unat (conns_cnt s) then
        case arr_get (conns_ptr s) i of None \<Rightarrow> None | Some p \<Rightarrow>
        (case arr_get (conns_data s) p of None \<Rightarrow> None | Some conn \<Rightarrow>
        (case sk_pollConn cf S h now (conn, w) of None \<Rightarrow> None | Some (conn, w) \<Rightarrow>
           if isConnected conn then
             sv_pollLoop cf S h now (Suc i) (s\<lparr>conns_data := (conns_data s)[p := conn]\<rparr>, w)
           else
             (case sk_onTcpDisconnect h (conn, w) of (conn, w) \<Rightarrow>
                sv_pollLoop cf S h now i
                  (s\<lparr>conns_cnt := conns_cnt s - 1, conns_ptr := swap_ptr i (unat (conns_cnt s - 1)) (conns_ptr s),
                     conns_data := (conns_data s)[p := conn]\<rparr>, w))))
      else Some (s, w))"
  by pat_completeness auto
termination
proof (relation "measure (\<lambda>(cf, S, h, now, i, s, w). unat (conns_cnt s) - i)", goal_cases)
  case (3 cf S h now i s w)
  then have "conns_cnt s \<noteq> 0" by auto
  then show ?case using 3 by (simp add: unat_minus_one)
qed simp_all

declare sv_pollLoop.simps [simp del]

definition sv_poll ::
  "SConf \<Rightarrow> 'o Sys \<Rightarrow> ('s, 'o) SockHandler \<Rightarrow> int \<Rightarrow> 's SocketTcpServer \<times> 'o \<Rightarrow> ('s SocketTcpServer \<times> 'o) option" where
  "sv_poll cf S h now sw = do {
     sw \<leftarrow> sv_accept cf S h now sw;
     sv_pollLoop cf S h now 0 sw
   }"

text \<open>\<^verbatim>\<open>foreachConn\<close>, for the connections in use in the order of the pointers.\<close>

fun sv_foreachLoop ::
  "(('s, 'o) sk \<Rightarrow> ('s, 'o) sk) \<Rightarrow> nat list \<Rightarrow> 's SocketTcpServer \<times> 'o \<Rightarrow> ('s SocketTcpServer \<times> 'o) option" where
  "sv_foreachLoop f [] sw = Some sw"
| "sv_foreachLoop f (i # is) (s, w) = do {
     p \<leftarrow> arr_get (conns_ptr s) i;
     conn \<leftarrow> arr_get (conns_data s) p;
     let (conn, w) = f (conn, w);
     sv_foreachLoop f is (s\<lparr>conns_data := (conns_data s)[p := conn]\<rparr>, w)
   }"

definition sv_foreachConn ::
  "(('s, 'o) sk \<Rightarrow> ('s, 'o) sk) \<Rightarrow> 's SocketTcpServer \<times> 'o \<Rightarrow> ('s SocketTcpServer \<times> 'o) option" where
  "sv_foreachConn f sw = sv_foreachLoop f [0..<unat (conns_cnt (fst sw))] sw"

subsection \<open>Datagrams and raw frames\<close>

text \<open>
  \<^verbatim>\<open>SocketUdpReceiver\<close>, \<^verbatim>\<open>SocketUdpSender\<close> and \<^verbatim>\<open>SocketEthReceiver\<close> have a descriptor and an
  error text; the buffer of the receivers only carries the bytes of one call to the handler.
\<close>

record SocketUdp =
  ud_fd :: int
  ud_error :: string

definition ud_close :: "'o Sys \<Rightarrow> string \<Rightarrow> SocketUdp \<times> 'o \<Rightarrow> SocketUdp \<times> 'o" where
  "ud_close S reason sw = (case sw of (s, w) \<Rightarrow>
     if 0 \<le> ud_fd s
     then (s\<lparr>ud_error := error_text reason (os_strerror S (os_errno S w)), ud_fd := - 1\<rparr>, os_close S (ud_fd s) w)
     else (s, w))"

text \<open>The start of each \<^verbatim>\<open>init\<close>: the socket and its non-blocking mode.\<close>

definition ud_socket :: "'o Sys \<Rightarrow> sock_kind \<Rightarrow> SocketUdp \<times> 'o \<Rightarrow> bool \<times> SocketUdp \<times> 'o" where
  "ud_socket S k sw = (case sw of (s, w) \<Rightarrow>
     case os_socket S k w of
       (None, w) \<Rightarrow> (False, s\<lparr>ud_fd := - 1, ud_error := error_text ''socket error'' (os_strerror S (os_errno S w))\<rparr>, w)
     | (Some fd, w) \<Rightarrow>
         (case os_nonblock S fd w of
            (False, w) \<Rightarrow> (False, ud_close S ''fcntl O_NONBLOCK error'' (s\<lparr>ud_fd := fd\<rparr>, w))
          | (True, w) \<Rightarrow> (True, s\<lparr>ud_fd := fd\<rparr>, w)))"

text \<open>One further step, whose failure closes the socket.\<close>

definition ud_step ::
  "'o Sys \<Rightarrow> (int \<Rightarrow> 'o \<Rightarrow> bool \<times> 'o) \<Rightarrow> string \<Rightarrow> bool \<times> SocketUdp \<times> 'o \<Rightarrow> bool \<times> SocketUdp \<times> 'o" where
  "ud_step S f msg r = (case r of
     (False, sw) \<Rightarrow> (False, sw)
   | (True, s, w) \<Rightarrow> (case f (ud_fd s) w of (True, w) \<Rightarrow> (True, s, w) | (False, w) \<Rightarrow> (False, ud_close S msg (s, w))))"

definition udpReceiver_init :: "'o Sys \<Rightarrow> u32 \<Rightarrow> u16 \<Rightarrow> u32 option \<Rightarrow> SocketUdp \<times> 'o \<Rightarrow> bool \<times> SocketUdp \<times> 'o" where
  "udpReceiver_init S dest_ip dest_port subscribe_ip sw =
     (let r = ud_socket S SockDgram sw;
          r = ud_step S (os_setsockopt S SO_REUSEADDR) ''setsockopt SO_REUSEADDR error'' r;
          r = ud_step S (os_bind S (Inet dest_ip (htons dest_port))) ''bind failed'' r
      in case subscribe_ip of
           None \<Rightarrow> r
         | Some ip \<Rightarrow> ud_step S (os_setsockopt S (IP_ADD_MEMBERSHIP ip dest_ip)) ''setsockopt IP_ADD_MEMBERSHIP failed'' r)"

definition udpSender_init :: "'o Sys \<Rightarrow> u32 \<Rightarrow> u16 \<Rightarrow> u32 \<Rightarrow> u16 \<Rightarrow> SocketUdp \<times> 'o \<Rightarrow> bool \<times> SocketUdp \<times> 'o" where
  "udpSender_init S my_ip my_port dest_ip dest_port sw =
     (let r = ud_socket S SockDgram sw;
          r = ud_step S (os_bind S (Inet my_ip (htons my_port))) ''bind failed'' r;
          r = ud_step S (os_connect S (Inet dest_ip (htons dest_port))) ''connect error'' r
      in ud_step S (os_setsockopt S IP_MULTICAST_TTL) ''setsockopt IP_MULTICAST_TTL failed'' r)"

definition ethReceiver_init :: "'o Sys \<Rightarrow> nat \<Rightarrow> bool \<Rightarrow> SocketUdp \<times> 'o \<Rightarrow> bool \<times> SocketUdp \<times> 'o" where
  "ethReceiver_init S ifindex promiscuous sw =
     (let r = ud_socket S SockRaw sw;
          r = ud_step S (os_bind S (Link ifindex)) ''bind error'' r
      in if promiscuous then ud_step S (os_setsockopt S (PACKET_ADD_MEMBERSHIP ifindex)) ''setsockopt PACKET_ADD_MEMBERSHIP'' r else r)"

text \<open>Reading: a handler sees the bytes of one datagram or frame.\<close>

definition ud_read :: "'o Sys \<Rightarrow> nat \<Rightarrow> (u8 list \<Rightarrow> 'o \<Rightarrow> 'o) \<Rightarrow> SocketUdp \<times> 'o \<Rightarrow> bool \<times> SocketUdp \<times> 'o" where
  "ud_read S bufsize handler sw = (case sw of (s, w) \<Rightarrow>
     case os_read S bufsize (ud_fd s) w of
       (Some (b # bs), w) \<Rightarrow> (True, s, handler (b # bs) w)
     | (_, w) \<Rightarrow> (False, s, w))"

definition ud_recvfrom :: "'o Sys \<Rightarrow> nat \<Rightarrow> (u8 list \<Rightarrow> sock_addr \<Rightarrow> 'o \<Rightarrow> 'o) \<Rightarrow> SocketUdp \<times> 'o \<Rightarrow> bool \<times> SocketUdp \<times> 'o" where
  "ud_recvfrom S bufsize handler sw = (case sw of (s, w) \<Rightarrow>
     case os_recvfrom S bufsize (ud_fd s) w of
       (Some (b # bs, src), w) \<Rightarrow> (True, s, handler (b # bs) src w)
     | (_, w) \<Rightarrow> (False, s, w))"

definition ud_sendto :: "'o Sys \<Rightarrow> u8 list \<Rightarrow> sock_addr \<Rightarrow> SocketUdp \<times> 'o \<Rightarrow> bool \<times> SocketUdp \<times> 'o" where
  "ud_sendto S data dst sw = (case sw of (s, w) \<Rightarrow>
     case os_sendto S data dst (ud_fd s) w of (ret, w) \<Rightarrow> (ret = Some (length data), s, w))"

definition ud_write :: "'o Sys \<Rightarrow> u8 list \<Rightarrow> SocketUdp \<times> 'o \<Rightarrow> bool \<times> SocketUdp \<times> 'o" where
  "ud_write S data sw = (case sw of (s, w) \<Rightarrow>
     case os_send S data False (ud_fd s) w of (ret, w) \<Rightarrow> (ret = Some (length data), s, w))"

end
