(* ===== verification/Slots.thy ===== *)
theory Slots
  imports Socket
begin

text \<open>
  The arrays of connections of the servers in \<^verbatim>\<open>Socket.h\<close> and \<^verbatim>\<open>Tcpdirect.h\<close>: an array of slots, an array of
  pointers to them, and the number of those in use, which come first. The loop of \<^verbatim>\<open>poll\<close> is the same
  in both; what it promises is proved once, in the locale \<open>poll_server\<close>.
\<close>

text \<open>The pointers are a permutation of the slots; those below \<open>n\<close> are \<open>ready\<close>, the others \<open>idle\<close>.\<close>

definition slots :: "nat \<Rightarrow> nat \<Rightarrow> nat list \<Rightarrow> 'c list \<Rightarrow> ('c \<Rightarrow> bool) \<Rightarrow> ('c \<Rightarrow> bool) \<Rightarrow> ('c \<Rightarrow> bool) \<Rightarrow> bool" where
  "slots N n ptr data good ready idle \<longleftrightarrow>
     distinct ptr \<and> set ptr = {..<N} \<and> length data = N \<and> n \<le> N \<and> (\<forall>c \<in> set data. good c)
     \<and> (\<forall>i < n. ready (data ! (ptr ! i))) \<and> (\<forall>i. n \<le> i \<and> i < N \<longrightarrow> idle (data ! (ptr ! i)))"

lemma slots_ptr:
  assumes "slots N n ptr data good ready idle"
  shows "length ptr = N" "i < N \<Longrightarrow> ptr ! i < N" "i < N \<Longrightarrow> j < N \<Longrightarrow> ptr ! i = ptr ! j \<longleftrightarrow> i = j"
    "i < N \<Longrightarrow> good (data ! (ptr ! i))" "i < N \<Longrightarrow> arr_get ptr i = Some (ptr ! i)"
    "i < N \<Longrightarrow> arr_get data (ptr ! i) = Some (data ! (ptr ! i))"
proof -
  have d: "distinct ptr" "set ptr = {..<N}" "length data = N" using assms by (simp_all add: slots_def)
  show l: "length ptr = N" using distinct_card [OF d(1)] d(2) by simp
  show p: "i < N \<Longrightarrow> ptr ! i < N" for i using nth_mem [of i ptr] d(2) l by auto
  show "i < N \<Longrightarrow> j < N \<Longrightarrow> ptr ! i = ptr ! j \<longleftrightarrow> i = j" using nth_eq_iff_index_eq [OF d(1)] l by simp
  show "i < N \<Longrightarrow> good (data ! (ptr ! i))" using p [of i] assms d(3) by (simp add: slots_def)
  show "i < N \<Longrightarrow> arr_get ptr i = Some (ptr ! i)" "i < N \<Longrightarrow> arr_get data (ptr ! i) = Some (data ! (ptr ! i))"
    using l p [of i] d(3) by (simp_all add: arr_get_def)
qed

lemma slots_nth:
  assumes "slots N n ptr data good ready idle" "i < N" "j < N"
  shows "data[ptr ! i := c] ! (ptr ! j) = (if j = i then c else data ! (ptr ! j))"
  using assms slots_ptr(2,3) [OF assms(1)] by (simp add: nth_list_update slots_def)

text \<open>Replacing a connection, where the slot behind the last one in use may come into use.\<close>

lemma slots_put:
  assumes "slots N n ptr data good ready idle" "i < N" "good c" "m = n \<or> m = Suc n \<and> i = n" "if i < m then ready c else idle c"
  shows "slots N m ptr (data[ptr ! i := c]) good ready idle"
proof -
  note at = slots_nth [OF assms(1,2)]
  have S: "m \<le> N" "\<forall>j < n. ready (data ! (ptr ! j))" "\<forall>j. n \<le> j \<and> j < N \<longrightarrow> idle (data ! (ptr ! j))"
    using assms(1,2,4) by (auto simp: slots_def)
  have "ready (data[ptr ! i := c] ! (ptr ! j))" if "j < m" for j
    using that S at [of j c] assms(4,5) by (auto simp: less_Suc_eq split: if_splits)
  moreover have "idle (data[ptr ! i := c] ! (ptr ! j))" if "m \<le> j" "j < N" for j
    using that S at [of j c] assms(4,5) by (auto split: if_splits)
  ultimately show ?thesis
    using assms(1,3) S(1) by (auto simp: slots_def dest!: subsetD [OF set_update_subset_insert])
qed

lemma unat_dec: "i < unat (n :: u32) \<Longrightarrow> unat (n - 1) = unat n - 1"
  by (intro unat_minus_one) auto

lemma unat_inc:
  assumes "n < (m :: u32)"
  shows "unat (n + 1) = unat n + 1"
proof -
  have "unat n + unat (1 :: u32) < 4294967296" using assms unat_lt_u32 [of m] unfolding unat_1 word_less_nat_alt by linarith
  then show ?thesis by (simp add: unat_add_u32_nowrap)
qed

lemma swap_ptr_nth:
  "i < length xs \<Longrightarrow> j < length xs \<Longrightarrow> k < length xs \<Longrightarrow> swap_ptr i j xs ! k = (if k = i then xs ! j else if k = j then xs ! i else xs ! k)"
  by (simp add: swap_ptr_def nth_list_update)

lemma swap_ptr_perm:
  assumes "i < length xs" "j < length xs"
  shows "mset (swap_ptr i j xs) = mset xs"
  unfolding swap_ptr_def by (rule mset_swap [OF assms(2,1)])

text \<open>A connection that was lost changes place with the last one in use.\<close>

lemma slots_del:
  assumes "slots N n ptr data good ready idle" "i < n" "good c" "idle c"
  shows "slots N (n - 1) (swap_ptr i (n - 1) ptr) (data[ptr ! i := c]) good ready idle"
    "j < i \<Longrightarrow> data[ptr ! i := c] ! (swap_ptr i (n - 1) ptr ! j) = data ! (ptr ! j)"
proof -
  have S: "n \<le> N" "length data = N" "set ptr = {..<N}" "distinct ptr" "\<forall>j < n. ready (data ! (ptr ! j))" "\<forall>j. n \<le> j \<and> j < N \<longrightarrow> idle (data ! (ptr ! j))"
    using assms(1) by (simp_all add: slots_def)
  note P = slots_ptr [OF assms(1)]
  let ?x = "swap_ptr i (n - 1) ptr"
  have m: "mset ?x = mset ptr" using assms(2) S(1) P(1) by (intro swap_ptr_perm) simp_all
  have xs: "distinct ?x" "set ?x = {..<N}" using mset_eq_setD [OF m] mset_eq_imp_distinct_iff [OF m] S by auto
  have at: "data[ptr ! i := c] ! (?x ! j) = (if j = n - 1 then c else if j = i then data ! (ptr ! (n - 1)) else data ! (ptr ! j))" if "j < N" for j
    using that assms(2) S P(1-3) by (auto simp: swap_ptr_nth nth_list_update)
  then show "j < i \<Longrightarrow> data[ptr ! i := c] ! (?x ! j) = data ! (ptr ! j)" using assms(2) S(1) by auto
  have "ready (data[ptr ! i := c] ! (?x ! j))" if "j < n - 1" for j
    using that at [of j] S assms(2) by auto
  moreover have "idle (data[ptr ! i := c] ! (?x ! j))" if "n - 1 \<le> j" "j < N" for j
    using that at [OF that(2)] S(6) assms(2,4) by (cases "j = n - 1") auto
  moreover have "good d" if "d \<in> set (data[ptr ! i := c])" for d
    using that assms(1,3) subsetD [OF set_update_subset_insert, of d data] by (auto simp: slots_def)
  ultimately show "slots N (n - 1) ?x (data[ptr ! i := c]) good ready idle" using xs S unfolding slots_def by simp
qed

text \<open>
  The loop of \<^verbatim>\<open>poll\<close>. \<open>env\<close> is what is assumed of the system and of the callbacks. \<open>ready\<close> is what polling a connection needs, \<open>up\<close> what holds of one that is still
  connected afterwards; \<open>rest\<close> are the other members of the server.
\<close>

locale poll_server =
  fixes env :: bool and N :: nat and cnt :: "'s \<Rightarrow> nat" and ptr :: "'s \<Rightarrow> nat list" and data :: "'s \<Rightarrow> 'c list" and rest :: "'s \<Rightarrow> 'r"
    and good ready up idle :: "'c \<Rightarrow> bool" and live :: "'c \<times> 'o \<Rightarrow> bool"
    and poll :: "'c \<times> 'o \<Rightarrow> ('c \<times> 'o) option" and gone :: "'c \<times> 'o \<Rightarrow> 'c \<times> 'o"
    and put del :: "nat \<Rightarrow> 'c \<Rightarrow> 's \<Rightarrow> 's" and loop :: "nat \<Rightarrow> 's \<times> 'o \<Rightarrow> ('s \<times> 'o) option"
  assumes put_val: "cnt (put p c s) = cnt s" "ptr (put p c s) = ptr s" "data (put p c s) = (data s)[p := c]" "rest (put p c s) = rest s"
    and del_val: "i < cnt s \<Longrightarrow> cnt (del i c s) = cnt s - 1" "i < cnt s \<Longrightarrow> ptr (del i c s) = swap_ptr i (cnt s - 1) (ptr s)"
      "data (del i c s) = (data s)[ptr s ! i := c]" "rest (del i c s) = rest s"
    and poll_ok: "env \<Longrightarrow> good c \<Longrightarrow> ready c \<Longrightarrow> \<exists>c' w'. poll (c, w) = Some (c', w') \<and> good c' \<and> (live (c', w') \<longrightarrow> up c')"
    and gone_ok: "env \<Longrightarrow> good c \<Longrightarrow> \<not> live (c, w) \<Longrightarrow> gone (c, w) = (d, w') \<Longrightarrow> good d \<and> idle d"
    and up_ready: "up c \<Longrightarrow> ready c"
    and loop_end: "\<not> i < cnt s \<Longrightarrow> loop i (s, w) = Some (s, w)"
    and loop_step: "i < cnt s \<Longrightarrow> arr_get (ptr s) i = Some p \<Longrightarrow> arr_get (data s) p = Some c \<Longrightarrow> poll (c, w) = Some (c', w')
      \<Longrightarrow> loop i (s, w) = (if live (c', w') then loop (Suc i) (put p c' s, w') else case gone (c', w') of (d, w) \<Rightarrow> loop i (del i d s, w))"
begin

lemma loop_slots:
  assumes "env"
  shows "slots N (cnt s) (ptr s) (data s) good ready idle \<Longrightarrow> i \<le> cnt s \<Longrightarrow> \<forall>j < i. up (data s ! (ptr s ! j))
    \<Longrightarrow> \<exists>s' w'. loop i (s, w) = Some (s', w') \<and> slots N (cnt s') (ptr s') (data s') good up idle \<and> rest s' = rest s"
proof (induction "cnt s - i" arbitrary: i s w rule: less_induct)
  case less
  note P = slots_ptr [OF less.prems(1)]
  show ?case
  proof (cases "i < cnt s")
    case False
    then show ?thesis using less.prems loop_end [of i s w] by (auto simp: slots_def)
  next
    case True
    then have iN: "i < N" and r: "ready (data s ! (ptr s ! i))" using less.prems(1) by (auto simp: slots_def)
    let ?p = "ptr s ! i"
    obtain c w1 where c: "poll (data s ! ?p, w) = Some (c, w1)" "good c" "live (c, w1) \<longrightarrow> up c"
      using poll_ok [OF assms P(4) [OF iN] r, of w] by blast
    note run = loop_step [OF True P(5) [OF iN] P(6) [OF iN] c(1)]
    show ?thesis
    proof (cases "live (c, w1)")
      case con: True
      have "slots N (cnt s) (ptr s) ((data s)[?p := c]) good ready idle"
        using True con c up_ready [of c] by (intro slots_put [OF less.prems(1) iN]) simp_all
      moreover have "up ((data s)[?p := c] ! (ptr s ! j))" if "j < Suc i" for j
        using slots_nth [OF less.prems(1) iN, of j c] that con c(3) less.prems(3) iN by (auto simp: less_Suc_eq)
      ultimately show ?thesis unfolding run
        using con True less.hyps [of "put ?p c s" "Suc i" w1] by (simp add: put_val)
    next
      case False
      obtain d w2 where d: "gone (c, w1) = (d, w2)" by (cases "gone (c, w1)")
      note g = gone_ok [OF assms c(2) False d]
      note u = slots_del [OF less.prems(1) True conjunct1 [OF g] conjunct2 [OF g]]
      have "\<forall>j < i. up (data (del i d s) ! (ptr (del i d s) ! j))" using u(2) less.prems(3) True by (simp add: del_val)
      then show ?thesis unfolding run d prod.case if_not_P [OF False]
        using less.hyps [of "del i d s" i w2] u(1) True by (simp add: del_val)
    qed
  qed
qed

end

end
