(* ===== verification/SocketStream.thy ===== *)
theory SocketStream
  imports Slots
begin

text \<open>
  What the socket connection promises: the handler sees the bytes of the stream in order, each byte
  until it is consumed; a write is complete or the connection is closed; the server keeps its
  connections apart.
\<close>

subsection \<open>The receive buffer\<close>

definition sk_pending :: "'s SocketTcpConnection_scheme \<Rightarrow> u8 list" where
  "sk_pending s = take (unat (sk_tail s - sk_head s)) (drop (unat (sk_head s)) (sk_recvbuf s))"

definition sk_conf :: "SConf \<Rightarrow> bool" where
  "sk_conf cf \<longleftrightarrow> 0 < RecvBufSize cf \<and> even (unat (RecvBufSize cf))"

definition sk_inv :: "SConf \<Rightarrow> 's SocketTcpConnection_scheme \<Rightarrow> bool" where
  "sk_inv cf s \<longleftrightarrow> length (sk_recvbuf s) = unat (RecvBufSize cf) \<and> sk_head s \<le> sk_tail s \<and> sk_tail s \<le> RecvBufSize cf
     \<and> (isConnected s \<longrightarrow> sk_tail s < RecvBufSize cf)"

text \<open>
  What a callback may do with a connection: it may write, and it may close it. It has no access to
  the buffer. \<open>gh\<close> is any observation of the state that it leaves alone.
\<close>

definition keeps_buf :: "'s SocketTcpConnection_scheme \<Rightarrow> 's SocketTcpConnection_scheme \<Rightarrow> bool" where
  "keeps_buf s s' \<longleftrightarrow> sk_head s' = sk_head s \<and> sk_tail s' = sk_tail s \<and> sk_recvbuf s' = sk_recvbuf s
     \<and> (sk_fd s' = sk_fd s \<or> sk_fd s' = - 1)"

definition quiet :: "('o \<Rightarrow> 'g) \<Rightarrow> (('s, 'o) sk \<Rightarrow> ('s, 'o) sk) \<Rightarrow> bool" where
  "quiet gh f \<longleftrightarrow> (\<forall>s w s' w'. f (s, w) = (s', w') \<longrightarrow> keeps_buf s s' \<and> gh w' = gh w)"

lemma keeps_buf_facts:
  assumes "keeps_buf s s'"
  shows "sk_pending s' = sk_pending s" "sk_inv cf s \<Longrightarrow> sk_inv cf s'" "\<not> isConnected s \<Longrightarrow> \<not> isConnected s'"
  using assms by (auto simp: keeps_buf_def sk_pending_def sk_inv_def isConnected_def)

lemma keeps_buf_refl [simp]: "keeps_buf s s" "keeps_buf s (s\<lparr>sk_send_ts := x\<rparr>)" "keeps_buf s (s\<lparr>sk_expire_ts := x\<rparr>)"
  by (simp_all add: keeps_buf_def)

lemma keeps_buf_trans: "keeps_buf s s' \<Longrightarrow> keeps_buf s' s'' \<Longrightarrow> keeps_buf s s''"
  by (auto simp: keeps_buf_def)

lemma sk_close_val: "\<exists>s'. sk_close S r e (s, w) = (s', if isConnected s then os_close S (sk_fd s) w else w) \<and> keeps_buf s s' \<and> \<not> isConnected s'"
  by (simp add: sk_close_def sk_saveError_def isConnected_def keeps_buf_def)

text \<open>
  What the code relies on: a read returns at most as many bytes as were asked for, and the data
  handler says of at most the bytes it was shown that it wants to see them again.
\<close>

definition reads_ok :: "'o Sys \<Rightarrow> bool" where
  "reads_ok S \<longleftrightarrow> (\<forall>n fd w bs w'. os_read S n fd w = (Some bs, w') \<longrightarrow> length bs \<le> n)"

definition data_ok :: "(u8 list \<Rightarrow> ('s, 'o) sk \<Rightarrow> u32 \<times> ('s, 'o) sk) \<Rightarrow> bool" where
  "data_ok f \<longleftrightarrow> (\<forall>data s w r s' w'. f data (s, w) = (r, s', w') \<longrightarrow> unat r \<le> length data \<and> keeps_buf s s')"

text \<open>
  Two observations of the state: \<open>got\<close> are the bytes that reads have returned, \<open>eaten\<close> those the
  data handler has consumed.
\<close>

definition observes :: "'o Sys \<Rightarrow> ('o \<Rightarrow> u8 list) \<Rightarrow> ('o \<Rightarrow> u8 list) \<Rightarrow> (u8 list \<Rightarrow> ('s, 'o) sk \<Rightarrow> u32 \<times> ('s, 'o) sk) \<Rightarrow> bool" where
  "observes S got eaten f \<longleftrightarrow>
     (\<forall>n fd w r w'. os_read S n fd w = (r, w') \<longrightarrow> eaten w' = eaten w \<and> got w' = got w @ (case r of Some bs \<Rightarrow> bs | None \<Rightarrow> []))
     \<and> (\<forall>fd w. got (os_close S fd w) = got w \<and> eaten (os_close S fd w) = eaten w)
     \<and> (\<forall>data s w r s' w'. f data (s, w) = (r, s', w') \<longrightarrow>
          got w' = got w \<and> eaten w' = eaten w @ take (length data - unat r) data)"

lemma observesD:
  assumes "observes S got eaten f"
  shows "os_read S n fd w = (r, w') \<Longrightarrow> eaten w' = eaten w" "os_read S n fd w = (None, w') \<Longrightarrow> got w' = got w"
    "os_read S n fd w = (Some bs, w') \<Longrightarrow> got w' = got w @ bs"
    "got (os_close S fd w) = got w" "eaten (os_close S fd w) = eaten w"
    "f data (s, w) = (rr, s', w') \<Longrightarrow> got w' = got w" "f data (s, w) = (rr, s', w') \<Longrightarrow> eaten w' = eaten w @ take (length data - unat rr) data"
  using assms unfolding observes_def by fastforce+

lemma data_okD:
  assumes "data_ok f" "f data (s, w) = (r, s', w')"
  shows "unat r \<le> length data" "keeps_buf s s'"
  using assms unfolding data_ok_def by blast+

lemma quietD: "quiet gh f \<Longrightarrow> f (s, w) = (s', w') \<Longrightarrow> keeps_buf s s' \<and> gh w' = gh w"
  unfolding quiet_def by blast

definition in_step :: "('o \<Rightarrow> u8 list) \<Rightarrow> ('o \<Rightarrow> u8 list) \<Rightarrow> ('s, 'o) sk \<Rightarrow> bool" where
  "in_step got eaten sw \<longleftrightarrow> (case sw of (s, w) \<Rightarrow> got w = eaten w @ sk_pending s)"

lemma in_step_quiet:
  "in_step got eaten (s, w) \<Longrightarrow> keeps_buf s s' \<Longrightarrow> got w' = got w \<Longrightarrow> eaten w' = eaten w \<Longrightarrow> in_step got eaten (s', w')"
  by (auto simp: in_step_def keeps_buf_facts)

lemma sk_pending_val:
  assumes "length (sk_recvbuf s) = unat (RecvBufSize cf)" "sk_head s \<le> sk_tail s" "sk_tail s \<le> RecvBufSize cf"
  shows "sk_pending s = take (unat (sk_tail s) - unat (sk_head s)) (drop (unat (sk_head s)) (sk_recvbuf s))"
    and "length (sk_pending s) = unat (sk_tail s) - unat (sk_head s)"
proof -
  have d: "unat (sk_tail s - sk_head s) = unat (sk_tail s) - unat (sk_head s)" using assms(2) by (rule unat_sub)
  then show "sk_pending s = take (unat (sk_tail s) - unat (sk_head s)) (drop (unat (sk_head s)) (sk_recvbuf s))"
    by (simp add: sk_pending_def)
  show "length (sk_pending s) = unat (sk_tail s) - unat (sk_head s)" using assms d by (simp add: sk_pending_def word_le_nat_alt)
qed

text \<open>The bytes left over are the end of those the handler has seen.\<close>

lemma sk_keepRest_stream:
  assumes cf: "sk_conf cf" and m: "length (sk_recvbuf s) = unat (RecvBufSize cf)" "sk_head s \<le> sk_tail s" "sk_tail s \<le> RecvBufSize cf"
    and r: "unat r \<le> length (sk_pending s)"
  shows "\<exists>s' w'. sk_keepRest cf S r (s, w) = Some (s', w') \<and> sk_inv cf s'
    \<and> sk_pending s' = drop (length (sk_pending s) - unat r) (sk_pending s) \<and> (w' = w \<or> w' = os_close S (sk_fd s) w)
    \<and> (sk_fd s' = sk_fd s \<or> sk_fd s' = - 1)"
proof -
  let ?N = "unat (RecvBufSize cf)" and ?h = "unat (sk_head s)" and ?t = "unat (sk_tail s)"
  have c: "0 < ?N" "even ?N" using cf by (auto simp: sk_conf_def unat_gt_0)
  note p = sk_pending_val [OF m]
  have n: "?h \<le> ?t" "?t \<le> ?N" "unat r \<le> ?t - ?h" using m r p(2) by (simp_all add: word_le_nat_alt)
  let ?s = "s\<lparr>sk_head := sk_tail s - r\<rparr>"
  have hd: "unat (sk_tail s - r) = ?t - unat r" using n by (intro unat_sub) (simp add: word_le_nat_alt)
  have rest: "drop (length (sk_pending s) - unat r) (sk_pending s) = take (unat r) (drop (?t - unat r) (sk_recvbuf s))"
    unfolding p(2) unfolding p(1) using n by (simp add: drop_take)
  have m': "length (sk_recvbuf ?s) = ?N" "sk_head ?s \<le> sk_tail ?s" "sk_tail ?s \<le> RecvBufSize cf"
    using m n hd by (simp_all add: word_le_nat_alt)
  have ps: "sk_pending ?s = take (unat r) (drop (?t - unat r) (sk_recvbuf s))"
    using sk_pending_val(1) [OF m'] hd n by simp
  consider (none) "r = 0" | (move) "r \<noteq> 0" "RecvBufSize cf div 2 \<le> sk_tail s - r"
    | (full) "r \<noteq> 0" "\<not> RecvBufSize cf div 2 \<le> sk_tail s - r" "sk_tail s = RecvBufSize cf"
    | (keep) "r \<noteq> 0" "\<not> RecvBufSize cf div 2 \<le> sk_tail s - r" "sk_tail s \<noteq> RecvBufSize cf" by blast
  then show ?thesis
  proof cases
    case none
    then show ?thesis using cf m by (simp add: sk_keepRest_def sk_inv_def sk_pending_def sk_conf_def)
  next
    case move
    have half: "?N div 2 \<le> ?t - unat r" using move(2) hd by (simp add: word_le_nat_alt unat_div)
    then have le: "unat r \<le> ?N div 2" "unat r \<le> ?t - unat r" using n c by auto
    let ?bs = "take (unat r) (drop (?t - unat r) (sk_recvbuf s))"
    have bl: "length ?bs = unat r" using n m(1) by simp
    have "memcpy_down (?t - unat r) (unat r) (sk_recvbuf s) = Some (?bs @ drop (unat r) (sk_recvbuf s))"
      using n m(1) le bl by (simp add: memcpy_down_def load_bytes_def store_bytes_def)
    moreover have "unat r < ?N" using le(1) c by simp
    then have "sk_inv cf (s\<lparr>sk_recvbuf := ?bs @ drop (unat r) (sk_recvbuf s), sk_head := 0, sk_tail := r\<rparr>)"
      using bl m(1) by (simp add: sk_inv_def word_le_nat_alt word_less_nat_alt)
    moreover have "sk_pending (s\<lparr>sk_recvbuf := ?bs @ drop (unat r) (sk_recvbuf s), sk_head := 0, sk_tail := r\<rparr>) = ?bs"
      using bl by (simp add: sk_pending_def)
    ultimately show ?thesis using move hd by (simp add: sk_keepRest_def rest)
  next
    case full
    obtain s' where s': "sk_close S ''recv buf full'' False (?s, w) = (s', if isConnected ?s then os_close S (sk_fd ?s) w else w)"
      "keeps_buf ?s s'" "\<not> isConnected s'" using sk_close_val [of S "''recv buf full''" False ?s w] by blast
    have "sk_inv cf s'" using s'(2,3) m' by (auto simp: sk_inv_def keeps_buf_def)
    moreover have "sk_pending s' = drop (length (sk_pending s) - unat r) (sk_pending s)" using keeps_buf_facts(1) [OF s'(2)] ps rest by simp
    ultimately show ?thesis using full s' by (auto simp: sk_keepRest_def keeps_buf_def)
  next
    case keep
    have "sk_inv cf ?s" using keep m' by (auto simp: sk_inv_def)
    then show ?thesis using keep ps rest by (simp add: sk_keepRest_def)
  qed
qed

lemma sk_read_stream:
  assumes cf: "sk_conf cf" and inv: "sk_inv cf s" and S: "reads_ok S" and f: "data_ok f"
  shows "\<exists>g s' w'. sk_read cf S f (s, w) = Some (g, s', w') \<and> sk_inv cf s' \<and> (sk_fd s' = sk_fd s \<or> sk_fd s' = - 1)
    \<and> (\<forall>got eaten. observes S got eaten f \<longrightarrow> in_step got eaten (s, w) \<longrightarrow> in_step got eaten (s', w'))"
proof -
  let ?N = "unat (RecvBufSize cf)" and ?t = "unat (sk_tail s)"
  have I: "length (sk_recvbuf s) = ?N" "sk_head s \<le> sk_tail s" "sk_tail s \<le> RecvBufSize cf"
    using inv by (auto simp: sk_inv_def)
  obtain r w1 where rd: "os_read S (unat (RecvBufSize cf - sk_tail s)) (sk_fd s) w = (r, w1)" by (cases "os_read S (unat (RecvBufSize cf - sk_tail s)) (sk_fd s) w")
  have sub: "unat (RecvBufSize cf - sk_tail s) = ?N - ?t" using I(3) by (rule unat_sub)
  have cl: ?thesis if "r = None \<or> r = Some []" "sk_read cf S f (s, w) = Some (False, sk_close S m e (s, w1))" for m e
  proof -
    obtain s' where c: "sk_close S m e (s, w1) = (s', if isConnected s then os_close S (sk_fd s) w1 else w1)"
      "keeps_buf s s'" "\<not> isConnected s'" using sk_close_val [of S m e s w1] by blast
    have "in_step got eaten (s', if isConnected s then os_close S (sk_fd s) w1 else w1)"
      if "observes S got eaten f" "in_step got eaten (s, w)" for got eaten
      using in_step_quiet [OF that(2) c(2)] observesD [OF that(1)] rd \<open>r = None \<or> r = Some []\<close> by fastforce
    then show ?thesis using that(2) c keeps_buf_facts(2) [OF c(2) inv] by (auto simp: keeps_buf_def)
  qed
  consider (again) "r = None" "os_errno S w1 = EAGAIN" | (err) "r = None" "os_errno S w1 \<noteq> EAGAIN" | (eof) "r = Some []"
    | (data) b bs where "r = Some (b # bs)" by (metis list.exhaust option.exhaust)
  then show ?thesis
  proof cases
    case again
    then show ?thesis using rd inv observesD(1,2)
      by (intro exI [of _ False] exI [of _ s] exI [of _ w1]) (fastforce simp: sk_read_def in_step_def)
  next
    case err
    then show ?thesis using rd by (intro cl) (simp_all add: sk_read_def)
  next
    case eof
    then show ?thesis using rd by (intro cl) (simp_all add: sk_read_def)
  next
    case data
    let ?bs = "b # bs"
    have g: "length ?bs \<le> ?N - ?t" using S rd data sub unfolding reads_ok_def by metis
    define mem where "mem = take ?t (sk_recvbuf s) @ ?bs @ drop (?t + length ?bs) (sk_recvbuf s)"
    define s1 where "s1 = s\<lparr>sk_recvbuf := mem, sk_tail := sk_tail s + of_nat (length ?bs)\<rparr>"
    have t: "?t \<le> ?N" using I(3) by (simp add: word_le_nat_alt)
    have lt: "?t + length ?bs < 4294967296" using g t unat_lt_u32 [of "RecvBufSize cf"] by linarith
    then have bl: "unat (of_nat (length ?bs) :: u32) = length ?bs" by (intro unat_of_nat_small) simp
    then have t1: "unat (sk_tail s1) = ?t + length ?bs" unfolding s1_def using lt by (simp add: unat_add_u32_nowrap)
    have m1: "length (sk_recvbuf s1) = ?N" "sk_head s1 \<le> sk_tail s1" "sk_tail s1 \<le> RecvBufSize cf"
      using I g t t1 by (simp_all add: s1_def mem_def word_le_nat_alt)
    have p1: "sk_pending s1 = sk_pending s @ ?bs"
      unfolding sk_pending_val [OF m1] sk_pending_val [OF I] t1
      using I(1,2) t by (simp add: s1_def mem_def word_le_nat_alt Suc_diff_le drop_take)
    obtain rr s2 w2 where h: "f (sk_pending s1) (s1, w1) = (rr, s2, w2)" by (cases "f (sk_pending s1) (s1, w1)")
    note H = data_okD [OF f h]
    have m2: "length (sk_recvbuf s2) = ?N" "sk_head s2 \<le> sk_tail s2" "sk_tail s2 \<le> RecvBufSize cf" "sk_pending s2 = sk_pending s1"
      using m1 H(2) keeps_buf_facts(1) [OF H(2)] by (simp_all add: keeps_buf_def)
    obtain s3 w3 where k: "sk_keepRest cf S rr (s2, w2) = Some (s3, w3)" "sk_inv cf s3"
      "sk_pending s3 = drop (length (sk_pending s1) - unat rr) (sk_pending s1)" "w3 = w2 \<or> w3 = os_close S (sk_fd s2) w2" "sk_fd s3 = sk_fd s2 \<or> sk_fd s3 = - 1"
      using sk_keepRest_stream [OF cf m2(1-3), of rr S w2] H(1) m2(4) by auto
    have run: "sk_read cf S f (s, w) = Some (True, s3, w3)"
    proof -
      have "store_bytes ?t ?bs (sk_recvbuf s) = Some mem" using g t I(1) by (simp add: store_bytes_def mem_def)
      moreover have "load_bytes (unat (sk_head s1)) (unat (sk_tail s1 - sk_head s1)) (sk_recvbuf s1) = Some (sk_pending s1)"
        using m1 unat_sub [OF m1(2)] by (simp add: load_bytes_def sk_pending_def word_le_nat_alt)
      ultimately show ?thesis using data rd h k(1) unfolding sk_read_def s1_def by (simp add: Let_def)
    qed
    have "in_step got eaten (s3, w3)" if o: "observes S got eaten f" and i: "in_step got eaten (s, w)" for got eaten
    proof -
      note O = observesD [OF o]
      have "got w3 = got w2" "eaten w3 = eaten w2" using k(4) O(4,5) by auto
      moreover have "got w2 = eaten w @ sk_pending s1" using O(6) [OF h] O(3) [OF rd [unfolded data]] i p1 by (simp add: in_step_def)
      moreover have "eaten w2 = eaten w @ take (length (sk_pending s1) - unat rr) (sk_pending s1)" using O(7) [OF h] O(1) [OF rd] by simp
      ultimately show ?thesis unfolding in_step_def prod.case k(3) by (simp only: append_assoc append_take_drop_id)
    qed
    then show ?thesis using run k(2,5) H(2) by (auto simp: keeps_buf_def s1_def)
  qed
qed

subsection \<open>Polling a connection\<close>

definition handler_ok :: "('s, 'o) SockHandler \<Rightarrow> bool" where
  "handler_ok h \<longleftrightarrow> data_ok (sk_onTcpData h)
     \<and> (\<forall>f \<in> {sk_onSendTimeout h, sk_onRecvTimeout h, sk_onTcpConnected h, sk_onTcpDisconnect h, sk_onTcpConnectFailed h}. quiet (\<lambda>w. ()) f)"

definition watched :: "'o Sys \<Rightarrow> ('o \<Rightarrow> u8 list) \<Rightarrow> ('o \<Rightarrow> u8 list) \<Rightarrow> ('s, 'o) SockHandler \<Rightarrow> bool" where
  "watched S got eaten h \<longleftrightarrow> observes S got eaten (sk_onTcpData h)
     \<and> (\<forall>f \<in> {sk_onSendTimeout h, sk_onRecvTimeout h}. quiet (\<lambda>w. (got w, eaten w)) f)"

lemma quiet_weaken: "quiet gh f \<Longrightarrow> quiet (\<lambda>w. ()) f"
  by (auto simp: quiet_def)

lemma sk_pollConn_stream:
  fixes s :: "'s SocketTcpConnection_scheme"
  assumes cf: "sk_conf cf" and inv: "sk_inv cf s" and S: "reads_ok S" and h: "handler_ok h"
  shows "\<exists>s' w'. sk_pollConn cf S h now (s, w) = Some (s', w') \<and> sk_inv cf s' \<and> (sk_fd s' = sk_fd s \<or> sk_fd s' = - 1)
    \<and> (\<forall>got eaten. watched S got eaten h \<longrightarrow> in_step got eaten (s, w) \<longrightarrow> in_step got eaten (s', w'))"
proof -
  have H: "data_ok (sk_onTcpData h)" "quiet (\<lambda>w. ()) (sk_onSendTimeout h)" "quiet (\<lambda>w. ()) (sk_onRecvTimeout h)"
    using h by (simp_all add: handler_ok_def)
  define sw1 where "sw1 = (if SSendTimeoutSec cf \<noteq> 0 \<and> sk_send_ts (fst (s, w)) + uint (SSendTimeoutSec cf) \<le> now
               then case sk_onSendTimeout h (s, w) of (s, w) \<Rightarrow> (s\<lparr>sk_send_ts := now\<rparr>, w) else (s, w))"
  obtain s1 w1 where s1: "sw1 = (s1, w1)" "keeps_buf s s1"
    "\<And>got eaten. watched S got eaten h \<Longrightarrow> in_step got eaten (s, w) \<Longrightarrow> in_step got eaten (s1, w1)"
  proof (cases "SSendTimeoutSec cf \<noteq> 0 \<and> sk_send_ts s + uint (SSendTimeoutSec cf) \<le> now")
    case True
    obtain s0 w0 where q: "sk_onSendTimeout h (s, w) = (s0, w0)" by (cases "sk_onSendTimeout h (s, w)")
    have k: "keeps_buf s (s0\<lparr>sk_send_ts := now\<rparr>)" using quietD [OF H(2) q] by (auto intro: keeps_buf_trans)
    show thesis
    proof (rule that [of "s0\<lparr>sk_send_ts := now\<rparr>" w0])
      show "in_step got eaten (s0\<lparr>sk_send_ts := now\<rparr>, w0)" if "watched S got eaten h" "in_step got eaten (s, w)" for got eaten
        using that in_step_quiet [OF that(2) k] quietD [of "\<lambda>w. (got w, eaten w)" "sk_onSendTimeout h" s w, OF _ q] by (auto simp: watched_def)
    qed (use True q k in \<open>simp_all add: sw1_def\<close>)
  next
    case False
    then show thesis using that [of s w] by (auto simp: sw1_def)
  qed
  obtain g s2 w2 where r: "sk_read cf S (sk_onTcpData h) (s1, w1) = Some (g, s2, w2)" "sk_inv cf s2" "sk_fd s2 = sk_fd s1 \<or> sk_fd s2 = - 1"
    "\<And>got eaten. observes S got eaten (sk_onTcpData h) \<Longrightarrow> in_step got eaten (s1, w1) \<Longrightarrow> in_step got eaten (s2, w2)"
    using sk_read_stream [OF cf keeps_buf_facts(2) [OF s1(2) inv] S H(1)] by blast
  have run: "sk_pollConn cf S h now (s, w) = (if SRecvTimeoutSec cf \<noteq> 0 then
       let (got_data, sw) = (if \<not> g \<and> sk_expire_ts s2 \<le> now then (True, sk_onRecvTimeout h (s2, w2)) else (g, s2, w2))
       in Some (if got_data then ((fst sw)\<lparr>sk_expire_ts := now + uint (SRecvTimeoutSec cf)\<rparr>, snd sw) else sw)
     else Some (s2, w2))"
    unfolding sk_pollConn_def Let_def sw1_def [symmetric] s1(1) r(1) by simp
  obtain s3 w3 where q: "sk_onRecvTimeout h (s2, w2) = (s3, w3)" by (cases "sk_onRecvTimeout h (s2, w2)")
  have k3: "keeps_buf s2 s3" using quietD [OF H(3) q] by simp
  let ?x = "\<lambda>s. s\<lparr>sk_expire_ts := now + uint (SRecvTimeoutSec cf)\<rparr>"
  have fin: "\<exists>s' w'. sk_pollConn cf S h now (s, w) = Some (s', w') \<and> keeps_buf s2 s' \<and> (w' = w2 \<or> w' = w3)"
    using run q k3 keeps_buf_trans [OF k3, of "?x s3"] by (auto simp: Let_def)
  then obtain s' w' where e: "sk_pollConn cf S h now (s, w) = Some (s', w')" "keeps_buf s2 s'" "w' = w2 \<or> w' = w3" by blast
  have "in_step got eaten (s', w')" if "watched S got eaten h" "in_step got eaten (s, w)" for got eaten
  proof -
    have "got w3 = got w2" "eaten w3 = eaten w2" using that(1) quietD [of "\<lambda>w. (got w, eaten w)" "sk_onRecvTimeout h" s2 w2, OF _ q] by (auto simp: watched_def)
    moreover have "in_step got eaten (s2, w2)" using r(4) s1(3) that by (auto simp: watched_def)
    ultimately show ?thesis using in_step_quiet [of got eaten s2 w2 s' w', OF _ e(2)] e(3) by auto
  qed
  then show ?thesis using e keeps_buf_facts(2) [OF e(2) r(2)] r(3) s1(2) by (auto simp: keeps_buf_def)
qed

text \<open>A connection that is polled again and again.\<close>

fun sk_polls :: "SConf \<Rightarrow> 'o Sys \<Rightarrow> ('s, 'o) SockHandler \<Rightarrow> int list \<Rightarrow> ('s, 'o) sk \<Rightarrow> ('s, 'o) sk option" where
  "sk_polls cf S h [] sw = Some sw"
| "sk_polls cf S h (now # ts) sw = Option.bind (sk_pollConn cf S h now sw) (sk_polls cf S h ts)"

lemma sk_polls_stream:
  assumes "sk_conf cf" "sk_inv cf s" "reads_ok S" "handler_ok h" "watched S got eaten h" "in_step got eaten (s, w)"
  shows "\<exists>s' w'. sk_polls cf S h ts (s, w) = Some (s', w') \<and> sk_inv cf s' \<and> in_step got eaten (s', w')"
  using assms(2,6)
proof (induction ts arbitrary: s w)
  case (Cons now ts)
  obtain s1 w1 where "sk_pollConn cf S h now (s, w) = Some (s1, w1)" "sk_inv cf s1" "in_step got eaten (s1, w1)"
    using sk_pollConn_stream [OF assms(1) Cons.prems(1) assms(3,4)] Cons.prems(2) assms(5) by blast
  then show ?case using Cons.IH by simp
qed simp

lemma sk_open_stream:
  assumes "length (sk_recvbuf s) = unat (RecvBufSize cf)" "sk_conf cf" "sk_open cf S now fd (s, w) = (True, s1, w1)"
  shows "sk_inv cf s1" "sk_pending s1 = []" "sk_fd s1 = fd"
  using assms by (auto simp: sk_open_def Let_def sk_inv_def sk_pending_def sk_conf_def split: prod.splits bool.splits)

subsection \<open>Writing\<close>

text \<open>
  A loop that offers the rest of the data until all of it is taken: an attempt fails or takes a
  prefix, and it takes nothing only finitely often in a row, as \<open>patience\<close> bounds.
\<close>

locale write_loop =
  fixes ok :: "'x \<Rightarrow> bool" and attempt :: "u8 list \<Rightarrow> 'x \<Rightarrow> nat option \<times> 'x" and loop :: "u8 list \<Rightarrow> 'x \<Rightarrow> (bool \<times> 'x) option"
    and taken :: "'x \<Rightarrow> u8 list" and patience :: "'x \<Rightarrow> nat" and kept :: "'x \<Rightarrow> 'x \<Rightarrow> bool" and failed :: "'x \<Rightarrow> bool"
  assumes loop_step: "ok x \<Longrightarrow> loop data x = (case attempt data x of
        (None, x) \<Rightarrow> Some (False, x)
      | (Some n, x) \<Rightarrow> if drop n data = [] then Some (True, x) else loop (drop n data) x)"
    and attempt_failed: "ok x \<Longrightarrow> attempt data x = (None, x') \<Longrightarrow> failed x' \<and> taken x' = taken x"
    and attempt_took: "ok x \<Longrightarrow> attempt data x = (Some n, x') \<Longrightarrow> ok x' \<and> kept x x' \<and> n \<le> length data
      \<and> taken x' = taken x @ take n data \<and> (n = 0 \<longrightarrow> data \<noteq> [] \<longrightarrow> patience x' < patience x)"
    and kept_trans: "kept x x' \<Longrightarrow> kept x' x'' \<Longrightarrow> kept x x''"
begin

lemma loop_complete:
  assumes "ok x"
  shows "\<exists>b x'. loop data x = Some (b, x')
    \<and> (if b then taken x' = taken x @ data \<and> kept x x' else failed x' \<and> (\<exists>k \<le> length data. taken x' = taken x @ take k data))"
  using assms
proof (induction "(length data, patience x)" arbitrary: data x rule: wf_induct_rule [OF wf_lex_prod [OF wf_less_than wf_less_than]])
  case (1 data x)
  obtain r x1 where r: "attempt data x = (r, x1)" by fastforce
  show ?case
  proof (cases r)
    case None
    then show ?thesis using attempt_failed [OF "1.prems"] loop_step [OF "1.prems", of data] r by (auto intro!: exI [of _ 0])
  next
    case (Some n)
    have n: "ok x1" "kept x x1" "n \<le> length data" "taken x1 = taken x @ take n data" "n = 0 \<Longrightarrow> data \<noteq> [] \<Longrightarrow> patience x1 < patience x"
      using attempt_took [OF "1.prems"] r Some by auto
    show ?thesis
    proof (cases "drop n data = []")
      case True
      then show ?thesis using loop_step [OF "1.prems", of data] r Some n by auto
    next
      case False
      have "((length (drop n data), patience x1), (length data, patience x)) \<in> less_than <*lex*> less_than"
        using n False by (cases "n = 0") auto
      from "1.hyps" [OF this n(1)] obtain b x' where i: "loop (drop n data) x1 = Some (b, x')"
        "if b then taken x' = taken x1 @ drop n data \<and> kept x1 x'
         else failed x' \<and> (\<exists>k \<le> length (drop n data). taken x' = taken x1 @ take k (drop n data))" by blast
      have run: "loop data x = Some (b, x')" using loop_step [OF "1.prems", of data] r Some False i(1) by simp
      have "\<exists>k \<le> length data. taken x' = taken x @ take k data" if no: "\<not> b"
      proof -
        obtain k where "k \<le> length data - n" "taken x' = taken x @ take n data @ take k (drop n data)" using i(2) no n(4) by auto
        then show ?thesis using n(3) by (intro exI [of _ "n + k"]) (simp add: take_add)
      qed
      then show ?thesis using run i(2) n(2,4) kept_trans [OF n(2)] by (auto split: if_splits)
    qed
  qed
qed

end

text \<open>
  The system as far as writes are concerned: \<open>taken\<close> are the bytes it has taken, and \<open>patience\<close>
  bounds how often it says in a row that it can take nothing.
\<close>

definition writes_ok :: "'o Sys \<Rightarrow> ('o \<Rightarrow> u8 list) \<Rightarrow> ('o \<Rightarrow> nat) \<Rightarrow> bool" where
  "writes_ok S taken patience \<longleftrightarrow>
     (\<forall>data m fd w r w'. os_send S data m fd w = (r, w') \<longrightarrow>
        (case r of Some n \<Rightarrow> n \<le> length data \<and> taken w' = taken w @ take n data \<and> (n = 0 \<longrightarrow> data \<noteq> [] \<longrightarrow> patience w' < patience w)
         | None \<Rightarrow> taken w' = taken w \<and> (os_errno S w' = EAGAIN \<longrightarrow> patience w' < patience w)))
     \<and> (\<forall>fd w. taken (os_close S fd w) = taken w)"

lemma sk_writeSome_val:
  fixes s :: "'s SocketTcpConnection_scheme"
  assumes "writes_ok S taken patience" "sk_writeSome cf S now data m (s, w) = (r, s', w')"
  shows "keeps_buf s s'"
    and "r = None \<Longrightarrow> \<not> isConnected s' \<and> taken w' = taken w"
    and "r = Some n \<Longrightarrow> n \<le> length data \<and> taken w' = taken w @ take n data \<and> sk_fd s' = sk_fd s \<and> (n = 0 \<longrightarrow> data \<noteq> [] \<longrightarrow> patience w' < patience w)"
proof -
  obtain q w1 where q: "os_send S data m (sk_fd s) w = (q, w1)" by (cases "os_send S data m (sk_fd s) w")
  have k: "case q of Some n \<Rightarrow> n \<le> length data \<and> taken w1 = taken w @ take n data \<and> (n = 0 \<longrightarrow> data \<noteq> [] \<longrightarrow> patience w1 < patience w)
         | None \<Rightarrow> taken w1 = taken w \<and> (os_errno S w1 = EAGAIN \<longrightarrow> patience w1 < patience w)"
    "\<And>fd w. taken (os_close S fd w) = taken w"
    using assms(1) q unfolding writes_ok_def by blast+
  obtain s2 where c: "sk_close S ''send error'' True (s, w1) = (s2, if isConnected s then os_close S (sk_fd s) w1 else w1)"
    "keeps_buf s s2" "\<not> isConnected s2" using sk_close_val [of S "''send error''" True s w1] by blast
  have d: "isConnected (x\<lparr>sk_send_ts := y\<rparr>) = isConnected x" "keeps_buf s (x\<lparr>sk_send_ts := y\<rparr>) = keeps_buf s x"
    for x :: "'s SocketTcpConnection_scheme" and y by (simp_all add: isConnected_def keeps_buf_def)
  show "keeps_buf s s'" "r = None \<Longrightarrow> \<not> isConnected s' \<and> taken w' = taken w"
    "r = Some n \<Longrightarrow> n \<le> length data \<and> taken w' = taken w @ take n data \<and> sk_fd s' = sk_fd s \<and> (n = 0 \<longrightarrow> data \<noteq> [] \<longrightarrow> patience w' < patience w)"
    using assms(2) q k c d by (auto simp: sk_writeSome_def Let_def split: option.splits if_splits)
qed

definition sk_write_ok :: "'o Sys \<Rightarrow> ('o \<Rightarrow> u8 list) \<Rightarrow> ('o \<Rightarrow> nat) \<Rightarrow> ('s, 'o) sk \<Rightarrow> bool" where
  "sk_write_ok S taken patience sw \<longleftrightarrow> writes_ok S taken patience"

interpretation skw: write_loop "sk_write_ok S taken patience" "\<lambda>data sw. sk_writeSome cf S (clock (snd sw)) data m sw"
    "\<lambda>data sw. sk_write cf S clock data m sw" "\<lambda>sw. taken (snd sw)" "\<lambda>sw. patience (snd sw)"
    "\<lambda>sw sw'. sk_fd (fst sw') = sk_fd (fst sw)" "\<lambda>sw. \<not> isConnected (fst sw)" for S taken patience cf clock m
proof (unfold_locales, goal_cases)
  case (1 x data)
  then show ?case by (subst sk_write.simps) simp
next
  case (2 x data x')
  then show ?case
    using sk_writeSome_val(2) [of S taken patience cf "clock (snd x)" data m "fst x" "snd x" None "fst x'" "snd x'"] by (simp add: sk_write_ok_def)
next
  case (3 x data n x')
  then show ?case
    using sk_writeSome_val(3) [of S taken patience cf "clock (snd x)" data m "fst x" "snd x" "Some n" "fst x'" "snd x'" n] by (simp add: sk_write_ok_def)
qed simp

subsection \<open>The server\<close>

abbreviation nconns :: "SConf \<Rightarrow> nat" where
  "nconns cf \<equiv> unat (MaxConns cf)"

abbreviation conn_at :: "'s SocketTcpServer \<Rightarrow> nat \<Rightarrow> 's SocketTcpConnection_scheme" where
  "conn_at s i \<equiv> conns_data s ! (conns_ptr s ! i)"

text \<open>The pointers are a permutation of the slots, and only those below the count are in use.\<close>

definition sv_inv :: "SConf \<Rightarrow> 's SocketTcpServer \<Rightarrow> bool" where
  "sv_inv cf s \<longleftrightarrow> distinct (conns_ptr s) \<and> set (conns_ptr s) = {..<nconns cf} \<and> length (conns_data s) = nconns cf
     \<and> unat (conns_cnt s) \<le> nconns cf \<and> (\<forall>c \<in> set (conns_data s). sk_inv cf c)
     \<and> (\<forall>i. unat (conns_cnt s) \<le> i \<and> i < nconns cf \<longrightarrow> \<not> isConnected (conn_at s i))"

lemma sv_inv_slots:
  "sv_inv cf s \<longleftrightarrow> slots (nconns cf) (unat (conns_cnt s)) (conns_ptr s) (conns_data s) (sk_inv cf) (\<lambda>c. True) (\<lambda>c. \<not> isConnected c)"
  by (simp add: sv_inv_def slots_def)

interpretation svp: poll_server "sk_conf cf \<and> reads_ok S \<and> handler_ok h" "nconns cf" "\<lambda>s. unat (conns_cnt s)" conns_ptr conns_data listenfd
  "sk_inv cf" "\<lambda>c. True" isConnected "\<lambda>c. \<not> isConnected c" "\<lambda>cw. isConnected (fst cw)" "sk_pollConn cf S h now" "sk_onTcpDisconnect h"
  "\<lambda>p c s. s\<lparr>conns_data := (conns_data s)[p := c]\<rparr>"
  "\<lambda>i c s. s\<lparr>conns_cnt := conns_cnt s - 1, conns_ptr := swap_ptr i (unat (conns_cnt s - 1)) (conns_ptr s),
     conns_data := (conns_data s)[conns_ptr s ! i := c]\<rparr>" "sv_pollLoop cf S h now" for cf S h now
proof (unfold_locales, goal_cases)
  case (9 c w)
  then show ?case using sk_pollConn_stream [of cf c S h now w] by auto
next
  case (10 c w d w')
  then have "keeps_buf c d" using quietD [of "\<lambda>w. ()" "sk_onTcpDisconnect h" c w d w'] by (simp add: handler_ok_def)
  then show ?case using 10 keeps_buf_facts(2,3) [of c d] by auto
next
  case (13 i s p c w c' w')
  then show ?case by (subst sv_pollLoop.simps) (auto simp: arr_get_def split: if_splits)
qed (simp_all add: sv_pollLoop.simps unat_dec)

lemma sv_pollLoop_inv:
  assumes "sk_conf cf" "reads_ok S" "handler_ok h" "sv_inv cf s"
  shows "\<exists>s' w'. sv_pollLoop cf S h now 0 (s, w) = Some (s', w') \<and> sv_inv cf s' \<and> (\<forall>j < unat (conns_cnt s'). isConnected (conn_at s' j))"
  using svp.loop_slots [of cf S h s 0 now w] assms unfolding sv_inv_slots by (auto simp: slots_def)

lemma sk_open_inv:
  assumes "sk_conf cf" "sk_inv cf s" "sk_open cf S now fd (s, w) = (ok, s', w')"
  shows "sk_inv cf s'" "ok \<or> \<not> isConnected s' \<or> fd < 0"
proof -
  let ?s = "s\<lparr>sk_fd := fd, sk_head := 0, sk_tail := 0, sk_send_ts := now, sk_expire_ts := now + uint (SRecvTimeoutSec cf)\<rparr>"
  have i: "sk_inv cf ?s" using assms(1,2) by (simp add: sk_inv_def sk_conf_def)
  have c: "sk_inv cf s'" "\<not> isConnected s'" if "sk_close S m e (?s, w) = (s', w')" for m e w s' w'
    using sk_close_val [of S m e ?s w] that keeps_buf_facts(2) [OF _ i] by auto
  show "sk_inv cf s'" "ok \<or> \<not> isConnected s' \<or> fd < 0"
    using assms(3) i c by (auto simp: sk_open_def Let_def split: prod.splits bool.splits)
qed

definition accepts_ok :: "'o Sys \<Rightarrow> bool" where
  "accepts_ok S \<longleftrightarrow> (\<forall>l w fd w'. os_accept S l w = (Some fd, w') \<longrightarrow> 0 \<le> fd)"

lemma sv_accept_inv:
  assumes cf: "sk_conf cf" and h: "handler_ok h" and inv: "sv_inv cf s" and fd: "accepts_ok S"
  shows "\<exists>s' w'. sv_accept cf S h now (s, w) = Some (s', w') \<and> sv_inv cf s'"
proof (cases "conns_cnt s < MaxConns cf")
  case True
  let ?i = "unat (conns_cnt s)"
  have iN: "?i < nconns cf" using True by (simp add: word_less_nat_alt)
  note S = inv [unfolded sv_inv_slots]
  note P = slots_ptr [OF S]
  obtain r w1 where a: "os_accept S (listenfd s) w = (r, w1)" by (cases "os_accept S (listenfd s) w")
  have get: "arr_get (conns_ptr s) ?i = Some (conns_ptr s ! ?i)" "arr_get (conns_data s) (conns_ptr s ! ?i) = Some (conn_at s ?i)"
    using P(5,6) [OF iN] by simp_all
  show ?thesis
  proof (cases r)
    case None
    then show ?thesis using True get a inv by (simp add: sv_accept_def)
  next
    case (Some f)
    obtain ok c w2 where o: "sk_open cf S now f (conn_at s ?i, w1) = (ok, c, w2)" by (cases "sk_open cf S now f (conn_at s ?i, w1)")
    note oo = sk_open_inv [OF cf P(4) [OF iN] o]
    show ?thesis
    proof (cases ok)
      case False
      then have "\<not> isConnected c" using oo(2) fd a Some by (fastforce simp: accepts_ok_def)
      then have "sv_inv cf (s\<lparr>conns_data := (conns_data s)[conns_ptr s ! ?i := c]\<rparr>)"
        using oo(1) slots_put [OF S iN, of c ?i] by (simp add: sv_inv_slots)
      then show ?thesis using True get a Some o False by (simp add: sv_accept_def)
    next
      case okT: True
      obtain d w3 where d: "sk_onTcpConnected h (c, w2) = (d, w3)" by (cases "sk_onTcpConnected h (c, w2)")
      have "keeps_buf c d" using quietD [of "\<lambda>w. ()" "sk_onTcpConnected h" c w2, OF _ d] h by (simp add: handler_ok_def)
      then have "sk_inv cf d" using keeps_buf_facts(2) oo(1) by blast
      then have "sv_inv cf (s\<lparr>conns_cnt := conns_cnt s + 1, conns_data := (conns_data s)[conns_ptr s ! ?i := d]\<rparr>)"
        using slots_put [OF S iN, of d "?i + 1"] by (simp add: sv_inv_slots unat_inc [OF True])
      then show ?thesis using True get a Some o okT d by (simp add: sv_accept_def)
    qed
  qed
next
  case False
  then show ?thesis using inv by (simp add: sv_accept_def)
qed

subsection \<open>Properties\<close>

text \<open>
  A system that plays a script: each read takes the next bytes of the input, each write is taken at
  once. The handler consumes an even number of bytes at a time.
\<close>

record World =
  w_in :: "u8 list list"
  w_got :: "u8 list"
  w_eaten :: "u8 list"
  w_taken :: "u8 list"
  w_fds :: "int list"

definition fresh_fd :: "World \<Rightarrow> int" where
  "fresh_fd w = 1 + sum_list (map abs (w_fds w))"

definition script_sys :: "World Sys" where
  "script_sys = \<lparr>os_errno = (\<lambda>_. EAGAIN), os_strerror = (\<lambda>_. ''try again''),
     os_socket = (\<lambda>_ w. (Some (fresh_fd w), w\<lparr>w_fds := fresh_fd w # w_fds w\<rparr>)),
     os_close = (\<lambda>fd w. w\<lparr>w_fds := removeAll fd (w_fds w)\<rparr>),
     os_nonblock = (\<lambda>_ w. (True, w)), os_setsockopt = (\<lambda>_ _ w. (True, w)), os_bind = (\<lambda>_ _ w. (True, w)), os_listen = (\<lambda>_ w. (True, w)),
     os_accept = (\<lambda>_ w. (Some (fresh_fd w), w\<lparr>w_fds := fresh_fd w # w_fds w\<rparr>)),
     os_connect = (\<lambda>_ _ w. (True, w)),
     os_send = (\<lambda>data _ _ w. (Some (length data), w\<lparr>w_taken := w_taken w @ data\<rparr>)),
     os_sendto = (\<lambda>data _ _ w. (Some (length data), w)),
     os_read = (\<lambda>n _ w. case w_in w of
        [] \<Rightarrow> (None, w)
      | bs # xs \<Rightarrow> (Some (take n bs), w\<lparr>w_in := drop n bs # xs, w_got := w_got w @ take n bs\<rparr>)),
     os_recvfrom = (\<lambda>_ _ w. (None, w))\<rparr>"

definition even_eater :: "('s, World) SockHandler" where
  "even_eater = \<lparr>sk_onTcpConnected = id, sk_onTcpDisconnect = id, sk_onTcpConnectFailed = id,
     sk_onTcpData = (\<lambda>data (s, w). (of_nat (length data mod 2), s, w\<lparr>w_eaten := w_eaten w @ take (length data - length data mod 2) data\<rparr>)),
     sk_onSendTimeout = id, sk_onRecvTimeout = id\<rparr>"

lemma fresh_fd_new: "0 \<le> fresh_fd w" "fresh_fd w \<notin> set (w_fds w)"
proof -
  have n: "0 \<le> sum_list (map abs xs)" for xs :: "int list" by (induction xs) auto
  have m: "\<bar>x\<bar> \<le> sum_list (map abs xs)" if "x \<in> set xs" for x :: int and xs
    using that n by (induction xs) (auto intro: add_increasing2)
  show "0 \<le> fresh_fd w" using n [of "w_fds w"] by (simp add: fresh_fd_def)
  show "fresh_fd w \<notin> set (w_fds w)" using m [of "fresh_fd w" "w_fds w"] n [of "w_fds w"] by (auto simp: fresh_fd_def)
qed

lemma script_reads: "reads_ok script_sys"
  by (auto simp: reads_ok_def script_sys_def split: list.splits)

lemma mod_two_word: "unat (of_nat (n mod 2) :: u32) = n mod 2"
  by (rule unat_of_nat_small) (simp add: less_trans [OF mod_less_divisor])

lemma script_watched: "handler_ok even_eater" "watched script_sys w_got w_eaten even_eater"
  by (auto simp: handler_ok_def watched_def observes_def data_ok_def quiet_def even_eater_def script_sys_def mod_two_word split: list.splits)

definition eight_cf :: SConf where
  "eight_cf = \<lparr>RecvBufSize = 8, MaxConns = 2, SSendTimeoutSec = 1, SRecvTimeoutSec = 1, SConnRetrySec = 5, SConnTimeoutSec = 5\<rparr>"

definition open_conn :: SocketTcpConnection where
  "open_conn = \<lparr>sk_fd = 3, sk_send_ts = 0, sk_expire_ts = 0, sk_head = 0, sk_tail = 0, sk_recvbuf = replicate 8 0, sk_error = []\<rparr>"

definition script_world :: World where
  "script_world = \<lparr>w_in = [[1, 2, 3], [4, 5, 6, 7, 8, 9, 10, 11]], w_got = [], w_eaten = [], w_taken = [], w_fds = [3]\<rparr>"

lemma open_conn_ok: "sk_conf eight_cf" "sk_inv eight_cf open_conn" "in_step w_got w_eaten (open_conn, script_world)"
  by (simp_all add: sk_conf_def eight_cf_def sk_inv_def open_conn_def in_step_def script_world_def sk_pending_def word_less_nat_alt)

text \<open>
  C17: \<^verbatim>\<open>SocketTcpConnection::read\<close> and \<^verbatim>\<open>pollConn\<close>. However often a connection is polled, and
  however the system cuts the stream into pieces, what the handler has consumed followed by what the
  buffer holds is what the system has delivered: the handler sees each byte in order until it
  consumes it. The buffer is never read or written out of its bounds, it is never full while the
  connection is open, and no copy inside it overlaps (the size of the buffer being even).
\<close>

theorem socket_stream_exact:
  assumes "sk_conf cf" "sk_inv cf s" "reads_ok S" "handler_ok h" "watched S got eaten h" "got w = eaten w @ sk_pending s"
  shows "\<exists>s' w'. sk_polls cf S h ts (s, w) = Some (s', w') \<and> sk_inv cf s' \<and> got w' = eaten w' @ sk_pending s'"
  using sk_polls_stream [OF assms(1-5), of w ts] assms(6) by (simp add: in_step_def)

theorem socket_stream_exact_witness:
  "\<exists>s' w'. sk_polls eight_cf script_sys even_eater [0, 1, 2] (open_conn, script_world) = Some (s', w')
    \<and> sk_inv eight_cf s' \<and> w_got w' = w_eaten w' @ sk_pending s'"
  using socket_stream_exact [OF open_conn_ok(1,2) script_reads script_watched, of script_world "[0, 1, 2]"] open_conn_ok(3)
  by (simp add: in_step_def)

text \<open>
  C27: \<^verbatim>\<open>SocketTcpConnection::write\<close>. On a system that says only finitely often in a row that it
  can take nothing, \<^verbatim>\<open>write\<close> returns; when it returns true the system has taken exactly the data,
  otherwise a prefix of it and the connection is closed.
\<close>

theorem socket_write_complete:
  assumes "writes_ok S taken patience"
  shows "\<exists>ok s' w'. sk_write cf S clock data m (s, w) = Some (ok, s', w')
    \<and> (if ok then taken w' = taken w @ data \<and> sk_fd s' = sk_fd s
       else \<not> isConnected s' \<and> (\<exists>k \<le> length data. taken w' = taken w @ take k data))"
  using skw.loop_complete [where x = "(s, w)" and data = data and cf = cf and clock = clock and m = m and S = S and taken = taken and patience = patience] assms by (fastforce simp: sk_write_ok_def)

theorem socket_write_complete_witness:
  "\<exists>ok s' w'. sk_write eight_cf script_sys (\<lambda>_. 7) [1, 2, 3] False (open_conn, script_world) = Some (ok, s', w')
    \<and> (if ok then w_taken w' = [1, 2, 3] else \<not> isConnected s')"
proof -
  have "writes_ok script_sys w_taken (\<lambda>_. 0)" by (simp add: writes_ok_def script_sys_def)
  from socket_write_complete [OF this, of eight_cf "\<lambda>_. 7" "[1, 2, 3]" False open_conn script_world]
  show ?thesis by (force simp: script_world_def)
qed

text \<open>
  C19: \<^verbatim>\<open>SocketTcpServer::poll\<close> keeps the server well-formed: the pointers stay a permutation of the
  slots, so that no connection is polled twice or lost, every buffer stays within its bounds, the
  slots beyond the count hold no open connection, and afterwards those below the count are all
  connected. The loop ends.
\<close>

theorem socket_server_poll_wf:
  assumes "sk_conf cf" "sv_inv cf s" "reads_ok S" "handler_ok h" "accepts_ok S"
  shows "\<exists>s' w'. sv_poll cf S h now (s, w) = Some (s', w') \<and> sv_inv cf s' \<and> (\<forall>j < unat (conns_cnt s'). isConnected (conn_at s' j))"
proof -
  obtain s1 w1 where "sv_accept cf S h now (s, w) = Some (s1, w1)" "sv_inv cf s1"
    using sv_accept_inv [OF assms(1,4,2,5), where now = now and w = w] by blast
  then show ?thesis using sv_pollLoop_inv [OF assms(1,3,4), of s1 now w1] by (simp add: sv_poll_def)
qed

definition two_conns :: "unit SocketTcpServer" where
  "two_conns = \<lparr>listenfd = 3, sv_error = [], conns_cnt = 1, conns_ptr = [1, 0], conns_data = [open_conn\<lparr>sk_fd := - 1\<rparr>, open_conn]\<rparr>"

lemma two_conns_ok: "sv_inv eight_cf two_conns"
proof -
  have n: "nconns eight_cf = 2" by (simp add: eight_cf_def)
  have c: "sk_inv eight_cf (open_conn\<lparr>sk_fd := - 1\<rparr>)" using open_conn_ok(2) by (simp add: sk_inv_def isConnected_def)
  have u: "\<not> isConnected (conn_at two_conns 1)" by (simp add: two_conns_def isConnected_def)
  show ?thesis
    unfolding sv_inv_def n
  proof (intro conjI allI impI)
    show "set (conns_ptr two_conns) = {..<2}" by (auto simp: two_conns_def)
    show "\<forall>d \<in> set (conns_data two_conns). sk_inv eight_cf d" using c open_conn_ok(2) by (simp add: two_conns_def)
    show "\<not> isConnected (conn_at two_conns i)" if "unat (conns_cnt two_conns) \<le> i \<and> i < 2" for i
    proof -
      have "i = 1" using that by (simp add: two_conns_def)
      then show ?thesis using u by simp
    qed
  qed (simp_all add: two_conns_def)
qed

theorem socket_server_poll_wf_witness:
  "\<exists>s' w'. sv_poll eight_cf script_sys even_eater 1 (two_conns, script_world) = Some (s', w')
    \<and> sv_inv eight_cf s' \<and> (\<forall>j < unat (conns_cnt s'). isConnected (conn_at s' j))"
proof -
  have "accepts_ok script_sys" using fresh_fd_new(1) by (auto simp: accepts_ok_def script_sys_def)
  then show ?thesis using socket_server_poll_wf [OF open_conn_ok(1) two_conns_ok script_reads script_watched(1)] by blast
qed

end
