(* ===== verification/SocketFds.thy ===== *)
theory SocketFds
  imports SocketStream
begin

text \<open>
  The descriptors of \<^verbatim>\<open>Socket.h\<close>: what a transport opens it holds or closes, and it closes nothing
  that it does not hold.
\<close>

subsection \<open>What the system promises about descriptors\<close>

text \<open>\<open>fds\<close> are the open descriptors.\<close>

definition same_fds :: "('o \<Rightarrow> int set) \<Rightarrow> ('o \<Rightarrow> 'r \<times> 'o) \<Rightarrow> bool" where
  "same_fds fds f \<longleftrightarrow> (\<forall>w. fds (snd (f w)) = fds w)"

definition new_fd :: "('o \<Rightarrow> int set) \<Rightarrow> ('o \<Rightarrow> int option \<times> 'o) \<Rightarrow> bool" where
  "new_fd fds f \<longleftrightarrow> (\<forall>w. case f w of
     (Some fd, w') \<Rightarrow> 0 \<le> fd \<and> fd \<notin> fds w \<and> fds w' = insert fd (fds w)
   | (None, w') \<Rightarrow> fds w' = fds w)"

definition posix_fds :: "'o Sys \<Rightarrow> ('o \<Rightarrow> int set) \<Rightarrow> bool" where
  "posix_fds S fds \<longleftrightarrow>
     (\<forall>fd w. fds (os_close S fd w) = fds w - {fd}) \<and> (\<forall>w. \<forall>fd \<in> fds w. 0 \<le> fd)
     \<and> (\<forall>k. new_fd fds (os_socket S k)) \<and> (\<forall>fd. new_fd fds (os_accept S fd))
     \<and> (\<forall>fd. same_fds fds (os_nonblock S fd)) \<and> (\<forall>opt fd. same_fds fds (os_setsockopt S opt fd))
     \<and> (\<forall>a fd. same_fds fds (os_bind S a fd)) \<and> (\<forall>fd. same_fds fds (os_listen S fd)) \<and> (\<forall>a fd. same_fds fds (os_connect S a fd))
     \<and> (\<forall>n fd. same_fds fds (os_read S n fd))"

lemma same_fdsD: "same_fds fds f \<Longrightarrow> f w = (b, w') \<Longrightarrow> fds w' = fds w"
  unfolding same_fds_def by (metis snd_conv)

lemma new_fdD:
  "new_fd fds f \<Longrightarrow> f w = (Some fd, w') \<Longrightarrow> 0 \<le> fd \<and> fd \<notin> fds w \<and> fds w' = insert fd (fds w)"
  "new_fd fds f \<Longrightarrow> f w = (None, w') \<Longrightarrow> fds w' = fds w"
  unfolding new_fd_def by (drule spec [of _ w], simp)+

lemma posix_fdsD:
  assumes "posix_fds S fds"
  shows "fds (os_close S fd w) = fds w - {fd}" "fd \<in> fds w \<Longrightarrow> 0 \<le> fd"
    "os_socket S k w = (Some fd, w') \<Longrightarrow> 0 \<le> fd \<and> fd \<notin> fds w \<and> fds w' = insert fd (fds w)"
    "os_socket S k w = (None, w') \<Longrightarrow> fds w' = fds w"
    "os_nonblock S fd w = (b, w') \<Longrightarrow> fds w' = fds w" "os_setsockopt S opt fd w = (b, w') \<Longrightarrow> fds w' = fds w"
    "os_bind S a fd w = (b, w') \<Longrightarrow> fds w' = fds w" "os_listen S fd w = (b, w') \<Longrightarrow> fds w' = fds w"
    "os_connect S a fd w = (b, w') \<Longrightarrow> fds w' = fds w" "os_read S n fd w = (r, w') \<Longrightarrow> fds w' = fds w"
proof -
  show "fds (os_close S fd w) = fds w - {fd}" "fd \<in> fds w \<Longrightarrow> 0 \<le> fd" using assms unfolding posix_fds_def by blast+
  have n: "new_fd fds (os_socket S k)" using assms unfolding posix_fds_def by blast
  show "os_socket S k w = (Some fd, w') \<Longrightarrow> 0 \<le> fd \<and> fd \<notin> fds w \<and> fds w' = insert fd (fds w)"
    "os_socket S k w = (None, w') \<Longrightarrow> fds w' = fds w"
    by (rule new_fdD [OF n], assumption)+
  have f: "same_fds fds (os_nonblock S fd)" "same_fds fds (os_setsockopt S opt fd)" "same_fds fds (os_bind S a fd)" "same_fds fds (os_listen S fd)"
    "same_fds fds (os_connect S a fd)" "same_fds fds (os_read S n fd)"
    using assms unfolding posix_fds_def by blast+
  show "os_nonblock S fd w = (b, w') \<Longrightarrow> fds w' = fds w" "os_setsockopt S opt fd w = (b, w') \<Longrightarrow> fds w' = fds w"
    "os_bind S a fd w = (b, w') \<Longrightarrow> fds w' = fds w" "os_listen S fd w = (b, w') \<Longrightarrow> fds w' = fds w"
    "os_connect S a fd w = (b, w') \<Longrightarrow> fds w' = fds w" "os_read S n fd w = (r, w') \<Longrightarrow> fds w' = fds w"
    by (rule f [THEN same_fdsD], assumption)+
qed

subsection \<open>Datagram sockets\<close>

text \<open>The result of an \<^verbatim>\<open>init\<close>: one new descriptor, or none.\<close>

definition ud_result :: "('o \<Rightarrow> int set) \<Rightarrow> 'o \<Rightarrow> bool \<times> SocketUdp \<times> 'o \<Rightarrow> bool" where
  "ud_result fds w r \<longleftrightarrow> (case r of (ok, s', w') \<Rightarrow>
     if ok then 0 \<le> ud_fd s' \<and> ud_fd s' \<notin> fds w \<and> fds w' = insert (ud_fd s') (fds w) else ud_fd s' = - 1 \<and> fds w' = fds w)"

lemma ud_close_result:
  assumes "posix_fds S fds" "0 \<le> ud_fd s" "ud_fd s \<notin> fds w" "fds w1 = insert (ud_fd s) (fds w)"
  shows "ud_result fds w (False, ud_close S m (s, w1))"
  using assms posix_fdsD(1) [OF assms(1), of "ud_fd s" w1] by (auto simp: ud_result_def ud_close_def)

lemma ud_socket_result:
  assumes "posix_fds S fds"
  shows "ud_result fds w (ud_socket S k (s, w))"
proof -
  note P = posix_fdsD [OF assms]
  obtain r w1 where r: "os_socket S k w = (r, w1)" by (cases "os_socket S k w")
  show ?thesis
  proof (cases r)
    case None
    then show ?thesis using P(4) [of k w w1] r by (simp add: ud_socket_def ud_result_def)
  next
    case (Some fd)
    obtain b w2 where b: "os_nonblock S fd w1 = (b, w2)" by (cases "os_nonblock S fd w1")
    have n: "0 \<le> fd" "fd \<notin> fds w" "fds w2 = insert fd (fds w)" using P(3) [of k w fd w1] P(5) [OF b] r Some by auto
    then show ?thesis
      using r Some b ud_close_result [OF assms, of "s\<lparr>ud_fd := fd\<rparr>" w w2] by (cases b) (simp_all add: ud_socket_def ud_result_def)
  qed
qed

lemma ud_step_result:
  assumes "posix_fds S fds" "\<And>fd. same_fds fds (f fd)" "ud_result fds w r"
  shows "ud_result fds w (ud_step S f m r)"
proof -
  obtain ok s1 w1 where r: "r = (ok, s1, w1)" by (cases r)
  show ?thesis
  proof (cases ok)
    case True
    obtain b w2 where b: "f (ud_fd s1) w1 = (b, w2)" by (cases "f (ud_fd s1) w1")
    have "fds w2 = fds w1" by (rule same_fdsD [OF assms(2) b])
    then have n: "0 \<le> ud_fd s1" "ud_fd s1 \<notin> fds w" "fds w2 = insert (ud_fd s1) (fds w)" using assms(3) r True by (auto simp: ud_result_def)
    then show ?thesis using r True b ud_close_result [OF assms(1) n] by (cases b) (simp_all add: ud_step_def ud_result_def)
  qed (use assms(3) r in \<open>simp add: ud_step_def\<close>)
qed

subsection \<open>The client\<close>

text \<open>What a step may do to an open connection of a client: keep the descriptor or close it.\<close>

definition fd_step :: "('o \<Rightarrow> int set) \<Rightarrow> ('s, 'o) skc \<Rightarrow> ('s, 'o) skc \<Rightarrow> bool" where
  "fd_step fds sw sw' \<longleftrightarrow> conn_fd (fst sw') = conn_fd (fst sw)
     \<and> (sk_fd (fst sw') = sk_fd (fst sw) \<and> fds (snd sw') = fds (snd sw)
        \<or> sk_fd (fst sw') = - 1 \<and> fds (snd sw') = fds (snd sw) - {sk_fd (fst sw)})"

definition user_fds :: "('o \<Rightarrow> int set) \<Rightarrow> ('s SocketTcpClient_ext, 'o) SockHandler \<Rightarrow> bool" where
  "user_fds fds h \<longleftrightarrow> (\<forall>sw. \<forall>f \<in> {sk_onTcpConnected h, sk_onTcpDisconnect h, sk_onTcpConnectFailed h, sk_onSendTimeout h, sk_onRecvTimeout h}.
       fd_step fds sw (f sw)) \<and> (\<forall>data sw. fd_step fds sw (snd (sk_onTcpData h data sw)))"

lemma fd_step_refl: "fd_step fds sw sw"
  by (simp add: fd_step_def)

lemma fd_step_trans:
  assumes "posix_fds S fds" "fd_step fds a b" "fd_step fds b c"
  shows "fd_step fds a c"
proof -
  have "- 1 \<notin> fds w" for w using posix_fdsD(2) [OF assms(1), of "- 1" w] by auto
  then show ?thesis using assms(2,3) by (auto simp: fd_step_def)
qed

lemma fd_step_close:
  assumes "posix_fds S fds" "- 1 \<le> sk_fd (fst sw)"
  shows "fd_step fds sw (sk_close S m e sw)"
proof -
  obtain s w where sw: "sw = (s, w)" by (cases sw)
  show ?thesis using posix_fdsD(1) [OF assms(1), of "sk_fd s" w] by (simp add: sw fd_step_def sk_close_def sk_saveError_def)
qed

lemma fd_step_world: "fds w' = fds w \<Longrightarrow> fd_step fds (s, w) (s, w')"
  by (simp add: fd_step_def)

lemma fd_step_ge: "fd_step fds a b \<Longrightarrow> - 1 \<le> sk_fd (fst a) \<Longrightarrow> - 1 \<le> sk_fd (fst b)"
  unfolding fd_step_def by (elim conjE disjE) simp_all

lemma fd_step_fields:
  "fd_step fds sw (s, w) \<Longrightarrow> fd_step fds sw (s\<lparr>sk_send_ts := a\<rparr>, w)"
  "fd_step fds sw (s, w) \<Longrightarrow> fd_step fds sw (s\<lparr>sk_expire_ts := a\<rparr>, w)"
  "fd_step fds sw (s, w) \<Longrightarrow> fd_step fds sw (s\<lparr>sk_head := b\<rparr>, w)"
  "fd_step fds sw (s, w) \<Longrightarrow> fd_step fds sw (s\<lparr>sk_tail := b\<rparr>, w)"
  "fd_step fds sw (s, w) \<Longrightarrow> fd_step fds sw (s\<lparr>sk_recvbuf := m\<rparr>, w)"
  by (simp_all add: fd_step_def)

lemma fd_step_keepRest:
  assumes "posix_fds S fds" "- 1 \<le> sk_fd s" "sk_keepRest cf S r (s, w) = Some sw'"
  shows "fd_step fds (s, w) sw'"
proof -
  have "fd_step fds (s\<lparr>sk_head := sk_tail s - r\<rparr>, w) (sk_close S ''recv buf full'' False (s\<lparr>sk_head := sk_tail s - r\<rparr>, w))"
    using assms(2) by (intro fd_step_close [OF assms(1)]) simp
  then have c: "fd_step fds (s, w) (sk_close S ''recv buf full'' False (s\<lparr>sk_head := sk_tail s - r\<rparr>, w))" by (simp add: fd_step_def)
  consider "r = 0" | "r \<noteq> 0" "RecvBufSize cf div 2 \<le> sk_tail s - r" | "r \<noteq> 0" "\<not> RecvBufSize cf div 2 \<le> sk_tail s - r" by blast
  then show ?thesis
  proof cases
    case 2
    then show ?thesis using assms(3) by (auto simp: sk_keepRest_def bind_eq_Some_conv fd_step_def)
  next
    case 3
    then have "sw' = sk_close S ''recv buf full'' False (s\<lparr>sk_head := sk_tail s - r\<rparr>, w) \<or> sw' = (s\<lparr>sk_head := sk_tail s - r\<rparr>, w)"
      using assms(3) by (simp add: sk_keepRest_def Let_def split: if_splits)
    then show ?thesis using c fd_step_fields(3) [OF fd_step_refl, of fds s w] by (elim disjE) simp_all
  qed (use assms(3) in \<open>auto simp: sk_keepRest_def fd_step_def\<close>)
qed

lemma fd_step_read:
  assumes P: "posix_fds S fds" and s: "- 1 \<le> sk_fd s" and f: "\<And>data sw. fd_step fds sw (snd (f data sw))"
    and run: "sk_read cf S f (s, w) = Some (g, sw')"
  shows "fd_step fds (s, w) sw'"
proof -
  obtain r w1 where rd: "os_read S (unat (RecvBufSize cf - sk_tail s)) (sk_fd s) w = (r, w1)" by (cases "os_read S (unat (RecvBufSize cf - sk_tail s)) (sk_fd s) w")
  have w: "fd_step fds (s, w) (s, w1)" using posix_fdsD(10) [OF P rd] by (rule fd_step_world)
  have cl: "fd_step fds (s, w) (sk_close S m e (s, w1))" for m e
    using fd_step_trans [OF P w fd_step_close [OF P]] s by simp
  consider "r = None" | "r = Some []" | (data) b bs where "r = Some (b # bs)" by (metis list.exhaust option.exhaust)
  then show ?thesis
  proof cases
    case data
    let ?bs = "b # bs"
    obtain mem d where e: "sk_keepRest cf S (fst (f d (s\<lparr>sk_recvbuf := mem, sk_tail := sk_tail s + of_nat (length ?bs)\<rparr>, w1)))
        (snd (f d (s\<lparr>sk_recvbuf := mem, sk_tail := sk_tail s + of_nat (length ?bs)\<rparr>, w1))) = Some sw'"
      using run rd data by (auto simp: sk_read_def Let_def bind_eq_Some_conv case_prod_beta)
    let ?s1 = "s\<lparr>sk_recvbuf := mem, sk_tail := sk_tail s + of_nat (length ?bs)\<rparr>"
    obtain rr s2 w2 where fe: "f d (?s1, w1) = (rr, s2, w2)" by (cases "f d (?s1, w1)")
    have 1: "fd_step fds (s, w) (?s1, w1)" using w by (intro fd_step_fields)
    have 2: "fd_step fds (?s1, w1) (s2, w2)" using f [of "(?s1, w1)" d] fe by simp
    have 12: "fd_step fds (s, w) (s2, w2)" by (rule fd_step_trans [OF P 1 2])
    have "fd_step fds (s2, w2) sw'" using fd_step_ge [OF 12] s e fe by (intro fd_step_keepRest [OF P, where r = rr]) simp_all
    then show ?thesis by (rule fd_step_trans [OF P 12])
  qed (use run rd w cl in \<open>auto simp: sk_read_def split: if_splits\<close>)
qed

lemma fd_step_pollConn:
  assumes P: "posix_fds S fds" and s: "- 1 \<le> sk_fd (fst sw)" and h: "user_fds fds h" and run: "sk_pollConn cf S h now sw = Some sw'"
  shows "fd_step fds sw sw'"
proof -
  have H: "fd_step fds sw (sk_onSendTimeout h sw)" "fd_step fds sw (sk_onRecvTimeout h sw)" "fd_step fds sw (snd (sk_onTcpData h data sw))" for data sw
    using h unfolding user_fds_def by blast+
  define sw1 where "sw1 = (if SSendTimeoutSec cf \<noteq> 0 \<and> sk_send_ts (fst sw) + uint (SSendTimeoutSec cf) \<le> now
               then case sk_onSendTimeout h sw of (s, w) \<Rightarrow> (s\<lparr>sk_send_ts := now\<rparr>, w) else sw)"
  have 1: "fd_step fds sw sw1" using H(1) [of sw] fd_step_refl [of fds sw] by (auto simp: sw1_def intro: fd_step_fields split: prod.splits)
  obtain g sw2 where r: "sk_read cf S (sk_onTcpData h) sw1 = Some (g, sw2)"
    and e: "sw' = sw2 \<or> sw' = ((fst sw2)\<lparr>sk_expire_ts := now + uint (SRecvTimeoutSec cf)\<rparr>, snd sw2)
      \<or> sw' = ((fst (sk_onRecvTimeout h sw2))\<lparr>sk_expire_ts := now + uint (SRecvTimeoutSec cf)\<rparr>, snd (sk_onRecvTimeout h sw2))"
    using run unfolding sk_pollConn_def Let_def sw1_def [symmetric] by (auto simp: bind_eq_Some_conv split: if_splits)
  obtain s1 w1 where s1: "sw1 = (s1, w1)" by (cases sw1)
  have "fd_step fds sw1 sw2" unfolding s1 using fd_step_ge [OF 1 s] r H(3) s1 by (intro fd_step_read [OF P]) auto
  note 2 = fd_step_trans [OF P 1 this]
  have "fd_step fds sw ((fst x)\<lparr>sk_expire_ts := a\<rparr>, snd x)" if "fd_step fds sw x" for x a
    using fd_step_fields(2) [of fds sw "fst x" "snd x"] that by simp
  then show ?thesis using e 2 fd_step_trans [OF P 2 H(2)] by auto
qed

text \<open>
  The descriptors a client holds: of the connection, or of the attempt to open it. \<open>owns fds base\<close>
  says that the open descriptors are those of \<open>base\<close>, which are not the client's, and those it holds.
\<close>

definition held :: "'s SocketTcpClient_scheme \<Rightarrow> int set" where
  "held s = {fd. 0 \<le> fd \<and> (fd = sk_fd s \<or> fd = conn_fd s)}"

definition owns :: "('o \<Rightarrow> int set) \<Rightarrow> int set \<Rightarrow> ('s, 'o) skc \<Rightarrow> bool" where
  "owns fds base sw \<longleftrightarrow> (case sw of (s, w) \<Rightarrow>
     fds w = base \<union> held s \<and> base \<inter> held s = {} \<and> - 1 \<le> sk_fd s \<and> (sk_fd s < 0 \<or> conn_fd s < 0))"

lemma held_val:
  "sk_fd s < 0 \<Longrightarrow> held s = (if 0 \<le> conn_fd s then {conn_fd s} else {})"
  "conn_fd s < 0 \<Longrightarrow> held s = (if 0 \<le> sk_fd s then {sk_fd s} else {})"
  unfolding held_def by force+

lemma owns_step:
  assumes P: "posix_fds S fds" and "owns fds base (s, w)" "fd_step fds (s, w) (s', w')"
  shows "owns fds base (s', w')"
proof -
  have o: "fds w = base \<union> held s" "base \<inter> held s = {}" "- 1 \<le> sk_fd s" "sk_fd s < 0 \<or> conn_fd s < 0" using assms(2) by (simp_all add: owns_def)
  have e: "conn_fd s' = conn_fd s" "sk_fd s' = sk_fd s \<and> fds w' = fds w \<or> sk_fd s' = - 1 \<and> fds w' = fds w - {sk_fd s}"
    using assms(3) by (simp_all add: fd_step_def)
  have m1: "- 1 \<notin> fds w" using posix_fdsD(2) [OF P, of "- 1" w] by auto
  from e(2) show ?thesis
  proof
    assume a: "sk_fd s' = sk_fd s \<and> fds w' = fds w"
    then have "held s' = held s" using e(1) by (simp add: held_def)
    then show ?thesis using o e(1) a by (simp add: owns_def)
  next
    assume c: "sk_fd s' = - 1 \<and> fds w' = fds w - {sk_fd s}"
    show ?thesis
    proof (cases "sk_fd s < 0")
      case True
      then have "sk_fd s = - 1" using o(3) by simp
      then have "held s' = held s" "fds w' = fds w" using c e(1) m1 by (simp_all add: held_def)
      then show ?thesis using o e(1) c by (simp add: owns_def)
    next
      case False
      then have "held s = {sk_fd s}" "held s' = {}" using o(4) c e(1) by (simp_all add: held_val)
      then show ?thesis using o e(1) c False by (auto simp: owns_def)
    qed
  qed
qed

text \<open>Opening a connection on a descriptor that nobody else holds.\<close>

lemma owns_open:
  assumes P: "posix_fds S fds" and b: "fd \<notin> base" "0 \<le> fd" "fds w = insert fd base"
    and run: "sk_open cf S now fd (s, w) = (ok, s', w')"
  shows "owns fds base (s'\<lparr>conn_fd := - 1\<rparr>, w')" "ok \<longleftrightarrow> sk_fd s' = fd"
proof -
  let ?s = "s\<lparr>sk_fd := fd, sk_head := 0, sk_tail := 0, sk_send_ts := now, sk_expire_ts := now + uint (SRecvTimeoutSec cf)\<rparr>"
  obtain b1 w1 where 1: "os_nonblock S fd w = (b1, w1)" by (cases "os_nonblock S fd w")
  obtain b2 w2 where 2: "os_setsockopt S TCP_NODELAY fd w1 = (b2, w2)" by (cases "os_setsockopt S TCP_NODELAY fd w1")
  have f: "fds w1 = insert fd base" "fds w2 = insert fd base" using posix_fdsD(5) [OF P 1] posix_fdsD(6) [OF P 2] b(3) by simp_all
  have cl: "fds (os_close S fd x) = base" if "fds x = insert fd base" for x
    using posix_fdsD(1) [OF P, of fd x] that b(1) by simp
  consider "\<not> b1" | "b1" "\<not> b2" | "b1" "b2" by blast
  then have "(if ok then sk_fd s' = fd \<and> fds w' = insert fd base else sk_fd s' = - 1 \<and> fds w' = base)"
    using run 1 2 f cl b(2) by cases (auto simp: sk_open_def Let_def sk_close_def sk_saveError_def)
  then show "owns fds base (s'\<lparr>conn_fd := - 1\<rparr>, w')" "ok \<longleftrightarrow> sk_fd s' = fd"
    using b by (auto simp: owns_def held_val split: if_splits)
qed

lemma saveError_fields:
  "sk_fd (fst (sk_saveError S m e (s, w))) = sk_fd s" "conn_fd (fst (sk_saveError S m e (s, w))) = conn_fd s" "snd (sk_saveError S m e (s, w)) = w"
  by (simp_all add: sk_saveError_def)

text \<open>A new attempt holds one new descriptor or leaves everything as it was.\<close>

lemma newSocket_result:
  assumes P: "posix_fds S fds" and o: "fds w = base" "sk_fd s = - 1" "conn_fd s < 0"
  shows "case sk_newSocket cf S now (s, w) of
      Inl (r, s', w') \<Rightarrow> r \<noteq> Success \<and> owns fds base (s', w') \<and> sk_fd s' = - 1 \<and> keeps_buf s s'
    | Inr (s', w') \<Rightarrow> 0 \<le> conn_fd s' \<and> conn_fd s' \<notin> base \<and> fds w' = insert (conn_fd s') base \<and> sk_fd s' = - 1 \<and> keeps_buf s s'"
proof (cases "now < sk_next_conn_ts s")
  case True
  then show ?thesis using o by (simp add: sk_newSocket_def owns_def held_val)
next
  case False
  define nx where "nx = (if SConnRetrySec cf \<noteq> 0 then now + uint (SConnRetrySec cf) else int64_max)"
  let ?s = "s\<lparr>sk_next_conn_ts := nx\<rparr>"
  have same: "owns fds base (fst (sk_saveError S m e (?s, x)), y) \<and> sk_fd (fst (sk_saveError S m e (?s, x))) = - 1
      \<and> keeps_buf s (fst (sk_saveError S m e (?s, x)))" if "fds y = base" for m e x y
    using that o by (simp add: owns_def held_val saveError_fields) (simp add: sk_saveError_def keeps_buf_def)
  obtain r w1 where 1: "os_socket S SockStream w = (r, w1)" by (cases "os_socket S SockStream w")
  show ?thesis
  proof (cases r)
    case None
    then have "fds w1 = base" using posix_fdsD(4) [OF P, of SockStream w w1] 1 o(1) by simp
    then show ?thesis using False 1 None same [of w1 "''socket error''" True w1]
      unfolding sk_newSocket_def prod.case if_not_P [OF False] Let_def nx_def [symmetric] by (simp add: sk_saveError_def)
  next
    case (Some fd)
    have fd: "0 \<le> fd" "fd \<notin> base" "fds w1 = insert fd base" using posix_fdsD(3) [OF P, of SockStream w fd w1] 1 Some o(1) by auto
    obtain b w2 where 2: "(if sk_local_port ?s \<noteq> 0 then os_bind S (Inet 0 (sk_local_port ?s)) fd w1 else (True, w1)) = (b, w2)"
      by (cases "if sk_local_port ?s \<noteq> 0 then os_bind S (Inet 0 (sk_local_port ?s)) fd w1 else (True, w1)")
    have w2: "fds w2 = insert fd base" using 2 posix_fdsD(7) [OF P, of _ fd w1 b w2] fd(3) by (auto split: if_splits)
    obtain b3 w3 where 3: "os_nonblock S fd w2 = (b3, w3)" by (cases "os_nonblock S fd w2")
    have w3: "fds w3 = insert fd base" using posix_fdsD(5) [OF P 3] w2 by simp
    have cl: "fds (os_close S fd x) = base" if "fds x = insert fd base" for x
      using posix_fdsD(1) [OF P, of fd x] that fd(2) by simp
    have run: "sk_newSocket cf S now (s, w) =
       (if \<not> b then (case sk_saveError S ''bind error'' True (?s, w2) of (s, w) \<Rightarrow> Inl (Failed, s, os_close S fd w))
        else if \<not> b3 then (case sk_saveError S ''fcntl O_NONBLOCK error'' True (?s, w3) of (s, w) \<Rightarrow> Inl (Failed, s, os_close S fd w))
        else Inr (?s\<lparr>conn_fd := fd, conn_expire_ts := (if SConnTimeoutSec cf \<noteq> 0 then now + uint (SConnTimeoutSec cf) else int64_max)\<rparr>, w3))"
      unfolding sk_newSocket_def prod.case if_not_P [OF False] Let_def nx_def [symmetric] 1 Some option.case 2 3 by (cases b; cases b3) simp_all
    show ?thesis
      unfolding run using same [OF cl [OF w2]] same [OF cl [OF w3]] fd w3 o(2)
      by (cases b; cases b3) (simp_all add: case_prod_beta saveError_fields keeps_buf_def)
  qed
qed

lemma sk_connect_result:
  fixes s :: "'s SocketTcpClient_scheme"
  assumes P: "posix_fds S fds" and o: "owns fds base (s, w)" "sk_fd s = - 1" and cf: "sk_conf cf" "sk_inv cf s"
  shows "case sk_connect cf S now (s, w) of (r, s', w') \<Rightarrow> owns fds base (s', w') \<and> sk_inv cf s'"
proof -
  have attempt: "case sk_tryConnect cf S now (t, x) of (r, s', w') \<Rightarrow> owns fds base (s', w') \<and> sk_inv cf s'"
    if t: "0 \<le> conn_fd t" "conn_fd t \<notin> base" "fds x = insert (conn_fd t) base" "sk_fd t = - 1" "sk_inv cf t" for t :: "'s SocketTcpClient_scheme" and x
  proof -
    obtain ok y where y: "os_connect S (server_addr t) (conn_fd t) x = (ok, y)" by (cases "os_connect S (server_addr t) (conn_fd t) x")
    have fy: "fds y = insert (conn_fd t) base" using posix_fdsD(9) [OF P y] t(3) by simp
    have cl: "fds (os_close S (conn_fd t) y) = base" using posix_fdsD(1) [OF P, of "conn_fd t" y] fy t(2) by simp
    obtain op s1 z where op: "sk_open cf S now (conn_fd t) (t, y) = (op, s1, z)" by (cases "sk_open cf S now (conn_fd t) (t, y)")
    have i1: "sk_inv cf s1" by (rule sk_open_inv(1) [OF cf(1) t(5) op])
    have u: "sk_inv cf (q\<lparr>conn_fd := f\<rparr>) = sk_inv cf q" "sk_inv cf (q\<lparr>sk_error := m\<rparr>) = sk_inv cf q" for q :: "'s SocketTcpClient_scheme" and f m
      by (simp_all add: sk_inv_def isConnected_def)
    consider (opens) "ok \<or> os_errno S y = EISCONN"
      | (pending) "\<not> (ok \<or> os_errno S y = EISCONN)" "(os_errno S y = EINPROGRESS \<or> os_errno S y = EALREADY) \<and> now < conn_expire_ts t"
      | (fail) "\<not> (ok \<or> os_errno S y = EISCONN)" "\<not> ((os_errno S y = EINPROGRESS \<or> os_errno S y = EALREADY) \<and> now < conn_expire_ts t)" by blast
    then show ?thesis
    proof cases
      case opens
      then show ?thesis using owns_open(1) [OF P t(2,1) fy op] i1 by (simp add: sk_tryConnect_def y op u Let_def)
    next
      case pending
      have "owns fds base (t, y)" using t fy by (auto simp: owns_def held_val)
      then show ?thesis using pending t(5) by (simp add: sk_tryConnect_def y Let_def)
    next
      case fail
      then show ?thesis using cl t(4,5) unfolding sk_tryConnect_def prod.case y Let_def if_not_P [OF fail(1)] if_not_P [OF fail(2)]
        by (simp add: sk_saveError_def owns_def held_val u)
    qed
  qed
  have oo: "fds w = base \<union> held s" "base \<inter> held s = {}" using o(1) by (simp_all add: owns_def)
  show ?thesis
  proof (cases "conn_fd s < 0")
    case True
    have "fds w = base" using oo(1) held_val(2) [OF True] o(2) by simp
    note n = newSocket_result [OF P this o(2) True, of cf now]
    show ?thesis
    proof (cases "sk_newSocket cf S now (s, w)")
      case (Inl a)
      then show ?thesis using n True keeps_buf_facts(2) cf(2) by (cases a) (auto simp: sk_connect_def)
    next
      case (Inr a)
      obtain s1 w1 where a: "a = (s1, w1)" by (cases a)
      then have "sk_inv cf s1" using n Inr keeps_buf_facts(2) cf(2) by auto
      then show ?thesis using attempt [of s1 w1] n Inr True a unfolding sk_connect_def by simp
    qed
  next
    case False
    then have "conn_fd s \<notin> base" "fds w = insert (conn_fd s) base" using oo held_val(1) [of s] o(2) by auto
    then show ?thesis using attempt [of s w] False o(2) cf(2) unfolding sk_connect_def by simp
  qed
qed

lemma client_poll_owns:
  fixes s :: "'s SocketTcpClient_scheme"
  assumes P: "posix_fds S fds" and U: "user_fds fds h" and cf: "sk_conf cf" "reads_ok S" "handler_ok h"
    and o: "owns fds base (s, w)" and inv: "sk_inv cf s"
  shows "\<exists>s' w'. sk_client_poll cf S h now (s, w) = Some (s', w') \<and> owns fds base (s', w') \<and> sk_inv cf s'"
proof -
  have ge: "- 1 \<le> sk_fd t" if "owns fds base (t, x)" for t :: "'s SocketTcpClient_scheme" and x using that by (simp add: owns_def)
  have poll: "\<exists>s' w'. sk_pollConn cf S h now (t, x) = Some (s', w') \<and> owns fds base (s', w') \<and> sk_inv cf s'"
    if t: "owns fds base (t, x)" "sk_inv cf t" for t :: "'s SocketTcpClient_scheme" and x
  proof -
    obtain s' w' where e: "sk_pollConn cf S h now (t, x) = Some (s', w')" "sk_inv cf s'"
      using sk_pollConn_stream [OF cf(1) t(2) cf(2,3), of now x] by blast
    have "fd_step fds (t, x) (s', w')" using ge [OF t(1)] e(1) by (intro fd_step_pollConn [OF P _ U]) simp_all
    then show ?thesis using e owns_step [OF P t(1)] by blast
  qed
  have call: "owns fds base (f (t, x)) \<and> sk_inv cf (fst (f (t, x))) \<and> (sk_fd t = - 1 \<longrightarrow> sk_fd (fst (f (t, x))) = - 1)"
    if f: "f \<in> {sk_onTcpConnected h, sk_onTcpDisconnect h, sk_onTcpConnectFailed h}" and t: "owns fds base (t, x)" "sk_inv cf t"
    for f and t :: "'s SocketTcpClient_scheme" and x
  proof -
    obtain t' x' where e: "f (t, x) = (t', x')" by (cases "f (t, x)")
    have q: "quiet (\<lambda>w. ()) f" using cf(3) f unfolding handler_ok_def by blast
    have k: "keeps_buf t t'" using quietD [OF q e] by simp
    have "fd_step fds (t, x) (f (t, x))" using U f unfolding user_fds_def by blast
    then show ?thesis using e owns_step [OF P t(1)] keeps_buf_facts(2) [OF k t(2)] k by (auto simp: keeps_buf_def)
  qed
  have u: "owns fds base (t\<lparr>report_disconnect := r\<rparr>, x) = owns fds base (t, x)" "sk_inv cf (t\<lparr>report_disconnect := r\<rparr>) = sk_inv cf t"
    for t :: "'s SocketTcpClient_scheme" and r x by (simp_all add: owns_def held_def sk_inv_def isConnected_def)
  show ?thesis
  proof (cases "isConnected s")
    case True
    then show ?thesis using poll [OF o inv] by (simp add: sk_client_poll_def)
  next
    case False
    then have m1: "sk_fd s = - 1" using ge [OF o] by (simp add: isConnected_def)
    define sw1 where "sw1 = (if report_disconnect s then case sk_onTcpDisconnect h (s, w) of (s, w) \<Rightarrow> (s\<lparr>report_disconnect := False\<rparr>, w) else (s, w))"
    obtain s1 w1 where s1: "sw1 = (s1, w1)" "owns fds base (s1, w1)" "sk_inv cf s1" "sk_fd s1 = - 1"
    proof (cases "report_disconnect s")
      case True
      obtain t x where t: "sk_onTcpDisconnect h (s, w) = (t, x)" by (cases "sk_onTcpDisconnect h (s, w)")
      show thesis using that [of "t\<lparr>report_disconnect := False\<rparr>" x] call [of "sk_onTcpDisconnect h", OF _ o inv] t True m1 by (simp add: sw1_def u)
    qed (use that [of s w] o inv m1 in \<open>simp add: sw1_def\<close>)
    obtain r s2 w2 where c: "sk_connect cf S now (s1, w1) = (r, s2, w2)" by (cases "sk_connect cf S now (s1, w1)")
    have c2: "owns fds base (s2, w2)" "sk_inv cf s2" using sk_connect_result [OF P s1(2,4) cf(1) s1(3), of now] by (simp_all add: c)
    have run: "sk_client_poll cf S h now (s, w) = (case (r, s2, w2) of
             (Failed, sw) \<Rightarrow> Some (sk_onTcpConnectFailed h sw)
           | (Pending, sw) \<Rightarrow> Some sw
           | (Success, s, w) \<Rightarrow> sk_pollConn cf S h now (sk_onTcpConnected h (s\<lparr>report_disconnect := True\<rparr>, w)))"
      using False by (simp add: sk_client_poll_def Let_def sw1_def [symmetric] s1(1) c)
    show ?thesis
    proof (cases r)
      case Failed
      obtain t x where t: "sk_onTcpConnectFailed h (s2, w2) = (t, x)" by (cases "sk_onTcpConnectFailed h (s2, w2)")
      show ?thesis using call [of "sk_onTcpConnectFailed h", OF _ c2] t run Failed by simp
    next
      case Pending
      then show ?thesis using c2 run by simp
    next
      case Success
      obtain t x where t: "sk_onTcpConnected h (s2\<lparr>report_disconnect := True\<rparr>, w2) = (t, x)" by (cases "sk_onTcpConnected h (s2\<lparr>report_disconnect := True\<rparr>, w2)")
      have "owns fds base (t, x)" "sk_inv cf t"
        using call [of "sk_onTcpConnected h" "s2\<lparr>report_disconnect := True\<rparr>" w2] c2 t by (simp_all add: u)
      from poll [OF this] show ?thesis using run Success t by simp
    qed
  qed
qed

subsection \<open>Properties\<close>

text \<open>
  C21: \<^verbatim>\<open>SocketTcpClient::poll\<close>, with everything that \<^verbatim>\<open>connect\<close>, \<^verbatim>\<open>open\<close>, \<^verbatim>\<open>read\<close> and
  \<^verbatim>\<open>close\<close> do in it. The open descriptors are always those the client holds, of the connection or
  of the pending attempt but never of both, and those that are not its own: it leaks no descriptor
  on any path and closes none that is not its own.
\<close>

theorem socket_client_no_leak:
  assumes "posix_fds S fds" "user_fds fds h" "sk_conf cf" "reads_ok S" "handler_ok h" "owns fds base (s, w)" "sk_inv cf s"
  shows "\<exists>s' w'. sk_client_poll cf S h now (s, w) = Some (s', w') \<and> owns fds base (s', w') \<and> sk_inv cf s'"
  by (rule client_poll_owns [OF assms])

lemma script_posix: "posix_fds script_sys (\<lambda>w. {fd \<in> set (w_fds w). 0 \<le> fd})"
proof -
  have "new_fd (\<lambda>w. {fd \<in> set (w_fds w). 0 \<le> fd}) (\<lambda>w. (Some (fresh_fd w), w\<lparr>w_fds := fresh_fd w # w_fds w\<rparr>))"
    using fresh_fd_new by (auto simp: new_fd_def)
  then show ?thesis by (auto simp: posix_fds_def same_fds_def script_sys_def split: list.splits)
qed

lemma script_user: "user_fds (\<lambda>w. {fd \<in> set (w_fds w). 0 \<le> fd}) (even_eater :: ('s SocketTcpClient_ext, World) SockHandler)"
  by (simp add: user_fds_def even_eater_def fd_step_def)

definition new_client :: SocketTcpClient where
  "new_client = SocketTcpConnection.extend (open_conn\<lparr>sk_fd := - 1\<rparr>)
     \<lparr>report_disconnect = False, conn_fd = - 1, sk_next_conn_ts = 0, conn_expire_ts = 0, server_addr = Inet 1 2, sk_local_port = 0\<rparr>"

theorem socket_client_no_leak_witness:
  "\<exists>s' w'. sk_client_poll eight_cf script_sys even_eater 9 (new_client, script_world) = Some (s', w')
    \<and> owns (\<lambda>w. {fd \<in> set (w_fds w). 0 \<le> fd}) {3} (s', w') \<and> sk_inv eight_cf s'"
proof -
  have i: "sk_inv eight_cf new_client"
    using open_conn_ok(2) by (simp add: sk_inv_def isConnected_def new_client_def SocketTcpConnection.defs open_conn_def)
  have "sk_fd new_client = - 1" "conn_fd new_client = - 1" by (simp_all add: new_client_def SocketTcpConnection.defs)
  then have "owns (\<lambda>w. {fd \<in> set (w_fds w). 0 \<le> fd}) {3} (new_client, script_world)"
    by (auto simp: owns_def held_val script_world_def)
  from socket_client_no_leak [OF script_posix script_user open_conn_ok(1) script_reads script_watched(1) this i] show ?thesis .
qed

text \<open>
  C32: The initialisation of the datagram sender, the datagram receiver and the raw receiver of
  \<^verbatim>\<open>Socket.h\<close>: each opens exactly one new descriptor and holds it, or fails with none open and the
  object closed, whichever of its steps fails.
\<close>

theorem socket_init_no_leak:
  assumes "posix_fds S fds"
  shows "ud_result fds w (udpReceiver_init S dest_ip dest_port subscribe_ip (s, w))
    \<and> ud_result fds w (udpSender_init S my_ip my_port dest_ip dest_port (s, w))
    \<and> ud_result fds w (ethReceiver_init S ifindex promiscuous (s, w))"
proof -
  have f: "same_fds fds (os_setsockopt S opt fd)" "same_fds fds (os_bind S a fd)" "same_fds fds (os_connect S a fd)" for opt fd a
    using assms unfolding posix_fds_def by blast+
  note steps = ud_step_result [OF assms] ud_socket_result [OF assms]
  show ?thesis
    by (intro conjI) (auto simp: udpReceiver_init_def udpSender_init_def ethReceiver_init_def Let_def intro!: steps f split: option.splits)
qed

theorem socket_init_no_leak_witness:
  "ud_result (\<lambda>w. {fd \<in> set (w_fds w). 0 \<le> fd}) script_world
     (udpReceiver_init script_sys 1 5000 (Some 7) (\<lparr>ud_fd = - 1, ud_error = []\<rparr>, script_world))"
  using socket_init_no_leak [OF script_posix, of script_world 1 5000 "Some 7" "\<lparr>ud_fd = - 1, ud_error = []\<rparr>"] by blast

end
