(* ===== verification/Efvi.thy ===== *)
theory Efvi
  imports TcpClient Socket ResetFrames
begin

text \<open>
  The datagram and Ethernet transports of \<^verbatim>\<open>Efvi.h\<close>, which talk to the card directly. The driver,
  the card and the allocator are a parameter: a record of functions on a state \<open>'o\<close>, which also stands
  for whatever the user's handlers change. A negative return code is an error, as in C. Memory that
  the card writes is read through that record; memory that only the program writes is part of its
  state. A dereference of, or a \<^verbatim>\<open>free\<close> of, a pointer that points to no block is \<open>None\<close>.
\<close>

subsection \<open>The driver and the card\<close>

datatype ef_type = EF_EVENT_TYPE_RX | EF_EVENT_TYPE_TX | EF_EVENT_TYPE_RX_REF | EF_EVENT_TYPE_OTHER nat

record ef_event =
  ev_type :: ef_type
  rx_rq_id :: nat
  rx_bytes :: u32
  ref_pkt_id :: u32
  ref_len :: u16

datatype ef_filter = Ip4Local u32 u16 | PortSniff bool

text \<open>The packed headers of a datagram; multi-byte fields hold what the host reads from memory.\<close>

record ci_ether_hdr =
  ether_dhost :: "u8 list"
  ether_shost :: "u8 list"
  ci_ether_type :: u16

record ci_ip4_hdr =
  ip_ihl_version :: u8
  ip_tos :: u8
  ip_tot_len_be16 :: u16
  ip_id_be16 :: u16
  ip_frag_off_be16 :: u16
  ip_ttl :: u8
  ip_protocol :: u8
  ip_check_be16 :: u16
  ip_saddr_be32 :: u32
  ip_daddr_be32 :: u32

record ci_udp_hdr =
  udp_source_be16 :: u16
  udp_dest_be16 :: u16
  udp_len_be16 :: u16
  udp_check_be16 :: u16

record udp_hdrs =
  u_eth :: ci_ether_hdr
  u_ip4 :: ci_ip4_hdr
  u_udp :: ci_udp_hdr

text \<open>A buffer of the sender: the headers and the room behind them.\<close>

record udp_buf =
  u_post_addr :: u64
  u_hdrs :: udp_hdrs
  u_room :: "u8 list"

record 'o EfVi =
  EF_VI_EVENT_POLL_MIN_EVS :: nat
  ef_strerror :: "int \<Rightarrow> string"
  ef_driver_open :: "'o \<Rightarrow> int \<times> int \<times> 'o"
  ef_driver_close :: "int \<Rightarrow> 'o \<Rightarrow> 'o"
  ef_pd_alloc_by_name :: "int \<Rightarrow> string \<Rightarrow> 'o \<Rightarrow> int \<times> 'o"
  ef_vi_alloc_from_pd :: "int \<Rightarrow> int \<Rightarrow> int \<Rightarrow> 'o \<Rightarrow> int \<times> 'o"
  ef_vi_receive_fill_level :: "'o \<Rightarrow> int"
  ef_vi_receive_prefix_len :: "'o \<Rightarrow> nat"
  ef_ctpio_only :: "int \<Rightarrow> string \<Rightarrow> 'o \<Rightarrow> bool"
  ef_vi_get_mac :: "'o \<Rightarrow> u8 list"
  ef_memreg_alloc :: "int \<Rightarrow> 'o \<Rightarrow> int \<times> 'o"
  ef_memreg_dma_addr :: "nat \<Rightarrow> 'o \<Rightarrow> u64"
  ef_vi_receive_post :: "u64 \<Rightarrow> nat \<Rightarrow> 'o \<Rightarrow> int \<times> 'o"
  ef_filter_spec_set :: "ef_filter \<Rightarrow> int"
  ef_vi_filter_add :: "ef_filter \<Rightarrow> int \<Rightarrow> 'o \<Rightarrow> int \<times> 'o"
  ef_eventq_poll :: "nat \<Rightarrow> 'o \<Rightarrow> ef_event list \<times> 'o"
  efct_vi_rxpkt_get :: "u32 \<Rightarrow> 'o \<Rightarrow> u8 list"
  efct_vi_rxpkt_release :: "u32 \<Rightarrow> 'o \<Rightarrow> 'o"
  ef_vi_transmit_ctpio :: "u8 list \<Rightarrow> 'o \<Rightarrow> 'o"
  ef_vi_transmit_ctpio_fallback :: "u64 \<Rightarrow> u32 \<Rightarrow> u32 \<Rightarrow> 'o \<Rightarrow> int \<times> 'o"
  ef_vi_transmitv_ctpio :: "u8 list \<Rightarrow> 'o \<Rightarrow> 'o"
  ef_vi_transmit_unbundle :: "ef_event \<Rightarrow> 'o \<Rightarrow> 'o"
  rx_buf :: "nat \<Rightarrow> 'o \<Rightarrow> u8 list"
  mmap_huge :: "nat \<Rightarrow> 'o \<Rightarrow> bool \<times> 'o"
  munmap :: "nat \<Rightarrow> 'o \<Rightarrow> 'o"
  posix_memalign :: "nat \<Rightarrow> 'o \<Rightarrow> int \<times> 'o"
  heap_free :: "'o \<Rightarrow> 'o"
  fresh_addrs :: "nat \<Rightarrow> 'o \<Rightarrow> u64 list"
  fresh_bufs :: "nat \<Rightarrow> 'o \<Rightarrow> udp_buf list"

text \<open>A pointer to a block of buffers. \<^verbatim>\<open>MAP_FAILED\<close> is not null.\<close>

datatype 'b block_ptr = Null | MapFailed | Uninit | Block 'b

definition rc_text :: "'o EfVi \<Rightarrow> int \<Rightarrow> string" where
  "rc_text E rc = (if rc < 0 then ef_strerror E (- rc) else '''')"

text \<open>\<^verbatim>\<open>mmap\<close> of huge pages, or else \<^verbatim>\<open>posix_memalign\<close>: the pointer, the flag \<^verbatim>\<open>buf_mmapped\<close> and the return code.\<close>

definition allocBufs :: "'o EfVi \<Rightarrow> nat \<Rightarrow> ('o \<Rightarrow> 'b) \<Rightarrow> 'o \<Rightarrow> ('b block_ptr \<times> bool \<times> int) \<times> 'o" where
  "allocBufs E alloc_size fresh w =
     (case mmap_huge E alloc_size w of
        (True, w) \<Rightarrow> ((Block (fresh w), True, 0), w)
      | (False, w) \<Rightarrow>
          (case posix_memalign E alloc_size w of (rc, w) \<Rightarrow>
             ((if rc = 0 then Block (fresh w) else MapFailed, False, rc), w)))"

definition releaseBufs :: "'o EfVi \<Rightarrow> nat \<Rightarrow> 'b block_ptr \<Rightarrow> bool \<Rightarrow> 'o \<Rightarrow> 'o option" where
  "releaseBufs E alloc_size p mmapped w =
     (case p of
        Null \<Rightarrow> Some w
      | Block b \<Rightarrow> Some (if mmapped then munmap E alloc_size w else heap_free E w)
      | _ \<Rightarrow> None)"

subsection \<open>Receivers\<close>

definition RX_N_BUF :: nat where
  "RX_N_BUF = 511"

definition PKT_BUF_SIZE :: nat where
  "PKT_BUF_SIZE = 2048"

text \<open>Of the memory of the buffers the program writes the posted addresses only.\<close>

record EfviReceiver =
  er_dh :: int
  er_bufs :: "u64 list block_ptr"
  er_mmapped :: bool
  er_error :: string

type_synonym ('s, 'o) er = "'s EfviReceiver_scheme \<times> 'o"

definition er_isClosed :: "'s EfviReceiver_scheme \<Rightarrow> bool" where
  "er_isClosed s \<longleftrightarrow> er_dh s < 0"

definition er_saveError :: "'o EfVi \<Rightarrow> string \<Rightarrow> int \<Rightarrow> 's EfviReceiver_scheme \<Rightarrow> 's EfviReceiver_scheme" where
  "er_saveError E msg rc s = s\<lparr>er_error := error_text msg (rc_text E rc)\<rparr>"

fun er_postLoop :: "'o EfVi \<Rightarrow> nat list \<Rightarrow> u64 list \<Rightarrow> 'o \<Rightarrow> (int \<times> u64 list \<times> 'o) option" where
  "er_postLoop E [] addrs w = Some (0, addrs, w)"
| "er_postLoop E (i # is) addrs w = do {
     let post_addr = ef_memreg_dma_addr E (i * PKT_BUF_SIZE) w + 64;
     addrs \<leftarrow> arr_set addrs i post_addr;
     case ef_vi_receive_post E post_addr i w of (rc, w) \<Rightarrow>
       if rc < 0 then Some (rc, addrs, w) else er_postLoop E is addrs w
   }"

definition er_init :: "'o EfVi \<Rightarrow> string \<Rightarrow> ('s, 'o) er \<Rightarrow> (bool \<times> ('s, 'o) er) option" where
  "er_init E interface sw = (case sw of (s, w) \<Rightarrow>
     case ef_driver_open E w of (rc, dh, w) \<Rightarrow>
     let s = s\<lparr>er_dh := dh\<rparr> in
     if rc < 0 then Some (False, er_saveError E ''ef_driver_open failed'' rc s, w)
     else case ef_pd_alloc_by_name E dh interface w of (rc, w) \<Rightarrow>
     if rc < 0 then Some (False, er_saveError E ''ef_pd_alloc_by_name failed'' rc s, w)
     else case ef_vi_alloc_from_pd E dh (int RX_N_BUF) 0 w of (rc, w) \<Rightarrow>
     if rc < 0 then Some (False, er_saveError E ''ef_vi_alloc_from_pd failed'' rc s, w)
     else if 0 < ef_vi_receive_fill_level E w then Some (True, s, w)
     else case allocBufs E (RX_N_BUF * PKT_BUF_SIZE) (fresh_addrs E RX_N_BUF) w of ((p, m, rc), w) \<Rightarrow>
     let s = s\<lparr>er_bufs := p, er_mmapped := m\<rparr> in
     if rc \<noteq> 0 then Some (False, er_saveError E ''posix_memalign failed'' (- rc) s, w)
     else case ef_memreg_alloc E dh w of (rc, w) \<Rightarrow>
     if rc < 0 then Some (False, er_saveError E ''ef_memreg_alloc failed'' rc s, w)
     else (case p of
       Block addrs \<Rightarrow> do {
         (rc, addrs, w) \<leftarrow> er_postLoop E [0..<RX_N_BUF] addrs w;
         let s = s\<lparr>er_bufs := Block addrs\<rparr>;
         Some (if rc < 0 then (False, er_saveError E ''ef_vi_receive_post failed'' rc s, w) else (True, s, w))
       }
     | _ \<Rightarrow> None))"

definition er_close :: "'o EfVi \<Rightarrow> ('s, 'o) er \<Rightarrow> ('s, 'o) er option" where
  "er_close E sw = (case sw of (s, w) \<Rightarrow>
     let (s, w) = (if 0 \<le> er_dh s then (s\<lparr>er_dh := - 1\<rparr>, ef_driver_close E (er_dh s) w) else (s, w)) in do {
       w \<leftarrow> releaseBufs E (RX_N_BUF * PKT_BUF_SIZE) (er_bufs s) (er_mmapped s) w;
       Some (s\<lparr>er_bufs := Null\<rparr>, w)
     })"

text \<open>
  What every read does with the first event, if there is one: \<open>x2\<close> is called with the memory of the
  buffer, which is posted again afterwards, or \<open>x3\<close> with the packet, which is released afterwards.
\<close>

definition er_event ::
  "'o EfVi \<Rightarrow> (ef_event \<Rightarrow> u8 list \<Rightarrow> 'o \<Rightarrow> (bool \<times> 'o) option) \<Rightarrow> (ef_event \<Rightarrow> u8 list \<Rightarrow> 'o \<Rightarrow> (bool \<times> 'o) option)
     \<Rightarrow> ('s, 'o) er \<Rightarrow> (bool \<times> 'o) option" where
  "er_event E x2 x3 sw = (case sw of (s, w) \<Rightarrow>
     case ef_eventq_poll E 1 w of
       ([], w) \<Rightarrow> Some (False, w)
     | (ev # _, w) \<Rightarrow>
         (case er_bufs s of
            Block addrs \<Rightarrow> do {
              post_addr \<leftarrow> arr_get addrs (rx_rq_id ev);
              (ret, w) \<leftarrow> x2 ev (rx_buf E (rx_rq_id ev) w) w;
              Some (ret, snd (ef_vi_receive_post E post_addr (rx_rq_id ev) w))
            }
          | Null \<Rightarrow> do {
              (ret, w) \<leftarrow> x3 ev (efct_vi_rxpkt_get E (ref_pkt_id ev) w) w;
              Some (ret, efct_vi_rxpkt_release E (ref_pkt_id ev) w)
            }
          | _ \<Rightarrow> None))"

subsection \<open>The datagram receiver\<close>

record EfviUdpReceiver = EfviReceiver +
  udp_prefix_len :: nat
  subscribe_fd :: int

definition ur_init ::
  "'o EfVi \<Rightarrow> 'o Sys \<Rightarrow> string \<Rightarrow> u32 \<Rightarrow> u16 \<Rightarrow> u32 option \<Rightarrow> EfviUdpReceiver \<times> 'o \<Rightarrow> (bool \<times> EfviUdpReceiver \<times> 'o) option" where
  "ur_init E S interface dest_ip dest_port subscribe_ip sw = do {
     (ok, s, w) \<leftarrow> er_init E interface sw;
     if \<not> ok then Some (False, s, w)
     else
       let s = s\<lparr>udp_prefix_len := 64 + ef_vi_receive_prefix_len E w + 14 + 20 + 8\<rparr>;
           spec = Ip4Local dest_ip (htons dest_port);
           rc = ef_filter_spec_set E spec
       in if rc < 0 then Some (False, er_saveError E ''ef_filter_spec_set_ip4_local failed'' rc s, w)
       else case ef_vi_filter_add E spec (er_dh s) w of (rc, w) \<Rightarrow>
         if rc < 0 then Some (False, er_saveError E ''ef_vi_filter_add failed'' rc s, w)
         else case subscribe_ip of
           None \<Rightarrow> Some (True, s, w)
         | Some ip \<Rightarrow>
             (case os_socket S SockDgram w of
                (None, w) \<Rightarrow> Some (False, s\<lparr>subscribe_fd := - 1, er_error := error_text ''socket failed'' (os_strerror S (os_errno S w))\<rparr>, w)
              | (Some fd, w) \<Rightarrow>
                  let s = s\<lparr>subscribe_fd := fd\<rparr> in
                  (case os_setsockopt S (IP_ADD_MEMBERSHIP ip dest_ip) fd w of
                     (True, w) \<Rightarrow> Some (True, s, w)
                   | (False, w) \<Rightarrow>
                       Some (False, s\<lparr>er_error := error_text ''setsockopt IP_ADD_MEMBERSHIP failed'' (os_strerror S (os_errno S w))\<rparr>, w)))
   }"

definition ur_close :: "'o EfVi \<Rightarrow> 'o Sys \<Rightarrow> string \<Rightarrow> EfviUdpReceiver \<times> 'o \<Rightarrow> (EfviUdpReceiver \<times> 'o) option" where
  "ur_close E S reason sw = (case sw of (s, w) \<Rightarrow>
     er_close E
       (if 0 \<le> subscribe_fd s
        then ((er_saveError E reason 0 s)\<lparr>subscribe_fd := - 1\<rparr>, os_close S (subscribe_fd s) w)
        else (s, w)))"

text \<open>
  The handler gets the memory from the first byte of the payload on and the length; the length
  field is at offset -4 from there, the source address and port at -16 and -8.
\<close>

definition udp_data :: "nat \<Rightarrow> u8 list \<Rightarrow> (u8 list \<times> u16) option" where
  "udp_data off mem = do {
     len \<leftarrow> load_bytes (off - 4) 2 mem;
     Some (drop off mem, ntohs (word16 len) - 8)
   }"

definition ur_read :: "'o EfVi \<Rightarrow> (u8 list \<Rightarrow> u16 \<Rightarrow> 'o \<Rightarrow> 'o) \<Rightarrow> EfviUdpReceiver \<times> 'o \<Rightarrow> (bool \<times> 'o) option" where
  "ur_read E handler sw =
     er_event E
       (\<lambda>ev mem w. if ev_type ev = EF_EVENT_TYPE_RX
          then map_option (\<lambda>(data, len). (True, handler data len w)) (udp_data (udp_prefix_len (fst sw)) mem)
          else Some (False, w))
       (\<lambda>ev mem w. if ev_type ev = EF_EVENT_TYPE_RX_REF
          then map_option (\<lambda>(data, len). (True, handler data len w)) (udp_data 42 mem)
          else Some (False, w))
       sw"

definition ur_readNoCheck :: "'o EfVi \<Rightarrow> (u8 list \<Rightarrow> u16 \<Rightarrow> 'o \<Rightarrow> 'o) \<Rightarrow> EfviUdpReceiver \<times> 'o \<Rightarrow> (bool \<times> 'o) option" where
  "ur_readNoCheck E handler sw =
     er_event E
       (\<lambda>ev mem w. map_option (\<lambda>(data, len). (True, handler data len w)) (udp_data (udp_prefix_len (fst sw)) mem))
       (\<lambda>ev mem w. map_option (\<lambda>(data, len). (True, handler data len w)) (udp_data 42 mem))
       sw"

definition udp_from :: "nat \<Rightarrow> u8 list \<Rightarrow> (u8 list \<times> u16 \<times> sock_addr) option" where
  "udp_from off mem = do {
     addr \<leftarrow> load_bytes (off - 16) 4 mem;
     port \<leftarrow> load_bytes (off - 8) 2 mem;
     (data, len) \<leftarrow> udp_data off mem;
     Some (data, len, Inet (word32 addr) (word16 port))
   }"

definition ur_recvfrom :: "'o EfVi \<Rightarrow> (u8 list \<Rightarrow> u16 \<Rightarrow> sock_addr \<Rightarrow> 'o \<Rightarrow> 'o) \<Rightarrow> EfviUdpReceiver \<times> 'o \<Rightarrow> (bool \<times> 'o) option" where
  "ur_recvfrom E handler sw =
     er_event E
       (\<lambda>ev mem w. map_option (\<lambda>(data, len, src). (True, handler data len src w)) (udp_from (udp_prefix_len (fst sw)) mem))
       (\<lambda>ev mem w. map_option (\<lambda>(data, len, src). (True, handler data len src w)) (udp_from 42 mem))
       sw"

subsection \<open>The Ethernet receiver\<close>

record EfviEthReceiver = EfviReceiver +
  rx_prefix_len :: nat

definition eth_init :: "'o EfVi \<Rightarrow> string \<Rightarrow> bool \<Rightarrow> EfviEthReceiver \<times> 'o \<Rightarrow> (bool \<times> EfviEthReceiver \<times> 'o) option" where
  "eth_init E interface promiscuous sw = do {
     (ok, s, w) \<leftarrow> er_init E interface sw;
     if \<not> ok then Some (False, s, w)
     else
       let s = s\<lparr>rx_prefix_len := ef_vi_receive_prefix_len E w\<rparr>;
           spec = PortSniff promiscuous;
           rc = ef_filter_spec_set E spec
       in if rc < 0 then Some (False, er_saveError E ''ef_filter_spec_set_port_sniff failed'' rc s, w)
       else case ef_vi_filter_add E spec (er_dh s) w of (rc, w) \<Rightarrow>
         Some (if rc < 0 then (False, er_saveError E ''ef_vi_filter_add failed'' rc s, w) else (True, s, w))
   }"

definition eth_read :: "'o EfVi \<Rightarrow> (u8 list \<Rightarrow> u32 \<Rightarrow> 'o \<Rightarrow> 'o) \<Rightarrow> EfviEthReceiver \<times> 'o \<Rightarrow> (bool \<times> 'o) option" where
  "eth_read E handler sw =
     er_event E
       (\<lambda>ev mem w. Some (False,
          if ev_type ev = EF_EVENT_TYPE_RX
          then handler (drop (64 + rx_prefix_len (fst sw)) mem) (rx_bytes ev - of_nat (rx_prefix_len (fst sw))) w
          else w))
       (\<lambda>ev mem w. Some (
          if ev_type ev = EF_EVENT_TYPE_RX_REF then (True, handler mem (ucast (ref_len ev)) w) else (False, w)))
       sw"

end
