(* ===== verification/EfviSender.thy ===== *)
theory EfviSender
  imports Efvi
begin

text \<open>
  \<^verbatim>\<open>EfviUdpSender\<close> of \<^verbatim>\<open>Efvi.h\<close>: the hardware address of the peer, the headers of the datagrams, the
  cached sum of the IP header, and the two ways to hand a frame to the card. The output of the route
  command, the ARP file and the conversion of address texts are arguments.
\<close>

subsection \<open>The hardware address of the peer\<close>

text \<open>One line of the ARP file: address, two skipped words, hardware address, a skipped word, device.\<close>

definition arpEntry :: "string \<Rightarrow> (string \<times> string \<times> string \<times> string) option" where
  "arpEntry s = do {
     (ip, s) \<leftarrow> scan_s 63 s;
     (w1, s) \<leftarrow> scan_s (length s) s;
     (w2, s) \<leftarrow> scan_s (length s) s;
     (hw, s) \<leftarrow> scan_s 63 s;
     (w3, s) \<leftarrow> scan_s (length s) s;
     (device, s) \<leftarrow> scan_s 63 s;
     Some (ip, hw, device, s)
   }"

lemma arpEntry_length: "arpEntry s = Some (ip, hw, dev, r) \<Longrightarrow> length r < length s"
  by (auto simp: arpEntry_def bind_eq_Some_conv dest!: scan_s_length)

function arpLoop :: "string \<Rightarrow> string \<Rightarrow> string \<Rightarrow> string option" where
  "arpLoop interface dest_ip file =
     (case arpEntry file of
        None \<Rightarrow> None
      | Some (ip, hw, device, rest) \<Rightarrow>
          if ip = dest_ip \<and> interface = device then Some hw else arpLoop interface dest_ip rest)"
  by pat_completeness auto
termination
  by (relation "measure (\<lambda>(i, d, f). length f)") (auto dest: arpEntry_length)

declare arpLoop.simps [simp del]

text \<open>
  The messages that \<^verbatim>\<open>getMacFromARP\<close> saves when the file cannot be read are overwritten: the file is read the
  same way for the gateway, and \<^verbatim>\<open>init\<close> then saves its own.
\<close>

definition getMacFromARP :: "string option \<Rightarrow> string \<Rightarrow> string \<Rightarrow> string option" where
  "getMacFromARP arp interface dest_ip =
     (case arp of
        None \<Rightarrow> None
      | Some file \<Rightarrow> (case fgets 1024 file of (header, rest) \<Rightarrow> if header = [] then None else arpLoop interface dest_ip rest))"

text \<open>
  \<^verbatim>\<open>sscanf\<close> with \<^verbatim>\<open>"%*s via %s"\<close>: a word, the literal, and the gateway, whose array has 64 bytes.
\<close>

definition scanVia :: "string \<Rightarrow> string option" where
  "scanVia buf = do {
     (w, s) \<leftarrow> scan_s (length buf) buf;
     let s = dropWhile is_space s;
     if take 3 s = ''via'' then map_option fst (scan_s (length s) (drop 3 s)) else None
   }"

function gwLoop :: "string \<Rightarrow> string option option" where
  "gwLoop pipe =
     (case fgets 1024 pipe of (buf, pipe') \<Rightarrow>
        if buf = [] then Some None
        else case scanVia buf of
          Some gw \<Rightarrow> if length gw < 64 then Some (Some gw) else None
        | None \<Rightarrow> gwLoop pipe')"
  by pat_completeness auto
termination
proof (relation "measure length", goal_cases)
  case (2 pipe p buf)
  have "length buf < length pipe" if "fgets 1024 pipe = (p, buf)" "p \<noteq> []"
    using fgets_length [of 1024 pipe] that by (cases p) simp_all
  with 2 show ?case by (simp only: in_measure split: prod.splits) simp
qed simp

declare gwLoop.simps [simp del]

text \<open>The command is written to an array of 1024 bytes.\<close>

definition getGW :: "(string \<Rightarrow> string option) \<Rightarrow> string \<Rightarrow> string option option" where
  "getGW route ip =
     (if 24 + length ip \<le> 1024 then (case route ip of None \<Rightarrow> Some None | Some pipe \<Rightarrow> gwLoop pipe) else None)"

definition us_hexchartoi :: "char \<Rightarrow> u8" where
  "us_hexchartoi c =
     (if CHR ''0'' \<le> c \<and> c \<le> CHR ''9'' then of_nat (of_char c - of_char (CHR ''0''))
      else if CHR ''A'' \<le> c \<and> c \<le> CHR ''F'' then of_nat (of_char c - of_char (CHR ''A'') + 10)
      else if CHR ''a'' \<le> c \<and> c \<le> CHR ''f'' then of_nat (of_char c - of_char (CHR ''a'') + 10)
      else 0)"

definition us_destMac ::
  "string option \<Rightarrow> (string \<Rightarrow> string option) \<Rightarrow> string \<Rightarrow> string \<Rightarrow> u32 \<Rightarrow> (string + u8 list) option" where
  "us_destMac arp route interface dest_ip addr =
     (if addr AND 0xff < 224 then do {
        mac \<leftarrow> (case getMacFromARP arp interface dest_ip of
          Some hw \<Rightarrow> Some (Some hw)
        | None \<Rightarrow> map_option (\<lambda>gw. case gw of None \<Rightarrow> None | Some gw \<Rightarrow> getMacFromARP arp interface gw) (getGW route dest_ip));
        Some (case mac of
          None \<Rightarrow> Inl ''Can't find dest ip from arp cache, please ping dest ip first''
        | Some hw \<Rightarrow>
            if length hw \<noteq> 17 then Inl ''invalid dest_mac_addr''
            else Inr (map (\<lambda>i. us_hexchartoi (hw ! (3 * i)) * 16 + us_hexchartoi (hw ! (3 * i + 1))) [0..<6]))
      }
      else Some (Inr [0x1, 0, 0x5e, 0x7f AND ucast (drop_bit 8 addr), ucast (drop_bit 16 addr), ucast (drop_bit 24 addr)]))"

subsection \<open>The headers\<close>

definition ci_ip4_hdr_init :: "nat \<Rightarrow> u16 \<Rightarrow> u16 \<Rightarrow> u8 \<Rightarrow> u32 \<Rightarrow> u32 \<Rightarrow> ci_ip4_hdr" where
  "ci_ip4_hdr_init opts_len len id_be16 proto saddr_be32 daddr_be32 =
     \<lparr>ip_ihl_version = of_nat (64 + (20 + opts_len) div 4), ip_tos = 0, ip_tot_len_be16 = htons len, ip_id_be16 = id_be16,
      ip_frag_off_be16 = 0x0040, ip_ttl = 64, ip_protocol = proto, ip_check_be16 = 0,
      ip_saddr_be32 = saddr_be32, ip_daddr_be32 = daddr_be32\<rparr>"

definition ci_udp_hdr_init :: "u16 \<Rightarrow> u16 \<Rightarrow> u16 \<Rightarrow> ci_udp_hdr" where
  "ci_udp_hdr_init sport_be16 dport_be16 payload_len =
     \<lparr>udp_source_be16 = sport_be16, udp_dest_be16 = dport_be16, udp_len_be16 = htons (8 + payload_len), udp_check_be16 = 0\<rparr>"

definition init_udp_pkt :: "u32 \<Rightarrow> u16 \<Rightarrow> u8 list \<Rightarrow> u32 \<Rightarrow> u16 \<Rightarrow> u8 list \<Rightarrow> udp_hdrs" where
  "init_udp_pkt loc_ip local_port_be loc_mac dest_ip dest_port_be dst_hw =
     \<lparr>u_eth = \<lparr>ether_dhost = dst_hw, ether_shost = loc_mac, ci_ether_type = htons 0x0800\<rparr>,
      u_ip4 = ci_ip4_hdr_init 0 0 0 17 loc_ip dest_ip,
      u_udp = ci_udp_hdr_init local_port_be dest_port_be 0\<rparr>"

text \<open>The bytes of the headers in memory.\<close>

definition eth_bytes :: "ci_ether_hdr \<Rightarrow> u8 list" where
  "eth_bytes h = ether_dhost h @ ether_shost h @ bytes16 (ci_ether_type h)"

definition ip4_bytes :: "ci_ip4_hdr \<Rightarrow> u8 list" where
  "ip4_bytes h = [ip_ihl_version h, ip_tos h] @ bytes16 (ip_tot_len_be16 h) @ bytes16 (ip_id_be16 h) @ bytes16 (ip_frag_off_be16 h)
     @ [ip_ttl h, ip_protocol h] @ bytes16 (ip_check_be16 h) @ bytes32 (ip_saddr_be32 h) @ bytes32 (ip_daddr_be32 h)"

definition udp_bytes :: "ci_udp_hdr \<Rightarrow> u8 list" where
  "udp_bytes h = bytes16 (udp_source_be16 h) @ bytes16 (udp_dest_be16 h) @ bytes16 (udp_len_be16 h) @ bytes16 (udp_check_be16 h)"

definition hdrs_bytes :: "udp_hdrs \<Rightarrow> u8 list" where
  "hdrs_bytes h = eth_bytes (u_eth h) @ ip4_bytes (u_ip4 h) @ udp_bytes (u_udp h)"

text \<open>The sum of the words of the IP header, as \<^verbatim>\<open>init\<close> computes and folds it.\<close>

definition ipsumCache :: "udp_hdrs \<Rightarrow> u32" where
  "ipsumCache h =
     (let s = foldl (\<lambda>s v. s + ucast v) 0 (byte_words (ip4_bytes (u_ip4 h)));
          s = drop_bit 16 s + (s AND 0xffff)
      in s + drop_bit 16 s)"

definition update_udp_pkt :: "u32 \<Rightarrow> u32 \<Rightarrow> udp_hdrs \<Rightarrow> udp_hdrs" where
  "update_udp_pkt ipsum_cache paylen h =
     (let iplen = htons (ucast (28 + paylen));
          ipsum = ipsum_cache + ucast iplen;
          ipsum = ipsum + drop_bit 16 ipsum
      in h\<lparr>u_ip4 := (u_ip4 h)\<lparr>ip_tot_len_be16 := iplen, ip_check_be16 := ucast (NOT ipsum AND 0xffff)\<rparr>,
           u_udp := (u_udp h)\<lparr>udp_len_be16 := htons (ucast (8 + paylen))\<rparr>\<rparr>)"

subsection \<open>The sender\<close>

definition TX_N_BUF :: nat where
  "TX_N_BUF = 128"

text \<open>The members of the union: the buffers and the index of the older cards, the headers of the newer one.\<close>

record EfviUdpSender =
  us_dh :: int
  ipsum_cache :: u32
  is_x3 :: bool
  x2_bufs :: "udp_buf list block_ptr"
  x2_index :: u32
  x2_mmapped :: bool
  x3_eth :: udp_hdrs
  us_error :: string

definition us_saveError :: "'o EfVi \<Rightarrow> string \<Rightarrow> int \<Rightarrow> EfviUdpSender \<Rightarrow> EfviUdpSender" where
  "us_saveError E msg rc s = s\<lparr>us_error := error_text msg (rc_text E rc)\<rparr>"

fun us_bufLoop :: "'o EfVi \<Rightarrow> udp_hdrs \<Rightarrow> nat list \<Rightarrow> udp_buf list \<Rightarrow> 'o \<Rightarrow> udp_buf list option" where
  "us_bufLoop E eth [] bufs w = Some bufs"
| "us_bufLoop E eth (i # is) bufs w = do {
     b \<leftarrow> arr_get bufs i;
     bufs \<leftarrow> arr_set bufs i (b\<lparr>u_post_addr := ef_memreg_dma_addr E (i * PKT_BUF_SIZE) w + 8, u_hdrs := eth\<rparr>);
     us_bufLoop E eth is bufs w
   }"

definition us_initX2 :: "'o EfVi \<Rightarrow> udp_hdrs \<Rightarrow> EfviUdpSender \<times> 'o \<Rightarrow> (bool \<times> EfviUdpSender \<times> 'o) option" where
  "us_initX2 E eth sw = (case sw of (s, w) \<Rightarrow>
     case allocBufs E (TX_N_BUF * PKT_BUF_SIZE) (fresh_bufs E TX_N_BUF) w of ((p, m, rc), w) \<Rightarrow>
     let s = s\<lparr>x2_index := 0, x2_bufs := p, x2_mmapped := m\<rparr> in
     if rc \<noteq> 0 then Some (False, us_saveError E ''posix_memalign failed'' (- rc) s, w)
     else case ef_memreg_alloc E (us_dh s) w of (rc, w) \<Rightarrow>
     if rc < 0 then Some (False, us_saveError E ''ef_memreg_alloc failed'' rc s, w)
     else (case p of
       Block bufs \<Rightarrow> do {
         bufs \<leftarrow> us_bufLoop E eth [0..<TX_N_BUF] bufs w;
         Some (True, s\<lparr>x2_bufs := Block bufs\<rparr>, w)
       }
     | _ \<Rightarrow> None))"

definition us_init ::
  "'o EfVi \<Rightarrow> string option \<Rightarrow> (string \<Rightarrow> string option) \<Rightarrow> (string \<Rightarrow> u32) \<Rightarrow> string \<Rightarrow> string \<Rightarrow> u16 \<Rightarrow> string \<Rightarrow> u16
     \<Rightarrow> EfviUdpSender \<times> 'o \<Rightarrow> (bool \<times> EfviUdpSender \<times> 'o) option" where
  "us_init E arp route pton interface loc_ip local_port dest_ip dest_port sw = (case sw of (s, w) \<Rightarrow> do {
     mac \<leftarrow> us_destMac arp route interface dest_ip (pton dest_ip);
     case mac of
       Inl err \<Rightarrow> Some (False, us_saveError E err 0 s, w)
     | Inr dst_hw \<Rightarrow>
         (case ef_driver_open E w of (rc, dh, w) \<Rightarrow>
          let s = s\<lparr>us_dh := dh\<rparr> in
          if rc < 0 then Some (False, us_saveError E ''ef_driver_open failed'' rc s, w)
          else case ef_pd_alloc_by_name E dh interface w of (rc, w) \<Rightarrow>
          if rc < 0 then Some (False, us_saveError E ''ef_pd_alloc_by_name failed'' rc s, w)
          else
            let s = (if ef_ctpio_only E dh interface w then s\<lparr>is_x3 := True\<rparr> else s) in
            case ef_vi_alloc_from_pd E dh 0 (if is_x3 s then - 1 else int TX_N_BUF) w of (rc, w) \<Rightarrow>
            if rc < 0 then Some (False, us_saveError E ''ef_vi_alloc_from_pd failed'' rc s, w)
            else
              let eth = init_udp_pkt (pton loc_ip) (htons local_port) (ef_vi_get_mac E w) (pton dest_ip) (htons dest_port) dst_hw;
                  s = s\<lparr>ipsum_cache := ipsumCache eth\<rparr>
              in if is_x3 s then Some (True, s\<lparr>x3_eth := eth\<rparr>, w) else us_initX2 E eth (s, w))
   })"

definition us_isClosed :: "EfviUdpSender \<Rightarrow> bool" where
  "us_isClosed s \<longleftrightarrow> us_dh s < 0"

definition us_close :: "'o EfVi \<Rightarrow> EfviUdpSender \<times> 'o \<Rightarrow> (EfviUdpSender \<times> 'o) option" where
  "us_close E sw = (case sw of (s, w) \<Rightarrow>
     let (s, w) = (if 0 \<le> us_dh s then (s\<lparr>us_dh := - 1\<rparr>, ef_driver_close E (us_dh s) w) else (s, w)) in
     if is_x3 s then Some (s, w)
     else do {
       w \<leftarrow> releaseBufs E (TX_N_BUF * PKT_BUF_SIZE) (x2_bufs s) (x2_mmapped s) w;
       Some (s\<lparr>x2_bufs := Null\<rparr>, w)
     })"

definition us_writeX3 :: "'o EfVi \<Rightarrow> u8 list \<Rightarrow> EfviUdpSender \<times> 'o \<Rightarrow> bool \<times> EfviUdpSender \<times> 'o" where
  "us_writeX3 E data sw = (case sw of (s, w) \<Rightarrow>
     let s = s\<lparr>x3_eth := update_udp_pkt (ipsum_cache s) (of_nat (length data)) (x3_eth s)\<rparr>;
         w = ef_vi_transmitv_ctpio E (hdrs_bytes (x3_eth s) @ data) w;
         w = snd (ef_eventq_poll E (EF_VI_EVENT_POLL_MIN_EVS E) w)
     in (True, s, w))"

text \<open>Completed transmissions are taken off the queue.\<close>

definition us_events :: "'o EfVi \<Rightarrow> 'o \<Rightarrow> 'o" where
  "us_events E w = (case ef_eventq_poll E (EF_VI_EVENT_POLL_MIN_EVS E) w of (evs, w) \<Rightarrow>
     foldl (\<lambda>w ev. if ev_type ev = EF_EVENT_TYPE_TX then ef_vi_transmit_unbundle E ev w else w) w evs)"

definition us_write :: "'o EfVi \<Rightarrow> u8 list \<Rightarrow> EfviUdpSender \<times> 'o \<Rightarrow> (bool \<times> EfviUdpSender \<times> 'o) option" where
  "us_write E data sw = (case sw of (s, w) \<Rightarrow>
     if is_x3 s then Some (us_writeX3 E data (s, w))
     else (case x2_bufs s of
       Block bufs \<Rightarrow> do {
         let size = of_nat (length data);
         pkt \<leftarrow> arr_get bufs (unat (x2_index s));
         let h = update_udp_pkt (ipsum_cache s) size (u_hdrs pkt);
         room \<leftarrow> store_bytes 0 data (u_room pkt);
         let pkt = pkt\<lparr>u_hdrs := h, u_room := room\<rparr>;
         bufs \<leftarrow> arr_set bufs (unat (x2_index s)) pkt;
         let frame_len = 42 + size;
         let w = ef_vi_transmit_ctpio E (take (unat frame_len) (hdrs_bytes h @ room)) w;
         let (rc, w) = ef_vi_transmit_ctpio_fallback E (u_post_addr pkt) frame_len (x2_index s) w;
         let s = s\<lparr>x2_bufs := Block bufs, x2_index := (x2_index s + 1) mod of_nat TX_N_BUF\<rparr>;
         Some (rc = 0, s, us_events E w)
       }
     | _ \<Rightarrow> None))"

end
