(* ===== verification/UdpFrames.thy ===== *)
theory UdpFrames
  imports EfviSender
begin

text \<open>
  The datagrams of \<^verbatim>\<open>Efvi.h\<close>: the frames that \<^verbatim>\<open>EfviUdpSender\<close> hands to the card, when their IP
  checksum is right and when it is not, and that \<^verbatim>\<open>EfviUdpReceiver\<close> finds the payload in them.
\<close>

subsection \<open>The words of the IP header\<close>

lemma unat_u8_of_nat: "unat (of_nat n :: u8) = n mod 256"
  by (simp add: unat_of_nat)

lemma bytes16_pair: "\<exists>a b. bytes16 x = [a, b] \<and> le16 a b = x"
proof -
  have "bytes16 x = [of_nat (unat x), of_nat (unat x div 256)]" by (simp add: bytes16_def numeral_2_eq_2)
  moreover have "le16 (of_nat (unat x)) (of_nat (unat x div 256)) = x"
  proof (rule word_unat_eq_iff [THEN iffD2])
    have "unat x div 256 < 256" using unat_lt_u16 [of x] by linarith
    then have "unat (of_nat (unat x) :: u8) = unat x mod 256" "unat (of_nat (unat x div 256) :: u8) = unat x div 256"
      by (simp_all only: unat_u8_of_nat mod_less)
    then show "unat (le16 (of_nat (unat x)) (of_nat (unat x div 256))) = unat x" unfolding le16_unat by simp
  qed
  ultimately show ?thesis by blast
qed

lemma byte_words_bytes16 [simp]: "byte_words (bytes16 x @ bs) = x # byte_words bs"
  using bytes16_pair [of x] by auto

lemma bytes32_halves: "bytes32 v = bytes16 (ucast v) @ bytes16 (ucast (drop_bit 16 v))"
proof -
  have l: "unat (ucast v :: u16) = unat v mod 65536" by (rule unat_ucast_u32_u16)
  have h: "unat (ucast (drop_bit 16 v) :: u16) = unat v div 65536" by (simp add: unat_ucast_u32_u16 unat_drop_bit)
  have m: "(of_nat (n mod 65536) :: u8) = of_nat n" "(of_nat (n mod 65536 div 256) :: u8) = of_nat (n div 256)" for n :: nat
  proof -
    have "n mod (256 * 256) = 256 * (n div 256 mod 256) + n mod 256" by (rule mod_mult2_eq)
    then have "n mod 65536 div 256 = n div 256 mod 256" "n mod 65536 mod 256 = n mod 256" by simp_all
    then show "(of_nat (n mod 65536) :: u8) = of_nat n" "(of_nat (n mod 65536 div 256) :: u8) = of_nat (n div 256)"
      by (simp_all only: word_unat_eq_iff unat_u8_of_nat mod_mod_trivial)
  qed
  have d: "unat v div 256 div 256 = unat v div 65536" "unat v div 256 div 256 div 256 = unat v div 65536 div 256" by (simp_all flip: div_mult2_eq)
  have n4: "(4 :: nat) = Suc (Suc (Suc (Suc 0)))" and n2: "(2 :: nat) = Suc (Suc 0)" by simp_all
  show ?thesis unfolding bytes32_def bytes16_def l h n4 n2 le_bytes.simps m d by simp
qed

lemma byte_words_bytes32 [simp]: "byte_words (bytes32 v @ bs) = halves v @ byte_words bs" "byte_words (bytes32 v) = halves v"
  using byte_words_bytes16 [of "ucast (drop_bit 16 v)" "[]"] by (simp_all add: bytes32_halves halves_def)

lemma ip4_words:
  "byte_words (ip4_bytes h) = [le16 (ip_ihl_version h) (ip_tos h), ip_tot_len_be16 h, ip_id_be16 h, ip_frag_off_be16 h,
     le16 (ip_ttl h) (ip_protocol h), ip_check_be16 h] @ halves (ip_saddr_be32 h) @ halves (ip_daddr_be32 h)"
  by (simp add: ip4_bytes_def)

definition ip4_sum :: "ci_ip4_hdr \<Rightarrow> nat" where
  "ip4_sum h = words_sum (byte_words (ip4_bytes h))"

lemma ip4_sum_fields: "ip4_sum (h\<lparr>ip_tot_len_be16 := l, ip_check_be16 := k\<rparr>) = ip4_sum (h\<lparr>ip_tot_len_be16 := 0, ip_check_be16 := 0\<rparr>) + unat l + unat k"
  by (simp add: ip4_sum_def ip4_words)

lemma ip4_sum_le: "ip4_sum h \<le> 655350"
  using words_sum_le [of "byte_words (ip4_bytes h)"] by (simp add: ip4_sum_def ip4_words halves_def)

lemma foldl_words: "unat s + words_sum ws < 4294967296 \<Longrightarrow> unat (foldl (\<lambda>s v. s + ucast v) (s :: u32) ws) = unat s + words_sum ws"
proof (induction ws arbitrary: s)
  case (Cons v ws)
  then have "unat (s + ucast v) = unat s + unat v" by (intro unat_add_u32_nowrap [THEN trans]) simp_all
  then show ?case using Cons by simp
qed simp

subsection \<open>The cached sum\<close>

text \<open>The sum after the first fold, which may still have a carry.\<close>

definition folded :: "ci_ip4_hdr \<Rightarrow> nat" where
  "folded h = ip4_sum h div 65536 + ip4_sum h mod 65536"

lemma folded_le: "folded h \<le> 65544"
proof -
  have "ip4_sum h div 65536 \<le> 9" using ip4_sum_le [of h] by linarith
  moreover have "ip4_sum h mod 65536 < 65536" by simp
  ultimately show ?thesis unfolding folded_def by linarith
qed

lemma folded_mod: "folded h mod 65535 = ip4_sum h mod 65535"
proof -
  have "ip4_sum h = 65535 * (ip4_sum h div 65536) + folded h" unfolding folded_def by simp
  then show ?thesis by (metis mod_mult_self4)
qed

lemma ipsumCache_val: "unat (ipsumCache h) = folded (u_ip4 h) + folded (u_ip4 h) div 65536"
proof -
  let ?s = "foldl (\<lambda>s v. s + ucast v) (0 :: u32) (byte_words (ip4_bytes (u_ip4 h)))"
  have s: "unat ?s = ip4_sum (u_ip4 h)" using foldl_words [of 0] ip4_sum_le [of "u_ip4 h"] by (simp add: ip4_sum_def)
  have "unat (drop_bit 16 ?s + (?s AND 0xffff)) = folded (u_ip4 h)"
    using folded_le [of "u_ip4 h"] by (subst unat_add_u32_nowrap) (simp_all add: unat_drop_bit unat_and_ffff s folded_def)
  then show ?thesis unfolding ipsumCache_def Let_def
    using folded_le [of "u_ip4 h"] by (subst unat_add_u32_nowrap) (simp_all add: unat_drop_bit)
qed

definition udp_iplen :: "nat \<Rightarrow> nat" where
  "udp_iplen n = unat (htons (of_nat (28 + n)))"

text \<open>The checksum that \<^verbatim>\<open>update_udp_pkt\<close> stores.\<close>

lemma update_udp_pkt_val:
  fixes h0 h :: udp_hdrs
  assumes "n \<le> 65507"
  defines "x \<equiv> folded (u_ip4 h0) + folded (u_ip4 h0) div 65536 + udp_iplen n"
  shows "update_udp_pkt (ipsumCache h0) (of_nat n) h
    = h\<lparr>u_ip4 := (u_ip4 h)\<lparr>ip_tot_len_be16 := htons (of_nat (28 + n)), ip_check_be16 := of_nat (65535 - (x + x div 65536) mod 65536)\<rparr>,
        u_udp := (u_udp h)\<lparr>udp_len_be16 := htons (of_nat (8 + n))\<rparr>\<rparr>"
proof -
  have c: "(ucast (28 + of_nat n :: u32) :: u16) = of_nat (28 + n)" "(ucast (8 + of_nat n :: u32) :: u16) = of_nat (8 + n)"
    by (rule word_unat_eq_iff [THEN iffD2], simp add: unat_ucast_u32_u16 unat_of_nat unat_word_ariths mod_mod_cancel mod_simps)+
  let ?i = "ipsumCache h0 + ucast (htons (of_nat (28 + n)) :: u16)"
  have lt: "x < 200000" using folded_le [of "u_ip4 h0"] unat_lt_u16 [of "htons (of_nat (28 + n))"] unfolding x_def udp_iplen_def by linarith
  have i: "unat ?i = x" using lt unfolding x_def udp_iplen_def by (subst unat_add_u32_nowrap) (simp_all add: ipsumCache_val)
  have j: "unat (?i + drop_bit 16 ?i) = x + x div 65536" using lt i by (subst unat_add_u32_nowrap) (simp_all add: unat_drop_bit)
  have "unat (ucast (NOT (?i + drop_bit 16 ?i) AND 0xffff) :: u16) = 65535 - (x + x div 65536) mod 65536"
  proof -
    have "(ucast (NOT (?i + drop_bit 16 ?i) AND 0xffff) :: u16) = NOT (ucast (?i + drop_bit 16 ?i))"
      by (rule bit_word_eqI) (auto simp: and_ffff_mask bit_simps)
    then show ?thesis by (simp only: unat_not_u16 unat_ucast_u32_u16 j)
  qed
  then have "(ucast (NOT (?i + drop_bit 16 ?i) AND 0xffff) :: u16) = of_nat (65535 - (x + x div 65536) mod 65536)"
    by (simp only: word_unat_eq_iff) (subst unat_of_nat_small, simp_all)
  then show ?thesis unfolding update_udp_pkt_def c Let_def by simp
qed

subsection \<open>When the checksum is right\<close>

text \<open>The headers without what \<^verbatim>\<open>update_udp_pkt\<close> writes.\<close>

definition strip :: "udp_hdrs \<Rightarrow> udp_hdrs" where
  "strip h = h\<lparr>u_ip4 := (u_ip4 h)\<lparr>ip_tot_len_be16 := 0, ip_check_be16 := 0\<rparr>, u_udp := (u_udp h)\<lparr>udp_len_be16 := 0\<rparr>\<rparr>"

lemma strip_update [simp]: "strip (update_udp_pkt x n h) = strip h"
  by (simp add: strip_def update_udp_pkt_def Let_def)

lemma strip_ip4: "strip h = strip h0 \<Longrightarrow>
    (u_ip4 h)\<lparr>ip_tot_len_be16 := l, ip_check_be16 := k\<rparr> = (u_ip4 h0)\<lparr>ip_tot_len_be16 := l, ip_check_be16 := k\<rparr>"
  by (cases "u_ip4 h"; cases "u_ip4 h0") (auto simp: strip_def dest!: arg_cong [where f = u_ip4])

lemma no_carry_check:
  fixes F l :: nat
  assumes "F < 65536" "l < 65536" "x = F + F div 65536 + l"
  shows "65535 dvd (F + l + (65535 - (x + x div 65536) mod 65536))"
proof (cases "F + l < 65536")
  case True
  then show ?thesis using assms by simp
next
  case False
  then have "x = F + l" "x div 65536 = 1" "(x + 1) mod 65536 = x + 1 - 65536" using assms by (simp_all add: div_nat_eqI mod_nat_eqI)
  then have "F + l + (65535 - (x + x div 65536) mod 65536) = 65535 * 2" using assms False by simp
  then show ?thesis by (metis dvd_triv_left)
qed

lemma carry_check:
  fixes F l :: nat
  assumes "65536 \<le> F" "F \<le> 65544" "l < 65536" "x = F + F div 65536 + l"
  shows "65535 dvd (F + l + (65535 - (x + x div 65536) mod 65536)) \<longleftrightarrow> F + l = 131070"
proof -
  have d: "F div 65536 = 1" using assms(1,2) by (intro div_nat_eqI) simp_all
  have n: "\<not> (65535 :: nat) dvd 131069" "\<not> (65535 :: nat) dvd 196604" "(65535 :: nat) dvd 196605" by presburger+
  consider (low) "F + l < 131070" | (mid) "F + l = 131070" | (high) "131070 < F + l" by linarith
  then show ?thesis
  proof cases
    case low
    then have x1: "x div 65536 = 1" "(x + 1) mod 65536 = x + 1 - 65536" using assms d by (simp_all add: div_nat_eqI mod_nat_eqI)
    then have "F + l + (65535 - (x + x div 65536) mod 65536) = 131069" using low assms(1,4) d by (simp only: x1)
    then show ?thesis using n low by simp
  next
    case mid
    then have "x = 131071" using assms(4) d by simp
    then show ?thesis using mid n by simp
  next
    case high
    then have x2: "x div 65536 = 2" "(x + 2) mod 65536 = x + 2 - 131072" using assms d by (simp_all add: div_nat_eqI mod_nat_eqI)
    then have "F + l + (65535 - (x + x div 65536) mod 65536) = 196604" using high assms d by (simp only: x2)
    then show ?thesis using n high by simp
  qed
qed

text \<open>The IP checksum of an updated packet is right, up to one length, exactly when the first fold has no carry.\<close>

lemma udp_checksum_iff:
  assumes "strip h = strip h0" "ip_tot_len_be16 (u_ip4 h0) = 0" "ip_check_be16 (u_ip4 h0) = 0" "n \<le> 65507"
  shows "csum_valid (byte_words (ip4_bytes (u_ip4 (update_udp_pkt (ipsumCache h0) (of_nat n) h))))
    \<longleftrightarrow> folded (u_ip4 h0) < 65536 \<or> folded (u_ip4 h0) + udp_iplen n = 131070"
proof -
  let ?F = "folded (u_ip4 h0)" and ?l = "udp_iplen n"
  define x where "x = ?F + ?F div 65536 + ?l"
  define k where "k = 65535 - (x + x div 65536) mod 65536"
  let ?ip = "u_ip4 (update_udp_pkt (ipsumCache h0) (of_nat n) h)"
  have l: "?l < 65536" by (simp add: udp_iplen_def)
  have k: "unat (of_nat k :: u16) = k" by (intro unat_of_nat_small) (simp add: k_def)
  have z: "(u_ip4 h0)\<lparr>ip_tot_len_be16 := 0, ip_check_be16 := 0\<rparr> = u_ip4 h0" using assms(2,3) by simp
  have ip: "?ip = (u_ip4 h0)\<lparr>ip_tot_len_be16 := htons (of_nat (28 + n)), ip_check_be16 := of_nat k\<rparr>"
    unfolding update_udp_pkt_val [OF assms(4)] x_def [symmetric] k_def [symmetric] using strip_ip4 [OF assms(1)] by simp
  have sum: "ip4_sum ?ip = ip4_sum (u_ip4 h0) + ?l + k" unfolding ip ip4_sum_fields z k by (simp add: udp_iplen_def)
  have pos: "0 < ?l"
  proof -
    define m :: u16 where "m = of_nat (28 + n)"
    have "unat m = 28 + n" unfolding m_def using assms(4) by (intro unat_of_nat_small) simp
    then have "unat (htons m) \<noteq> 0" using unat_htons [of "htons m"] by auto
    then show ?thesis by (simp add: udp_iplen_def m_def)
  qed
  have "(ip4_sum (u_ip4 h0) + (?l + k)) mod 65535 = (?F + (?l + k)) mod 65535"
    using folded_mod [of "u_ip4 h0"] by (metis mod_add_left_eq)
  then have "65535 dvd ip4_sum ?ip \<longleftrightarrow> 65535 dvd (?F + ?l + k)" unfolding sum by (simp add: dvd_eq_mod_eq_0 add.assoc)
  moreover have "csum_valid (byte_words (ip4_bytes ?ip)) \<longleftrightarrow> 0 < ip4_sum ?ip \<and> 65535 dvd ip4_sum ?ip"
    unfolding ip4_sum_def by (intro csum_valid_iff) (simp add: ip4_words halves_def)
  ultimately have "csum_valid (byte_words (ip4_bytes ?ip)) \<longleftrightarrow> 65535 dvd (?F + ?l + k)" using pos sum by simp
  then show ?thesis
    using no_carry_check [OF _ l x_def] carry_check [OF _ folded_le [of "u_ip4 h0"] l x_def] unfolding k_def
    by (cases "?F < 65536") simp_all
qed

subsection \<open>Sending\<close>

definition hdrs_new :: "udp_hdrs \<Rightarrow> bool" where
  "hdrs_new h \<longleftrightarrow> length (ether_dhost (u_eth h)) = 6 \<and> length (ether_shost (u_eth h)) = 6
     \<and> ip_tot_len_be16 (u_ip4 h) = 0 \<and> ip_check_be16 (u_ip4 h) = 0"

text \<open>A sender that was set up with the headers \<open>h0\<close>.\<close>

definition us_ready :: "udp_hdrs \<Rightarrow> EfviUdpSender \<Rightarrow> bool" where
  "us_ready h0 s \<longleftrightarrow> ipsum_cache s = ipsumCache h0
     \<and> (if is_x3 s then strip (x3_eth s) = strip h0
        else (case x2_bufs s of
          Block bufs \<Rightarrow> length bufs = TX_N_BUF \<and> unat (x2_index s) < TX_N_BUF
            \<and> (\<forall>b \<in> set bufs. strip (u_hdrs b) = strip h0 \<and> length (u_room b) = PKT_BUF_SIZE - 50)
        | _ \<Rightarrow> False))"

text \<open>
  What the code relies on: the first transmission of a frame is the one that counts (the fallback
  repeats it when the card refused it), polling and taking off events send nothing.
\<close>

definition card_sends :: "'o EfVi \<Rightarrow> ('o \<Rightarrow> u8 list list) \<Rightarrow> bool" where
  "card_sends E sent \<longleftrightarrow>
     (\<forall>f w. sent (ef_vi_transmit_ctpio E f w) = sent w @ [f]) \<and> (\<forall>f w. sent (ef_vi_transmitv_ctpio E f w) = sent w @ [f])
     \<and> (\<forall>a l i w. sent (snd (ef_vi_transmit_ctpio_fallback E a l i w)) = sent w)
     \<and> (\<forall>n w. sent (snd (ef_eventq_poll E n w)) = sent w) \<and> (\<forall>ev w. sent (ef_vi_transmit_unbundle E ev w) = sent w)"

text \<open>A frame that carries \<open>data\<close> under the headers \<open>h0\<close>.\<close>

definition datagram :: "udp_hdrs \<Rightarrow> u8 list \<Rightarrow> u8 list \<Rightarrow> bool" where
  "datagram h0 data fr \<longleftrightarrow> (\<exists>h. fr = hdrs_bytes h @ data \<and> strip h = strip h0
     \<and> unat (ntohs (ip_tot_len_be16 (u_ip4 h))) = 28 + length data \<and> unat (ntohs (udp_len_be16 (u_udp h))) = 8 + length data
     \<and> csum_valid (byte_words (ip4_bytes (u_ip4 h))))"

fun us_writes :: "'o EfVi \<Rightarrow> u8 list list \<Rightarrow> EfviUdpSender \<times> 'o \<Rightarrow> (EfviUdpSender \<times> 'o) option" where
  "us_writes E [] sw = Some sw"
| "us_writes E (data # ds) sw = do {
     (ok, sw) \<leftarrow> us_write E data sw;
     us_writes E ds sw
   }"

lemma hdrs_bytes_length: "hdrs_new h0 \<Longrightarrow> strip h = strip h0 \<Longrightarrow> length (hdrs_bytes h) = 42"
proof -
  assume "hdrs_new h0" "strip h = strip h0"
  then have "u_eth h = u_eth h0" by (auto simp: strip_def dest: arg_cong [where f = u_eth])
  with \<open>hdrs_new h0\<close> show ?thesis by (simp add: hdrs_bytes_def eth_bytes_def ip4_bytes_def udp_bytes_def hdrs_new_def)
qed

lemma datagram_update:
  assumes "hdrs_new h0" "strip h = strip h0" "folded (u_ip4 h0) < 65536" "length data \<le> 1998"
  shows "datagram h0 data (hdrs_bytes (update_udp_pkt (ipsumCache h0) (of_nat (length data)) h) @ data)"
proof -
  let ?h = "update_udp_pkt (ipsumCache h0) (of_nat (length data)) h"
  have "unat (of_nat (28 + length data) :: u16) = 28 + length data" "unat (of_nat (8 + length data) :: u16) = 8 + length data"
    using assms(4) by (intro unat_of_nat_small; simp)+
  then have "unat (ntohs (ip_tot_len_be16 (u_ip4 ?h))) = 28 + length data" "unat (ntohs (udp_len_be16 (u_udp ?h))) = 8 + length data"
    using assms(4) by (simp_all add: update_udp_pkt_val del: of_nat_add)
  moreover have "csum_valid (byte_words (ip4_bytes (u_ip4 ?h)))"
    using udp_checksum_iff [OF assms(2), of "length data"] assms by (simp add: hdrs_new_def)
  ultimately show ?thesis using assms(2) unfolding datagram_def by (intro exI [of _ ?h]) simp
qed

lemma us_events_sent: "card_sends E sent \<Longrightarrow> sent (us_events E w) = sent w"
proof -
  assume c: "card_sends E sent"
  have "sent (foldl (\<lambda>w ev. if ev_type ev = EF_EVENT_TYPE_TX then ef_vi_transmit_unbundle E ev w else w) w evs) = sent w" for evs w
    using c by (induction evs arbitrary: w) (simp_all add: card_sends_def)
  moreover obtain evs w1 where "ef_eventq_poll E (EF_VI_EVENT_POLL_MIN_EVS E) w = (evs, w1)" by fastforce
  moreover from this have "sent w1 = sent w" using c unfolding card_sends_def by (metis snd_conv)
  ultimately show ?thesis by (simp add: us_events_def)
qed

lemma us_write_sends:
  assumes r: "us_ready h0 s" and h: "hdrs_new h0" "folded (u_ip4 h0) < 65536" and c: "card_sends E sent" and d: "length data \<le> 1998"
  shows "\<exists>ok s' w' fr. us_write E data (s, w) = Some (ok, s', w') \<and> us_ready h0 s' \<and> sent w' = sent w @ [fr] \<and> datagram h0 data fr"
proof (cases "is_x3 s")
  case True
  then have x: "strip (x3_eth s) = strip h0" "ipsum_cache s = ipsumCache h0" using r by (simp_all add: us_ready_def)
  then show ?thesis using True c datagram_update [OF h(1) x(1) h(2) d]
    by (intro exI [of _ True]) (simp add: us_write_def us_writeX3_def Let_def us_ready_def card_sends_def)
next
  case False
  then obtain bufs where b: "x2_bufs s = Block bufs" "length bufs = TX_N_BUF" "unat (x2_index s) < TX_N_BUF"
    "\<forall>b \<in> set bufs. strip (u_hdrs b) = strip h0 \<and> length (u_room b) = PKT_BUF_SIZE - 50" and cache: "ipsum_cache s = ipsumCache h0"
    using r by (auto simp: us_ready_def split: block_ptr.splits)
  define pkt where "pkt = bufs ! unat (x2_index s)"
  have p: "strip (u_hdrs pkt) = strip h0" "length (u_room pkt) = 1998"
    using b by (simp_all add: pkt_def PKT_BUF_SIZE_def)
  let ?size = "of_nat (length data) :: u32"
  define h' where "h' = update_udp_pkt (ipsumCache h0) ?size (u_hdrs pkt)"
  define room where "room = data @ drop (length data) (u_room pkt)"
  have st: "store_bytes 0 data (u_room pkt) = Some room" using d p(2) by (simp add: store_bytes_def room_def)
  have "unat (42 + ?size) = 42 + length data"
    using d by (subst unat_add_u32_nowrap) (simp_all add: unat_of_nat_small)
  moreover have "length (hdrs_bytes h') = 42" using p(1) by (intro hdrs_bytes_length [OF h(1)]) (simp add: h'_def)
  ultimately have fr: "take (unat (42 + ?size)) (hdrs_bytes h' @ room) = hdrs_bytes h' @ data" by (simp add: room_def)
  let ?pkt = "pkt\<lparr>u_hdrs := h', u_room := room\<rparr>"
  let ?s = "s\<lparr>x2_bufs := Block (bufs[unat (x2_index s) := ?pkt]), x2_index := (x2_index s + 1) mod of_nat TX_N_BUF\<rparr>"
  obtain rc w1 where f: "ef_vi_transmit_ctpio_fallback E (u_post_addr pkt) (42 + ?size) (x2_index s) (ef_vi_transmit_ctpio E (hdrs_bytes h' @ data) w) = (rc, w1)"
    by fastforce
  have run: "us_write E data (s, w) = Some (rc = 0, ?s, us_events E w1)"
    using False b st f by (simp add: us_write_def arr_get_def arr_set_def pkt_def [symmetric] cache h'_def [symmetric] fr Let_def del: take_append)
  have "sent (us_events E w1) = sent w @ [hdrs_bytes h' @ data]"
    using c f unfolding us_events_sent [OF c] card_sends_def by (metis snd_conv)
  moreover have "datagram h0 data (hdrs_bytes h' @ data)" unfolding h'_def by (rule datagram_update [OF h(1) p(1) h(2) d])
  moreover have "us_ready h0 ?s"
  proof -
    have "unat ((x2_index s + 1) mod of_nat TX_N_BUF) < TX_N_BUF" by (simp add: TX_N_BUF_def unat_mod)
    moreover have "strip h' = strip h0" "length room = PKT_BUF_SIZE - 50" using p d by (simp_all add: h'_def room_def PKT_BUF_SIZE_def)
    ultimately show ?thesis using False b cache set_update_subset_insert [of bufs "unat (x2_index s)" ?pkt]
      by (auto simp: us_ready_def)
  qed
  ultimately show ?thesis using run by blast
qed

lemma us_writes_send:
  assumes "us_ready h0 s" "hdrs_new h0" "folded (u_ip4 h0) < 65536" "card_sends E sent" "list_all (\<lambda>d. length d \<le> 1998) ds"
  shows "\<exists>s' w' frs. us_writes E ds (s, w) = Some (s', w') \<and> us_ready h0 s' \<and> sent w' = sent w @ frs \<and> list_all2 (datagram h0) ds frs"
  using assms(1,5)
proof (induction ds arbitrary: s w)
  case (Cons d ds)
  obtain ok s1 w1 fr where 1: "us_write E d (s, w) = Some (ok, s1, w1)" "us_ready h0 s1" "sent w1 = sent w @ [fr]" "datagram h0 d fr"
    using us_write_sends [OF Cons.prems(1) assms(2-4), of d w] Cons.prems(2) by auto
  obtain s2 w2 frs where "us_writes E ds (s1, w1) = Some (s2, w2)" "us_ready h0 s2" "sent w2 = sent w1 @ frs" "list_all2 (datagram h0) ds frs"
    using Cons.IH [OF 1(2), of w1] Cons.prems(2) by auto
  then show ?case using 1 by (intro exI [of _ s2] exI [of _ w2] exI [of _ "fr # frs"]) simp
qed simp

subsection \<open>Setting up the sender\<close>

text \<open>A card has one address of six bytes, and the memory it shares with the program has the size that was asked for.\<close>

definition card_memory :: "'o EfVi \<Rightarrow> u8 list \<Rightarrow> bool" where
  "card_memory E mac \<longleftrightarrow> length mac = 6 \<and> (\<forall>w. ef_vi_get_mac E w = mac)
     \<and> (\<forall>n w. length (fresh_bufs E n w) = n \<and> (\<forall>b \<in> set (fresh_bufs E n w). length (u_room b) = PKT_BUF_SIZE - 50))
     \<and> (\<forall>n w. length (fresh_addrs E n w) = n)"

lemma us_bufLoop_val:
  assumes "list_all (\<lambda>i. i < length bufs) is"
  shows "\<exists>bufs'. us_bufLoop E eth is bufs w = Some bufs' \<and> length bufs' = length bufs
    \<and> (\<forall>i < length bufs. u_room (bufs' ! i) = u_room (bufs ! i) \<and> (i \<in> set is \<or> u_hdrs (bufs ! i) = eth \<longrightarrow> u_hdrs (bufs' ! i) = eth))"
  using assms
proof (induction "is" arbitrary: bufs)
  case (Cons i "is")
  let ?b = "(bufs ! i)\<lparr>u_post_addr := ef_memreg_dma_addr E (i * PKT_BUF_SIZE) w + 8, u_hdrs := eth\<rparr>"
  obtain bufs' where "us_bufLoop E eth is (bufs[i := ?b]) w = Some bufs'" "length bufs' = length bufs"
    "\<forall>j < length bufs. u_room (bufs' ! j) = u_room (bufs[i := ?b] ! j) \<and> (j \<in> set is \<or> u_hdrs (bufs[i := ?b] ! j) = eth \<longrightarrow> u_hdrs (bufs' ! j) = eth)"
    using Cons.IH [of "bufs[i := ?b]"] Cons.prems by auto
  then show ?case using Cons.prems by (auto simp: arr_get_def arr_set_def nth_list_update)
qed simp

lemma us_initX2_ready:
  assumes "card_memory E mac" "us_initX2 E eth (s0, w0) = Some (True, s, w)" "ipsum_cache s0 = ipsumCache eth" "\<not> is_x3 s0"
  shows "us_ready eth s"
proof -
  obtain p m rc w1 where a: "allocBufs E (TX_N_BUF * PKT_BUF_SIZE) (fresh_bufs E TX_N_BUF) w0 = ((p, m, rc), w1)" by (metis prod.exhaust)
  obtain rc2 w2 where g: "ef_memreg_alloc E (us_dh s0) w1 = (rc2, w2)" by fastforce
  have rc: "rc = 0" "\<not> rc2 < 0" using assms(2) a g by (auto simp: us_initX2_def Let_def split: if_splits)
  then obtain bufs where p: "p = Block bufs" "length bufs = TX_N_BUF" "\<forall>b \<in> set bufs. length (u_room b) = PKT_BUF_SIZE - 50"
    using a assms(1) by (auto simp: allocBufs_def card_memory_def split: prod.splits bool.splits if_splits)
  obtain bufs' where b: "us_bufLoop E eth [0..<TX_N_BUF] bufs w2 = Some bufs'" "length bufs' = TX_N_BUF"
    "\<forall>i < TX_N_BUF. u_room (bufs' ! i) = u_room (bufs ! i) \<and> u_hdrs (bufs' ! i) = eth"
    using us_bufLoop_val [of bufs "[0..<TX_N_BUF]" E eth w2] p(2) by (auto simp: list_all_iff)
  have "s = s0\<lparr>x2_index := 0, x2_mmapped := m, x2_bufs := Block bufs'\<rparr>"
    using assms(2) a g rc p(1) b(1) by (auto simp: us_initX2_def Let_def)
  moreover have "strip (u_hdrs x) = strip eth \<and> length (u_room x) = PKT_BUF_SIZE - 50" if "x \<in> set bufs'" for x
    using that b p unfolding in_set_conv_nth by auto
  ultimately show ?thesis using assms(3,4) b(2) by (simp add: us_ready_def TX_N_BUF_def)
qed

lemma us_destMac_length: "us_destMac arp route ifc dip a = Some (Inr m) \<Longrightarrow> length m = 6"
  by (auto simp: us_destMac_def bind_eq_Some_conv split: if_splits option.splits)

lemma init_udp_pkt_new:
  "length mac = 6 \<Longrightarrow> length dmac = 6 \<Longrightarrow> hdrs_new (init_udp_pkt lip lp mac dip dp dmac)"
  by (simp add: hdrs_new_def init_udp_pkt_def ci_ip4_hdr_init_def htons_def)

lemma us_init_ready:
  assumes "card_memory E mac" "us_init E arp route pton ifc lip lport dip dport (s0, w0) = Some (True, s, w)"
  shows "\<exists>dmac. us_destMac arp route ifc dip (pton dip) = Some (Inr dmac)
    \<and> us_ready (init_udp_pkt (pton lip) (htons lport) mac (pton dip) (htons dport) dmac) s
    \<and> hdrs_new (init_udp_pkt (pton lip) (htons lport) mac (pton dip) (htons dport) dmac)"
proof -
  obtain dmac where d: "us_destMac arp route ifc dip (pton dip) = Some (Inr dmac)"
  proof (cases "us_destMac arp route ifc dip (pton dip)")
    case (Some r)
    then show ?thesis using assms(2) that by (cases r) (simp_all add: us_init_def)
  qed (use assms(2) in \<open>simp add: us_init_def\<close>)
  let ?eth = "init_udp_pkt (pton lip) (htons lport) mac (pton dip) (htons dport) dmac"
  have mac: "ef_vi_get_mac E x = mac" "length mac = 6" for x using assms(1) by (simp_all add: card_memory_def)
  obtain rc1 dh w1 where 1: "ef_driver_open E w0 = (rc1, dh, w1)" by (metis prod.exhaust)
  obtain rc2 w2 where 2: "ef_pd_alloc_by_name E dh ifc w1 = (rc2, w2)" by fastforce
  define s1 where "s1 = (if ef_ctpio_only E dh ifc w2 then s0\<lparr>us_dh := dh, is_x3 := True\<rparr> else s0\<lparr>us_dh := dh\<rparr>)"
  obtain rc3 w3 where 3: "ef_vi_alloc_from_pd E dh 0 (if is_x3 s1 then - 1 else int TX_N_BUF) w2 = (rc3, w3)" by fastforce
  have rc: "\<not> rc1 < 0" "\<not> rc2 < 0" "\<not> rc3 < 0"
    using assms(2) d 1 2 3 by (auto simp: us_init_def s1_def Let_def split: if_splits)
  have run: "(if is_x3 s1 then Some (True, s1\<lparr>ipsum_cache := ipsumCache ?eth, x3_eth := ?eth\<rparr>, w3)
      else us_initX2 E ?eth (s1\<lparr>ipsum_cache := ipsumCache ?eth\<rparr>, w3)) = Some (True, s, w)"
    using assms(2) d 1 2 3 rc mac by (simp add: us_init_def s1_def Let_def split: if_splits)
  have "us_ready ?eth s"
  proof (cases "is_x3 s1")
    case True
    then show ?thesis using run by (auto simp: us_ready_def)
  next
    case False
    then show ?thesis using run us_initX2_ready [OF assms(1), of ?eth "s1\<lparr>ipsum_cache := ipsumCache ?eth\<rparr>" w3 s w] by simp
  qed
  then show ?thesis using d init_udp_pkt_new mac(2) us_destMac_length [OF d] by blast
qed

subsection \<open>Receiving\<close>

text \<open>The card holds the frame \<open>fr\<close> for a receiver; \<open>give\<close> returns the buffer of the frame to the card.\<close>

definition rx_holds :: "'o EfVi \<Rightarrow> EfviUdpReceiver \<Rightarrow> 'o \<Rightarrow> u8 list \<Rightarrow> ('o \<Rightarrow> 'o) \<Rightarrow> 'o \<Rightarrow> bool" where
  "rx_holds E s w fr give w1 \<longleftrightarrow> (\<exists>ev evs. ef_eventq_poll E 1 w = (ev # evs, w1)
     \<and> (case er_bufs s of
          Block addrs \<Rightarrow> ev_type ev = EF_EVENT_TYPE_RX \<and> rx_rq_id ev < length addrs
            \<and> give = (\<lambda>w. snd (ef_vi_receive_post E (addrs ! rx_rq_id ev) (rx_rq_id ev) w))
            \<and> (\<exists>pre rest. rx_buf E (rx_rq_id ev) w1 = pre @ fr @ rest \<and> length pre + 42 = udp_prefix_len s)
        | Null \<Rightarrow> ev_type ev = EF_EVENT_TYPE_RX_REF \<and> give = efct_vi_rxpkt_release E (ref_pkt_id ev)
            \<and> (\<exists>rest. efct_vi_rxpkt_get E (ref_pkt_id ev) w1 = fr @ rest)
        | _ \<Rightarrow> False))"

lemma udp_data_datagram:
  assumes "hdrs_new h0" "datagram h0 data fr" "length data \<le> 1998"
  shows "udp_from (length pre + 42) (pre @ fr @ rest)
    = Some (data @ rest, of_nat (length data), Inet (ip_saddr_be32 (u_ip4 h0)) (udp_source_be16 (u_udp h0)))"
    and "udp_data (length pre + 42) (pre @ fr @ rest) = Some (data @ rest, of_nat (length data))"
proof -
  obtain h where h: "fr = hdrs_bytes h @ data" "strip h = strip h0" "unat (ntohs (udp_len_be16 (u_udp h))) = 8 + length data"
    using assms(2) by (auto simp: datagram_def)
  have a: "ip_saddr_be32 (u_ip4 h) = ip_saddr_be32 (u_ip4 h0)" "udp_source_be16 (u_udp h) = udp_source_be16 (u_udp h0)"
    using h(2) by (auto simp: strip_def dest: arg_cong [where f = "\<lambda>h. ip_saddr_be32 (u_ip4 h)"] arg_cong [where f = "\<lambda>h. udp_source_be16 (u_udp h)"])
  have m: "length (ether_dhost (u_eth h)) = 6" "length (ether_shost (u_eth h)) = 6"
    using h(2) assms(1) by (auto simp: strip_def hdrs_new_def dest: arg_cong [where f = u_eth])
  let ?mem = "pre @ fr @ rest"
  have ip: "length (ip4_bytes (u_ip4 h)) = 20" and eth: "length (eth_bytes (u_eth h)) = 14" and udp: "length (udp_bytes (u_udp h)) = 8"
    using m by (simp_all add: ip4_bytes_def eth_bytes_def udp_bytes_def)
  have "load_bytes (38 + length pre) 2 ?mem = Some (bytes16 (udp_len_be16 (u_udp h)))"
    using ip eth udp by (simp add: load_bytes_def h(1) hdrs_bytes_def) (simp add: udp_bytes_def)
  moreover have "ntohs (udp_len_be16 (u_udp h)) - 8 = of_nat (length data)"
    using h(3) assms(3) by (metis add_diff_cancel_left' of_nat_add of_nat_numeral of_nat_unat ucast_id)
  moreover have "drop (length pre + 42) ?mem = data @ rest" using ip eth udp by (simp add: h(1) hdrs_bytes_def)
  ultimately show d: "udp_data (length pre + 42) ?mem = Some (data @ rest, of_nat (length data))" by (simp add: udp_data_def)
  have "load_bytes (26 + length pre) 4 ?mem = Some (bytes32 (ip_saddr_be32 (u_ip4 h)))"
    using eth udp by (simp add: load_bytes_def h(1) hdrs_bytes_def) (simp add: ip4_bytes_def)
  moreover have "load_bytes (34 + length pre) 2 ?mem = Some (bytes16 (udp_source_be16 (u_udp h)))"
    using ip eth udp by (simp add: load_bytes_def h(1) hdrs_bytes_def) (simp add: udp_bytes_def)
  ultimately show "udp_from (length pre + 42) ?mem
    = Some (data @ rest, of_nat (length data), Inet (ip_saddr_be32 (u_ip4 h0)) (udp_source_be16 (u_udp h0)))"
    using d a by (simp add: udp_from_def)
qed

lemma rx_holds_reads:
  assumes "hdrs_new h0" "datagram h0 data fr" "length data \<le> 1998" "rx_holds E s w fr give w1"
  shows "\<exists>rest. ur_read E f (s, w) = Some (True, give (f (data @ rest) (of_nat (length data)) w1))
    \<and> ur_readNoCheck E f (s, w) = Some (True, give (f (data @ rest) (of_nat (length data)) w1))
    \<and> ur_recvfrom E g (s, w)
        = Some (True, give (g (data @ rest) (of_nat (length data)) (Inet (ip_saddr_be32 (u_ip4 h0)) (udp_source_be16 (u_udp h0))) w1))"
proof -
  note U = udp_data_datagram [OF assms(1-3)]
  obtain ev evs where ev: "ef_eventq_poll E 1 w = (ev # evs, w1)"
    and c: "case er_bufs s of
          Block addrs \<Rightarrow> ev_type ev = EF_EVENT_TYPE_RX \<and> rx_rq_id ev < length addrs
            \<and> give = (\<lambda>w. snd (ef_vi_receive_post E (addrs ! rx_rq_id ev) (rx_rq_id ev) w))
            \<and> (\<exists>pre rest. rx_buf E (rx_rq_id ev) w1 = pre @ fr @ rest \<and> length pre + 42 = udp_prefix_len s)
        | Null \<Rightarrow> ev_type ev = EF_EVENT_TYPE_RX_REF \<and> give = efct_vi_rxpkt_release E (ref_pkt_id ev)
            \<and> (\<exists>rest. efct_vi_rxpkt_get E (ref_pkt_id ev) w1 = fr @ rest)
        | _ \<Rightarrow> False"
    using assms(4) unfolding rx_holds_def by blast
  show ?thesis
  proof (cases "er_bufs s")
    case (Block addrs)
    then obtain pre rest where "rx_buf E (rx_rq_id ev) w1 = pre @ fr @ rest" "length pre + 42 = udp_prefix_len s" using c by auto
    then show ?thesis using U [of pre rest] ev c Block
      by (intro exI [of _ rest]) (simp add: ur_read_def ur_readNoCheck_def ur_recvfrom_def er_event_def arr_get_def)
  next
    case Null
    then obtain rest where "efct_vi_rxpkt_get E (ref_pkt_id ev) w1 = fr @ rest" using c by auto
    then show ?thesis using U [of "[]" rest] ev c Null
      by (intro exI [of _ rest]) (simp add: ur_read_def ur_readNoCheck_def ur_recvfrom_def er_event_def)
  qed (use c in simp_all)
qed

subsection \<open>Properties\<close>

text \<open>A card of the newer kind that logs the frames it sends and hands out those it has received.\<close>

record CardLog =
  c_sent :: "u8 list list"
  c_rx :: "u8 list list"
  c_got :: "u8 list list"
  c_handles :: "int list"
  c_blocks :: nat

definition zero_hdrs :: udp_hdrs where
  "zero_hdrs = init_udp_pkt 0 0 (replicate 6 0) 0 0 (replicate 6 0)"

definition log_card :: "bool \<Rightarrow> CardLog EfVi" where
  "log_card x3 = \<lparr>EF_VI_EVENT_POLL_MIN_EVS = 2, ef_strerror = (\<lambda>_. ''error''),
     ef_driver_open = (\<lambda>w. (0, 1 + sum_list (map abs (c_handles w)), w\<lparr>c_handles := (1 + sum_list (map abs (c_handles w))) # c_handles w\<rparr>)),
     ef_driver_close = (\<lambda>dh w. w\<lparr>c_handles := removeAll dh (c_handles w)\<rparr>),
     ef_pd_alloc_by_name = (\<lambda>_ _ w. (0, w)), ef_vi_alloc_from_pd = (\<lambda>_ _ _ w. (0, w)),
     ef_vi_receive_fill_level = (\<lambda>_. if x3 then 1 else 0), ef_vi_receive_prefix_len = (\<lambda>_. 0), ef_ctpio_only = (\<lambda>_ _ _. x3),
     ef_vi_get_mac = (\<lambda>_. [2, 0, 0, 0, 0, 1]), ef_memreg_alloc = (\<lambda>_ w. (0, w)), ef_memreg_dma_addr = (\<lambda>n _. of_nat n),
     ef_vi_receive_post = (\<lambda>_ _ w. (0, w)), ef_filter_spec_set = (\<lambda>_. 0), ef_vi_filter_add = (\<lambda>_ _ w. (0, w)),
     ef_eventq_poll = (\<lambda>n w. (if c_rx w = [] then []
        else [\<lparr>ev_type = EF_EVENT_TYPE_RX_REF, rx_rq_id = 0, rx_bytes = 0, ref_pkt_id = 0, ref_len = of_nat (length (hd (c_rx w)))\<rparr>], w)),
     efct_vi_rxpkt_get = (\<lambda>_ w. hd (c_rx w)), efct_vi_rxpkt_release = (\<lambda>_ w. w\<lparr>c_rx := tl (c_rx w)\<rparr>),
     ef_vi_transmit_ctpio = (\<lambda>f w. w\<lparr>c_sent := c_sent w @ [f]\<rparr>), ef_vi_transmit_ctpio_fallback = (\<lambda>_ _ _ w. (0, w)),
     ef_vi_transmitv_ctpio = (\<lambda>f w. w\<lparr>c_sent := c_sent w @ [f]\<rparr>), ef_vi_transmit_unbundle = (\<lambda>_ w. w),
     rx_buf = (\<lambda>_ _. replicate 2048 0), mmap_huge = (\<lambda>_ w. (False, w)), munmap = (\<lambda>_ w. w\<lparr>c_blocks := c_blocks w - 1\<rparr>),
     posix_memalign = (\<lambda>_ w. (0, w\<lparr>c_blocks := c_blocks w + 1\<rparr>)), heap_free = (\<lambda>w. w\<lparr>c_blocks := c_blocks w - 1\<rparr>),
     fresh_addrs = (\<lambda>n _. replicate n 0),
     fresh_bufs = (\<lambda>n _. replicate n \<lparr>u_post_addr = 0, u_hdrs = zero_hdrs, u_room = replicate 1998 0\<rparr>)\<rparr>"

lemma log_card_laws: "card_memory (log_card x3) [2, 0, 0, 0, 0, 1]" "card_sends (log_card x3) c_sent"
  by (simp_all add: card_memory_def card_sends_def log_card_def PKT_BUF_SIZE_def)

definition new_sender :: EfviUdpSender where
  "new_sender = \<lparr>us_dh = - 1, ipsum_cache = 0, is_x3 = False, x2_bufs = Uninit, x2_index = 0, x2_mmapped = False, x3_eth = zero_hdrs, us_error = []\<rparr>"

definition new_log :: CardLog where
  "new_log = \<lparr>c_sent = [], c_rx = [], c_got = [], c_handles = [], c_blocks = 0\<rparr>"

text \<open>10.0.0.1 and the multicast group 239.1.1.1.\<close>

definition two_ips :: "string \<Rightarrow> u32" where
  "two_ips t = (if t = ''10.0.0.1'' then 0x0100000a else 0x010101ef)"

text \<open>
  C14: \<^verbatim>\<open>EfviUdpSender::init\<close> and \<^verbatim>\<open>write\<close>. After a successful \<^verbatim>\<open>init\<close> every \<^verbatim>\<open>write\<close> of a datagram
  that fits its buffer hands the card one frame: the headers of the two ends, the lengths of the
  datagram, an IP checksum that verifies, and the data. This holds on both kinds of card and
  through the reuse of the buffers, provided that the words of the IP header fold without a second
  carry.
\<close>

theorem udp_datagrams_sent:
  assumes "card_memory E mac" "card_sends E sent" "us_init E arp route pton ifc lip lport dip dport (s0, w0) = Some (True, s, w)"
    and "folded (ci_ip4_hdr_init 0 0 0 17 (pton lip) (pton dip)) < 65536" "list_all (\<lambda>d. length d \<le> 1998) ds"
  shows "\<exists>dmac s' w' frs. us_destMac arp route ifc dip (pton dip) = Some (Inr dmac) \<and> us_writes E ds (s, w) = Some (s', w')
    \<and> sent w' = sent w @ frs \<and> list_all2 (datagram (init_udp_pkt (pton lip) (htons lport) mac (pton dip) (htons dport) dmac)) ds frs"
proof -
  obtain dmac where d: "us_destMac arp route ifc dip (pton dip) = Some (Inr dmac)"
    and r: "us_ready (init_udp_pkt (pton lip) (htons lport) mac (pton dip) (htons dport) dmac) s"
      "hdrs_new (init_udp_pkt (pton lip) (htons lport) mac (pton dip) (htons dport) dmac)"
    using us_init_ready [OF assms(1,3)] by blast
  have "folded (u_ip4 (init_udp_pkt (pton lip) (htons lport) mac (pton dip) (htons dport) dmac)) < 65536"
    using assms(4) by (simp add: init_udp_pkt_def)
  then show ?thesis using d us_writes_send [OF r _ assms(2,5), of w] by blast
qed

lemma two_ips_no_carry: "folded (ci_ip4_hdr_init 0 0 0 17 0x0100000a 0x010101ef) < 65536"
  by (simp add: folded_def ip4_sum_def ip4_words ci_ip4_hdr_init_def halves_def le16_def htons_def)

theorem udp_datagrams_sent_witness:
  "\<exists>s w dmac s' w' frs. us_init (log_card True) None (\<lambda>_. None) two_ips ''eth0'' ''10.0.0.1'' 4000 ''239.1.1.1'' 5000 (new_sender, new_log) = Some (True, s, w)
    \<and> us_writes (log_card True) [[1, 2, 3], []] (s, w) = Some (s', w') \<and> c_sent w' = c_sent w @ frs
    \<and> list_all2 (datagram (init_udp_pkt 0x0100000a (htons 4000) [2, 0, 0, 0, 0, 1] 0x010101ef (htons 5000) dmac)) [[1, 2, 3], []] frs"
proof -
  have ips: "two_ips ''10.0.0.1'' = 0x0100000a" "two_ips ''239.1.1.1'' = 0x010101ef" by (simp_all add: two_ips_def)
  obtain s w where "us_init (log_card True) None (\<lambda>_. None) two_ips ''eth0'' ''10.0.0.1'' 4000 ''239.1.1.1'' 5000 (new_sender, new_log) = Some (True, s, w)"
    by (simp add: us_init_def us_destMac_def ips log_card_def new_sender_def new_log_def Let_def)
  then show ?thesis
    using udp_datagrams_sent [OF log_card_laws [of True], of None "\<lambda>_. None" two_ips "''eth0''" "''10.0.0.1''" 4000 "''239.1.1.1''" 5000 new_sender new_log s w "[[1, 2, 3], []]"]
      two_ips_no_carry unfolding ips by (simp add: list_all_def) blast
qed

text \<open>
  C31: the condition is needed. \<^verbatim>\<open>init\<close> adds the second carry to the cached sum without removing it
  from the upper half, and \<^verbatim>\<open>update_udp_pkt\<close> then counts it again: when the first fold of the header
  words carries, the IP checksum of every frame is wrong by one, with the exception of one length.
  The witness is a pair of private addresses, 192.168.1.56 and 192.168.185.100.
\<close>

theorem udp_checksum_exact:
  assumes "strip h = strip h0" "ip_tot_len_be16 (u_ip4 h0) = 0" "ip_check_be16 (u_ip4 h0) = 0" "n \<le> 65507"
  shows "csum_valid (byte_words (ip4_bytes (u_ip4 (update_udp_pkt (ipsumCache h0) (of_nat n) h))))
    \<longleftrightarrow> folded (u_ip4 h0) < 65536 \<or> folded (u_ip4 h0) + udp_iplen n = 131070"
  by (rule udp_checksum_iff [OF assms])

definition carry_hdrs :: udp_hdrs where
  "carry_hdrs = init_udp_pkt 0x3801a8c0 0 (replicate 6 2) 0x64b9a8c0 0 (replicate 6 4)"

theorem udp_checksum_exact_witness:
  "\<not> csum_valid (byte_words (ip4_bytes (u_ip4 (update_udp_pkt (ipsumCache carry_hdrs) (of_nat 100) carry_hdrs))))"
proof -
  have "folded (u_ip4 carry_hdrs) = 65536"
    by (simp add: folded_def ip4_sum_def ip4_words carry_hdrs_def init_udp_pkt_def ci_ip4_hdr_init_def halves_def le16_def htons_def)
  moreover have "udp_iplen 100 = 32768" by (simp add: udp_iplen_def unat_htons)
  moreover have "ip_tot_len_be16 (u_ip4 carry_hdrs) = 0" "ip_check_be16 (u_ip4 carry_hdrs) = 0"
    by (simp_all add: carry_hdrs_def init_udp_pkt_def ci_ip4_hdr_init_def htons_def)
  ultimately show ?thesis using udp_checksum_exact [of carry_hdrs carry_hdrs 100] by simp
qed


definition x3_receiver :: EfviUdpReceiver where
  "x3_receiver = \<lparr>er_dh = 3, er_bufs = Null, er_mmapped = False, er_error = [], udp_prefix_len = 106, subscribe_fd = - 1\<rparr>"

definition x3_sender :: EfviUdpSender where
  "x3_sender = new_sender\<lparr>us_dh := 3, is_x3 := True, x3_eth := zero_hdrs, ipsum_cache := ipsumCache zero_hdrs\<rparr>"

definition note_data :: "u8 list \<Rightarrow> u16 \<Rightarrow> CardLog \<Rightarrow> CardLog" where
  "note_data data len w = w\<lparr>c_got := c_got w @ [take (unat len) data]\<rparr>"


end
