(* ===== verification/CardLedger.thy ===== *)
theory CardLedger
  imports UdpFrames
begin

text \<open>
  What the transports of \<^verbatim>\<open>Efvi.h\<close> hold: driver handles, blocks of memory and the descriptor of a
  multicast subscription. Closing a transport gives back what its \<^verbatim>\<open>init\<close> has taken, whether or not
  \<^verbatim>\<open>init\<close> succeeded, with the exception of the paths on which \<^verbatim>\<open>close\<close> works on a pointer that points
  to no block.
\<close>

subsection \<open>The ledger\<close>

text \<open>The open driver handles, the number of blocks and the open descriptors.\<close>

record 'o Ledger =
  l_handles :: "'o \<Rightarrow> int set"
  l_blocks :: "'o \<Rightarrow> nat"
  l_fds :: "'o \<Rightarrow> int set"

definition same :: "'o Ledger \<Rightarrow> 'o \<Rightarrow> 'o \<Rightarrow> bool" where
  "same L w w' \<longleftrightarrow> l_handles L w' = l_handles L w \<and> l_blocks L w' = l_blocks L w \<and> l_fds L w' = l_fds L w"

definition keeps :: "'o Ledger \<Rightarrow> ('o \<Rightarrow> 'r \<times> 'o) \<Rightarrow> bool" where
  "keeps L f \<longleftrightarrow> (\<forall>w. same L w (snd (f w)))"

text \<open>What the driver, the allocator and the system promise.\<close>

definition opens_handle :: "'o EfVi \<Rightarrow> 'o Ledger \<Rightarrow> bool" where
  "opens_handle E L \<longleftrightarrow>
     (\<forall>w rc dh w'. ef_driver_open E w = (rc, dh, w') \<longrightarrow> l_blocks L w' = l_blocks L w \<and> l_fds L w' = l_fds L w
        \<and> (if rc < 0 then dh < 0 \<and> l_handles L w' = l_handles L w
           else 0 \<le> dh \<and> dh \<notin> l_handles L w \<and> l_handles L w' = insert dh (l_handles L w)))
     \<and> (\<forall>dh w. l_handles L (ef_driver_close E dh w) = l_handles L w - {dh}
          \<and> l_blocks L (ef_driver_close E dh w) = l_blocks L w \<and> l_fds L (ef_driver_close E dh w) = l_fds L w)"

definition counts_blocks :: "'o EfVi \<Rightarrow> 'o Ledger \<Rightarrow> bool" where
  "counts_blocks E L \<longleftrightarrow>
     (\<forall>n w ok w'. mmap_huge E n w = (ok, w') \<longrightarrow> l_handles L w' = l_handles L w \<and> l_fds L w' = l_fds L w
        \<and> l_blocks L w' = (if ok then Suc (l_blocks L w) else l_blocks L w))
     \<and> (\<forall>n w rc w'. posix_memalign E n w = (rc, w') \<longrightarrow> l_handles L w' = l_handles L w \<and> l_fds L w' = l_fds L w
        \<and> l_blocks L w' = (if rc = 0 then Suc (l_blocks L w) else l_blocks L w))
     \<and> (\<forall>n w. l_handles L (munmap E n w) = l_handles L w \<and> l_fds L (munmap E n w) = l_fds L w \<and> l_blocks L (munmap E n w) = l_blocks L w - 1)
     \<and> (\<forall>w. l_handles L (heap_free E w) = l_handles L w \<and> l_fds L (heap_free E w) = l_fds L w \<and> l_blocks L (heap_free E w) = l_blocks L w - 1)"

definition card_keeps :: "'o EfVi \<Rightarrow> 'o Ledger \<Rightarrow> bool" where
  "card_keeps E L \<longleftrightarrow> (\<forall>dh i. keeps L (ef_pd_alloc_by_name E dh i)) \<and> (\<forall>dh r t. keeps L (ef_vi_alloc_from_pd E dh r t))
     \<and> (\<forall>dh. keeps L (ef_memreg_alloc E dh)) \<and> (\<forall>a i. keeps L (ef_vi_receive_post E a i)) \<and> (\<forall>f dh. keeps L (ef_vi_filter_add E f dh))"

definition opens_fd :: "'o Sys \<Rightarrow> 'o Ledger \<Rightarrow> bool" where
  "opens_fd S L \<longleftrightarrow>
     (\<forall>k w fd w'. os_socket S k w = (Some fd, w') \<longrightarrow> l_handles L w' = l_handles L w \<and> l_blocks L w' = l_blocks L w
        \<and> 0 \<le> fd \<and> fd \<notin> l_fds L w \<and> l_fds L w' = insert fd (l_fds L w))
     \<and> (\<forall>k w w'. os_socket S k w = (None, w') \<longrightarrow> same L w w') \<and> (\<forall>opt fd. keeps L (os_setsockopt S opt fd))
     \<and> (\<forall>fd w. l_handles L (os_close S fd w) = l_handles L w \<and> l_blocks L (os_close S fd w) = l_blocks L w
          \<and> l_fds L (os_close S fd w) = l_fds L w - {fd})"

lemma keepsD: "keeps L f \<Longrightarrow> f w = (r, w') \<Longrightarrow> same L w w'"
  unfolding keeps_def by (metis snd_conv)

lemma card_keepsD:
  assumes "card_keeps E L"
  shows "ef_pd_alloc_by_name E dh i w = (rc, w') \<Longrightarrow> same L w w'" "ef_vi_alloc_from_pd E dh r t w = (rc, w') \<Longrightarrow> same L w w'"
    "ef_memreg_alloc E dh w = (rc, w') \<Longrightarrow> same L w w'" "ef_vi_receive_post E a j w = (rc, w') \<Longrightarrow> same L w w'"
    "ef_vi_filter_add E f dh w = (rc, w') \<Longrightarrow> same L w w'"
  using assms unfolding card_keeps_def keeps_def by (metis snd_conv)+

lemma same_trans: "same L w w' \<Longrightarrow> same L w' w'' \<Longrightarrow> same L w w''"
  by (simp add: same_def)

lemma same_refl [simp]: "same L w w"
  by (simp add: same_def)

subsection \<open>What a transport holds\<close>

text \<open>
  From \<open>w\<close> to \<open>w'\<close> exactly the handle \<open>dh\<close>, if it is one, and the block \<open>p\<close>, if it is one, have
  been taken.
\<close>

definition took :: "'o Ledger \<Rightarrow> int \<Rightarrow> 'b block_ptr \<Rightarrow> 'o \<Rightarrow> 'o \<Rightarrow> bool" where
  "took L dh p w w' \<longleftrightarrow> l_fds L w' = l_fds L w
     \<and> (if dh < 0 then l_handles L w' = l_handles L w else dh \<notin> l_handles L w \<and> l_handles L w' = insert dh (l_handles L w))
     \<and> l_blocks L w' = (case p of Block b \<Rightarrow> Suc (l_blocks L w) | _ \<Rightarrow> l_blocks L w)"

lemma took_same: "took L dh p w w1 \<Longrightarrow> same L w1 w2 \<Longrightarrow> took L dh p w w2"
  by (auto simp: took_def same_def)

lemma took_block: "took L dh (Block b) w w1 \<longleftrightarrow> took L dh (Block b') w w1"
  by (simp add: took_def)

lemma took_open:
  assumes "opens_handle E L" "ef_driver_open E w = (rc, dh, w')" "\<forall>b. p \<noteq> Block b"
  shows "took L dh p w w'"
proof -
  have "l_blocks L w' = l_blocks L w \<and> l_fds L w' = l_fds L w
        \<and> (if rc < 0 then dh < 0 \<and> l_handles L w' = l_handles L w
           else 0 \<le> dh \<and> dh \<notin> l_handles L w \<and> l_handles L w' = insert dh (l_handles L w))"
    using assms(1,2) unfolding opens_handle_def by blast
  then show ?thesis using assms(3) by (auto simp: took_def split: block_ptr.splits if_splits)
qed

lemma took_alloc:
  assumes "counts_blocks E L" "took L dh q w w1" "\<forall>b. q \<noteq> Block b" "allocBufs E n fresh w1 = ((p, m, rc), w2)"
  shows "took L dh p w w2" "if rc = 0 then \<exists>w'. p = Block (fresh w') else p = MapFailed"
proof -
  obtain ok w' where mm: "mmap_huge E n w1 = (ok, w')" by fastforce
  obtain rc' w'' where pm: "posix_memalign E n w' = (rc', w'')" by fastforce
  have 1: "l_handles L w' = l_handles L w1 \<and> l_fds L w' = l_fds L w1 \<and> l_blocks L w' = (if ok then Suc (l_blocks L w1) else l_blocks L w1)"
    "l_handles L w'' = l_handles L w' \<and> l_fds L w'' = l_fds L w' \<and> l_blocks L w'' = (if rc' = 0 then Suc (l_blocks L w') else l_blocks L w')"
    using assms(1) mm pm unfolding counts_blocks_def by blast+
  have q: "l_blocks L w1 = l_blocks L w" using assms(2,3) by (auto simp: took_def split: block_ptr.splits)
  show "took L dh p w w2"
    using assms(2,4) mm pm 1 q by (cases ok) (auto simp: allocBufs_def took_def split: if_splits)
  show "if rc = 0 then \<exists>w'. p = Block (fresh w') else p = MapFailed"
    using assms(4) mm pm by (cases ok) (auto simp: allocBufs_def split: if_splits)
qed

lemma took_release:
  assumes "opens_handle E L" "counts_blocks E L" "took L dh p w w1"
    and w2: "w2 = (if 0 \<le> dh then ef_driver_close E dh w1 else w1)"
  shows "releaseBufs E n p m w2 = None \<longleftrightarrow> p = MapFailed \<or> p = Uninit"
    and "releaseBufs E n p m w2 = Some w3 \<Longrightarrow> same L w w3"
proof -
  show "releaseBufs E n p m w2 = None \<longleftrightarrow> p = MapFailed \<or> p = Uninit" by (cases p) (simp_all add: releaseBufs_def)
  have t: "took L (- 1) p w w2"
    using assms(1,3) unfolding w2 opens_handle_def took_def by (auto split: if_splits)
  have "l_handles L (munmap E n w2) = l_handles L w2" "l_fds L (munmap E n w2) = l_fds L w2" "l_blocks L (munmap E n w2) = l_blocks L w2 - 1"
    "l_handles L (heap_free E w2) = l_handles L w2" "l_fds L (heap_free E w2) = l_fds L w2" "l_blocks L (heap_free E w2) = l_blocks L w2 - 1"
    using assms(2) unfolding counts_blocks_def by blast+
  then show "releaseBufs E n p m w2 = Some w3 \<Longrightarrow> same L w w3"
    using t by (cases p) (auto simp: releaseBufs_def took_def same_def split: if_splits)
qed

subsection \<open>Receivers\<close>

lemma er_postLoop_same:
  assumes "card_keeps E L" "list_all (\<lambda>i. i < length addrs) is"
  shows "\<exists>rc addrs' w'. er_postLoop E is addrs w = Some (rc, addrs', w') \<and> same L w w'"
  using assms(2)
proof (induction "is" arbitrary: addrs w)
  case (Cons i "is")
  let ?a = "ef_memreg_dma_addr E (i * PKT_BUF_SIZE) w + 64"
  obtain rc w1 where p: "ef_vi_receive_post E ?a i w = (rc, w1)" by fastforce
  have s: "same L w w1" by (rule card_keepsD(4) [OF assms(1) p])
  have set: "arr_set addrs i ?a = Some (addrs[i := ?a])" using Cons.prems by (simp add: arr_set_def)
  show ?case
  proof (cases "rc < 0")
    case True
    then show ?thesis using set p s by (simp add: Let_def)
  next
    case False
    obtain rc2 a2 w2 where "er_postLoop E is (addrs[i := ?a]) w1 = Some (rc2, a2, w2)" "same L w1 w2"
      using Cons.IH [of "addrs[i := ?a]" w1] Cons.prems by auto
    then show ?thesis using set p False same_trans [OF s] by (simp add: Let_def)
  qed
qed simp

lemma er_init_took:
  assumes E: "card_memory E mac" "opens_handle E L" "counts_blocks E L" "card_keeps E L" and s: "er_bufs s = Null"
  shows "\<exists>ok s' w'. er_init E ifc (s, w) = Some (ok, s', w') \<and> took L (er_dh s') (er_bufs s') w w'
    \<and> (er_bufs s' = MapFailed \<longrightarrow> \<not> ok) \<and> er_bufs s' \<noteq> Uninit \<and> EfviReceiver.more s' = EfviReceiver.more s"
proof -
  obtain rc1 dh w1 where 1: "ef_driver_open E w = (rc1, dh, w1)" by (metis prod.exhaust)
  obtain rc2 w2 where 2: "ef_pd_alloc_by_name E dh ifc w1 = (rc2, w2)" by fastforce
  obtain rc3 w3 where 3: "ef_vi_alloc_from_pd E dh (int RX_N_BUF) 0 w2 = (rc3, w3)" by fastforce
  obtain p m rc4 w4 where 4: "allocBufs E (RX_N_BUF * PKT_BUF_SIZE) (fresh_addrs E RX_N_BUF) w3 = ((p, m, rc4), w4)" by (metis prod.exhaust)
  obtain rc5 w5 where 5: "ef_memreg_alloc E dh w4 = (rc5, w5)" by fastforce
  have k: "same L w1 w2" "same L w2 w3" "same L w4 w5"
    using card_keepsD(1) [OF E(4) 2] card_keepsD(2) [OF E(4) 3] card_keepsD(3) [OF E(4) 5] by blast+
  have t1: "took L dh (Null :: u64 list block_ptr) w w1" by (rule took_open [OF E(2) 1]) simp
  have t2: "took L dh (Null :: u64 list block_ptr) w w2" by (rule took_same [OF t1 k(1)])
  have t3: "took L dh (Null :: u64 list block_ptr) w w3" by (rule took_same [OF t2 k(2)])
  have t4: "took L dh p w w4" and p: "if rc4 = 0 then \<exists>w'. p = Block (fresh_addrs E RX_N_BUF w') else p = MapFailed"
    using took_alloc [OF E(3) t3 _ 4] by simp_all
  have t5: "took L dh p w w5" by (rule took_same [OF t4 k(3)])
  consider (a) "rc1 < 0" | (b) "\<not> rc1 < 0" "rc2 < 0" | (c) "\<not> rc1 < 0" "\<not> rc2 < 0" "rc3 < 0"
    | (x3) "\<not> rc1 < 0" "\<not> rc2 < 0" "\<not> rc3 < 0" "0 < ef_vi_receive_fill_level E w3"
    | (d) "\<not> rc1 < 0" "\<not> rc2 < 0" "\<not> rc3 < 0" "\<not> 0 < ef_vi_receive_fill_level E w3" "rc4 \<noteq> 0"
    | (e) "\<not> rc1 < 0" "\<not> rc2 < 0" "\<not> rc3 < 0" "\<not> 0 < ef_vi_receive_fill_level E w3" "rc4 = 0" "rc5 < 0"
    | (f) "\<not> rc1 < 0" "\<not> rc2 < 0" "\<not> rc3 < 0" "\<not> 0 < ef_vi_receive_fill_level E w3" "rc4 = 0" "\<not> rc5 < 0" by blast
  then show ?thesis
  proof cases
    case f
    then obtain w' where b: "p = Block (fresh_addrs E RX_N_BUF w')" using p by auto
    obtain rc6 a6 w6 where 6: "er_postLoop E [0..<RX_N_BUF] (fresh_addrs E RX_N_BUF w') w5 = Some (rc6, a6, w6)" "same L w5 w6"
      using er_postLoop_same [OF E(4), of "fresh_addrs E RX_N_BUF w'" "[0..<RX_N_BUF]" w5] E(1)
      by (auto simp: card_memory_def list_all_iff)
    have "took L dh (Block a6) w w6" using took_same [OF t5 6(2)] b took_block by metis
    then show ?thesis using f 1 2 3 4 5 6(1) b by (auto simp: er_init_def er_saveError_def Let_def)
  qed (use 1 2 3 4 5 t1 t2 t3 t4 t5 s p in \<open>auto simp: er_init_def er_saveError_def Let_def\<close>)
qed

lemma er_close_took:
  assumes "opens_handle E L" "counts_blocks E L" "took L (er_dh s) (er_bufs s) w w1" "er_bufs s \<noteq> Uninit"
  shows "if er_bufs s = MapFailed then er_close E (s, w1) = None
    else \<exists>w2. er_close E (s, w1) = Some (s\<lparr>er_dh := if 0 \<le> er_dh s then - 1 else er_dh s, er_bufs := Null\<rparr>, w2) \<and> same L w w2"
proof -
  define w' where "w' = (if 0 \<le> er_dh s then ef_driver_close E (er_dh s) w1 else w1)"
  note R = took_release [OF assms(1-3) w'_def, of "RX_N_BUF * PKT_BUF_SIZE" "er_mmapped s"]
  have run: "er_close E (s, w1) = map_option (\<lambda>w. (s\<lparr>er_dh := if 0 \<le> er_dh s then - 1 else er_dh s, er_bufs := Null\<rparr>, w))
      (releaseBufs E (RX_N_BUF * PKT_BUF_SIZE) (er_bufs s) (er_mmapped s) w')"
    by (cases "releaseBufs E (RX_N_BUF * PKT_BUF_SIZE) (er_bufs s) (er_mmapped s) w'") (simp_all add: er_close_def w'_def Let_def split: if_splits)
  show ?thesis
  proof (cases "releaseBufs E (RX_N_BUF * PKT_BUF_SIZE) (er_bufs s) (er_mmapped s) w'")
    case None
    then show ?thesis using R(1) run assms(4) by simp
  next
    case (Some w2)
    then have "er_bufs s \<noteq> MapFailed" using R(1) by auto
    then show ?thesis using R(2) [OF Some] run Some by simp
  qed
qed

text \<open>The subscription of a datagram receiver on top.\<close>

definition took_fd :: "'o Ledger \<Rightarrow> int \<Rightarrow> 'o \<Rightarrow> 'o \<Rightarrow> bool" where
  "took_fd L fd w w' \<longleftrightarrow> l_handles L w' = l_handles L w \<and> l_blocks L w' = l_blocks L w
     \<and> (if fd < 0 then l_fds L w' = l_fds L w else fd \<notin> l_fds L w \<and> l_fds L w' = insert fd (l_fds L w))"

lemma subscribe_fd_more: "EfviReceiver.more s' = EfviReceiver.more s \<Longrightarrow> subscribe_fd s' = subscribe_fd (s :: EfviUdpReceiver)"
  by (cases s; cases s') simp

lemma ur_init_took:
  assumes E: "card_memory E mac" "opens_handle E L" "counts_blocks E L" "card_keeps E L" "opens_fd S L"
    and s: "er_bufs s = Null" "subscribe_fd s = - 1"
  shows "\<exists>ok s1 w0 w1. ur_init E S ifc dip dport sub (s, w) = Some (ok, s1, w1) \<and> took L (er_dh s1) (er_bufs s1) w w0
    \<and> took_fd L (subscribe_fd s1) w0 w1 \<and> (er_bufs s1 = MapFailed \<longrightarrow> \<not> ok) \<and> er_bufs s1 \<noteq> Uninit"
proof -
  obtain ok s1 w1 where i: "er_init E ifc (s, w) = Some (ok, s1, w1)" "took L (er_dh s1) (er_bufs s1) w w1"
    "er_bufs s1 = MapFailed \<longrightarrow> \<not> ok" "er_bufs s1 \<noteq> Uninit" "subscribe_fd s1 = - 1"
    using er_init_took [OF E(1-4) s(1), of ifc w] s(2) subscribe_fd_more by metis
  let ?spec = "Ip4Local dip (htons dport)"
  define s2 where "s2 = s1\<lparr>udp_prefix_len := 64 + ef_vi_receive_prefix_len E w1 + 14 + 20 + 8\<rparr>"
  have f2: "er_dh s2 = er_dh s1" "er_bufs s2 = er_bufs s1" "subscribe_fd s2 = - 1" using i(5) by (simp_all add: s2_def)
  obtain rc w2 where 2: "ef_vi_filter_add E ?spec (er_dh s2) w1 = (rc, w2)" by fastforce
  have k2: "same L w1 w2" by (rule card_keepsD(5) [OF E(4) 2])
  have fd0: "took_fd L (- 1) w1 w1" "took_fd L (- 1) w1 w2" using k2 by (simp_all add: took_fd_def same_def)
  consider (a) "\<not> ok" | (b) "ok" "ef_filter_spec_set E ?spec < 0" | (c) "ok" "\<not> ef_filter_spec_set E ?spec < 0" "rc < 0"
    | (d) "ok" "\<not> ef_filter_spec_set E ?spec < 0" "\<not> rc < 0" "sub = None"
    | (e) ip where "ok" "\<not> ef_filter_spec_set E ?spec < 0" "\<not> rc < 0" "sub = Some ip" by (cases sub) blast+
  then show ?thesis
  proof cases
    case e
    obtain r w3 where 3: "os_socket S SockDgram w2 = (r, w3)" by fastforce
    show ?thesis
    proof (cases r)
      case None
      then have "took_fd L (- 1) w1 w3" using E(5) 3 k2 unfolding opens_fd_def took_fd_def same_def by fastforce
      then show ?thesis using e i 2 3 None f2 s2_def by (auto simp: ur_init_def Let_def)
    next
      case (Some fd)
      obtain b w4 where 4: "os_setsockopt S (IP_ADD_MEMBERSHIP ip dip) fd w3 = (b, w4)" by fastforce
      have "same L w3 w4" using E(5) 4 unfolding opens_fd_def keeps_def by (metis snd_conv)
      then have "took_fd L fd w1 w4" using E(5) 3 Some k2 unfolding opens_fd_def took_fd_def same_def by fastforce
      then show ?thesis using e i 2 3 4 Some f2 s2_def by (cases b) (auto simp: ur_init_def Let_def)
    qed
  qed (use i 2 f2 s2_def fd0 in \<open>auto simp: ur_init_def Let_def er_saveError_def\<close>)
qed

lemma ur_close_took:
  assumes E: "opens_handle E L" "counts_blocks E L" "opens_fd S L"
    and t: "took L (er_dh s) (er_bufs s) w w0" "took_fd L (subscribe_fd s) w0 w1" "er_bufs s \<noteq> Uninit"
  shows "if er_bufs s = MapFailed then ur_close E S r (s, w1) = None
    else \<exists>s2 w2. ur_close E S r (s, w1) = Some (s2, w2) \<and> same L w w2 \<and> er_isClosed s2 \<and> er_bufs s2 = Null \<and> subscribe_fd s2 < 0"
proof (cases "0 \<le> subscribe_fd s")
  case True
  let ?s = "(er_saveError E r 0 s)\<lparr>subscribe_fd := - 1\<rparr>" and ?w = "os_close S (subscribe_fd s) w1"
  have f: "er_dh ?s = er_dh s" "er_bufs ?s = er_bufs s" by (simp_all add: er_saveError_def)
  have "took L (er_dh ?s) (er_bufs ?s) w ?w"
    using E(3) t True unfolding f opens_fd_def took_fd_def took_def by (auto split: if_splits)
  then show ?thesis using er_close_took [OF E(1,2), of ?s w ?w] t(3) True f by (auto simp: ur_close_def er_isClosed_def)
next
  case False
  then have "took L (er_dh s) (er_bufs s) w w1" using t by (auto simp: took_fd_def took_def split: if_splits)
  then show ?thesis using er_close_took [OF E(1,2), of s w w1] t(3) False by (auto simp: ur_close_def er_isClosed_def)
qed

subsection \<open>The sender\<close>

lemma us_initX2_took:
  assumes E: "card_memory E mac" "counts_blocks E L" "card_keeps E L"
    and t: "took L (us_dh s) (x2_bufs s) w0 w" "\<forall>b. x2_bufs s \<noteq> Block b"
  shows "\<exists>ok s1 w1. us_initX2 E eth (s, w) = Some (ok, s1, w1) \<and> took L (us_dh s1) (x2_bufs s1) w0 w1 \<and> is_x3 s1 = is_x3 s
    \<and> (ok \<longrightarrow> (\<exists>b. x2_bufs s1 = Block b)) \<and> x2_bufs s1 \<noteq> Null"
proof -
  obtain p m rc w1 where 1: "allocBufs E (TX_N_BUF * PKT_BUF_SIZE) (fresh_bufs E TX_N_BUF) w = ((p, m, rc), w1)" by (metis prod.exhaust)
  obtain rc2 w2 where 2: "ef_memreg_alloc E (us_dh s) w1 = (rc2, w2)" by fastforce
  have t1: "took L (us_dh s) p w0 w1" and p: "if rc = 0 then \<exists>w'. p = Block (fresh_bufs E TX_N_BUF w') else p = MapFailed"
    using took_alloc [OF E(2) t 1] by simp_all
  have t2: "took L (us_dh s) p w0 w2" by (rule took_same [OF t1 card_keepsD(3) [OF E(3) 2]])
  consider (a) "rc \<noteq> 0" | (b) "rc = 0" "rc2 < 0" | (c) "rc = 0" "\<not> rc2 < 0" by blast
  then show ?thesis
  proof cases
    case c
    then obtain w' where b: "p = Block (fresh_bufs E TX_N_BUF w')" using p by auto
    obtain bufs where "us_bufLoop E eth [0..<TX_N_BUF] (fresh_bufs E TX_N_BUF w') w2 = Some bufs"
      using us_bufLoop_val [of "fresh_bufs E TX_N_BUF w'" "[0..<TX_N_BUF]" E eth w2] E(1) by (auto simp: card_memory_def list_all_iff)
    moreover have "took L (us_dh s) (Block bufs) w0 w2" using t2 b took_block by metis
    ultimately show ?thesis using c 1 2 b by (intro exI [of _ True]) (simp add: us_initX2_def Let_def)
  qed (use 1 2 t1 t2 p in \<open>auto simp: us_initX2_def us_saveError_def Let_def\<close>)
qed

lemma us_init_took:
  assumes E: "card_memory E mac" "opens_handle E L" "counts_blocks E L" "card_keeps E L"
    and s: "us_dh s < 0" "x2_bufs s = Uninit" and r: "us_init E arp route pton ifc lip lport dip dport (s, w) = Some (ok, s1, w1)"
  shows "took L (us_dh s1) (x2_bufs s1) w w1 \<and> (ok \<longrightarrow> is_x3 s1 \<or> (\<exists>b. x2_bufs s1 = Block b)) \<and> x2_bufs s1 \<noteq> Null
    \<and> (is_x3 s1 \<longrightarrow> x2_bufs s1 = Uninit)"
proof (cases "us_destMac arp route ifc dip (pton dip)")
  case None
  then show ?thesis using r by (simp add: us_init_def)
next
  case (Some mac')
  show ?thesis
  proof (cases mac')
    case (Inl err)
    then have "s1 = us_saveError E err 0 s" "w1 = w" "\<not> ok" using r Some by (auto simp: us_init_def)
    then show ?thesis using s by (simp add: us_saveError_def took_def)
  next
    case (Inr dmac)
    obtain rc1 dh w1' where 1: "ef_driver_open E w = (rc1, dh, w1')" by (metis prod.exhaust)
    obtain rc2 w2 where 2: "ef_pd_alloc_by_name E dh ifc w1' = (rc2, w2)" by fastforce
    define s' where "s' = (if ef_ctpio_only E dh ifc w2 then s\<lparr>us_dh := dh, is_x3 := True\<rparr> else s\<lparr>us_dh := dh\<rparr>)"
    obtain rc3 w3 where 3: "ef_vi_alloc_from_pd E dh 0 (if is_x3 s' then - 1 else int TX_N_BUF) w2 = (rc3, w3)" by fastforce
    have t1: "took L dh (Uninit :: udp_buf list block_ptr) w w1'" by (rule took_open [OF E(2) 1]) simp
    have t2: "took L dh (Uninit :: udp_buf list block_ptr) w w2" by (rule took_same [OF t1 card_keepsD(1) [OF E(4) 2]])
    have t3: "took L dh (Uninit :: udp_buf list block_ptr) w w3" by (rule took_same [OF t2 card_keepsD(2) [OF E(4) 3]])
    have s': "us_dh s' = dh" "x2_bufs s' = Uninit" using s by (simp_all add: s'_def)
    let ?eth = "init_udp_pkt (pton lip) (htons lport) (ef_vi_get_mac E w3) (pton dip) (htons dport) dmac"
    consider (a) "rc1 < 0" | (b) "\<not> rc1 < 0" "rc2 < 0" | (c) "\<not> rc1 < 0" "\<not> rc2 < 0" "rc3 < 0"
      | (x3) "\<not> rc1 < 0" "\<not> rc2 < 0" "\<not> rc3 < 0" "is_x3 s'" | (x2) "\<not> rc1 < 0" "\<not> rc2 < 0" "\<not> rc3 < 0" "\<not> is_x3 s'" by blast
    then show ?thesis
    proof cases
      case a
      then have "s1 = us_saveError E ''ef_driver_open failed'' rc1 (s\<lparr>us_dh := dh\<rparr>)" "w1 = w1'" "\<not> ok"
        using r Some Inr 1 by (auto simp: us_init_def Let_def)
      then show ?thesis using t1 s by (auto simp: us_saveError_def)
    next
      case b
      then have "s1 = us_saveError E ''ef_pd_alloc_by_name failed'' rc2 (s\<lparr>us_dh := dh\<rparr>)" "w1 = w2" "\<not> ok"
        using r Some Inr 1 2 by (auto simp: us_init_def Let_def)
      then show ?thesis using t2 s by (auto simp: us_saveError_def)
    next
      case c
      then have "s1 = us_saveError E ''ef_vi_alloc_from_pd failed'' rc3 s'" "w1 = w3" "\<not> ok"
        using r Some Inr 1 2 3 by (auto simp: us_init_def Let_def s'_def split: if_splits)
      then show ?thesis using t3 s' by (auto simp: us_saveError_def)
    next
      case x3
      then have "s1 = s'\<lparr>ipsum_cache := ipsumCache ?eth, x3_eth := ?eth\<rparr>" "w1 = w3"
        using r Some Inr 1 2 3 by (auto simp: us_init_def Let_def s'_def split: if_splits)
      then show ?thesis using t3 s' x3 by simp
    next
      case x2
      then have run: "us_initX2 E ?eth (s'\<lparr>ipsum_cache := ipsumCache ?eth\<rparr>, w3) = Some (ok, s1, w1)"
        using r Some Inr 1 2 3 by (simp add: us_init_def Let_def s'_def split: if_splits)
      show ?thesis
        using us_initX2_took [OF E(1,3,4), of "s'\<lparr>ipsum_cache := ipsumCache ?eth\<rparr>" w w3 ?eth] t3 s' run x2 by simp
    qed
  qed
qed

subsection \<open>Properties\<close>

definition card_ledger :: "CardLog Ledger" where
  "card_ledger = \<lparr>l_handles = (\<lambda>w. set (c_handles w)), l_blocks = c_blocks, l_fds = (\<lambda>_. {})\<rparr>"

lemma log_card_ledger: "opens_handle (log_card x3) card_ledger" "counts_blocks (log_card x3) card_ledger" "card_keeps (log_card x3) card_ledger"
proof -
  have n: "0 \<le> sum_list (map abs xs)" for xs :: "int list" by (induction xs) auto
  have m: "\<bar>x\<bar> \<le> sum_list (map abs xs)" if "x \<in> set xs" for x :: int and xs
    using that n by (induction xs) (auto intro: add_increasing2)
  have "1 + sum_list (map abs xs) \<notin> set xs" for xs :: "int list"
    using m [of "1 + sum_list (map abs xs)" xs] n [of xs] by auto
  then show "opens_handle (log_card x3) card_ledger" using n by (auto simp: opens_handle_def log_card_def card_ledger_def)
qed (simp_all add: counts_blocks_def card_keeps_def keeps_def same_def log_card_def card_ledger_def)


text \<open>A system that opens no sockets.\<close>

definition no_socks :: "CardLog Sys" where
  "no_socks = \<lparr>os_errno = (\<lambda>_. EBADF), os_strerror = (\<lambda>_. ''none''), os_socket = (\<lambda>_ w. (None, w)), os_close = (\<lambda>_ w. w),
     os_nonblock = (\<lambda>_ w. (False, w)), os_setsockopt = (\<lambda>_ _ w. (False, w)), os_bind = (\<lambda>_ _ w. (False, w)), os_listen = (\<lambda>_ w. (False, w)),
     os_accept = (\<lambda>_ w. (None, w)), os_connect = (\<lambda>_ _ w. (False, w)), os_send = (\<lambda>_ _ _ w. (None, w)), os_sendto = (\<lambda>_ _ _ w. (None, w)),
     os_read = (\<lambda>_ _ w. (None, w)), os_recvfrom = (\<lambda>_ _ w. (None, w))\<rparr>"




end
