(* ===== verification/Tcpdirect.thy ===== *)
theory Tcpdirect
  imports Socket
begin

text \<open>
  The transports of \<^verbatim>\<open>Tcpdirect.h\<close>, on a vendor library with TCP sockets in user space. The library is
  a parameter: a record of functions on a state \<open>'o\<close>, which also stands for whatever the user's handlers
  change. A negative return code is an error. Pointers to objects of the library are numbers, and \<open>None\<close>
  is the null pointer; a call with a null pointer that the library would dereference is \<open>None\<close>.
\<close>

subsection \<open>The library\<close>

datatype zft_state = TCP_SYN_SENT | TCP_ESTABLISHED | TCP_OTHER nat

text \<open>
  \<open>zft_zc_recv\<close> returns nothing or the bytes of one segment, none at the end of the stream.
  \<open>zf_attr_set\<close> stands for the two calls that set the interface and the spin count of new attributes.
  \<open>zft_again\<close> says of an error of \<open>zft_send_single\<close> that it is \<^verbatim>\<open>EAGAIN\<close> or \<^verbatim>\<open>ENOMEM\<close>.
\<close>

record 'o Zf =
  zf_strerror :: "int \<Rightarrow> string"
  zf_init :: "'o \<Rightarrow> int \<times> 'o"
  zf_attr_alloc :: "'o \<Rightarrow> int \<times> int \<times> 'o"
  zf_attr_set :: "string \<Rightarrow> int \<Rightarrow> 'o \<Rightarrow> 'o"
  zf_attr_free :: "int \<Rightarrow> 'o \<Rightarrow> 'o"
  zf_stack_alloc :: "int \<Rightarrow> 'o \<Rightarrow> int \<times> int \<times> 'o"
  zf_stack_free :: "int \<Rightarrow> 'o \<Rightarrow> 'o"
  zf_reactor_perform :: "int \<Rightarrow> 'o \<Rightarrow> 'o"
  zft_alloc :: "int \<Rightarrow> int \<Rightarrow> 'o \<Rightarrow> int \<times> int \<times> 'o"
  zft_addr_bind :: "sock_addr \<Rightarrow> int \<Rightarrow> 'o \<Rightarrow> int \<times> 'o"
  zft_handle_free :: "int \<Rightarrow> 'o \<Rightarrow> 'o"
  zft_connect :: "sock_addr \<Rightarrow> int \<Rightarrow> 'o \<Rightarrow> int \<times> int \<times> 'o"
  zft_state_of :: "int \<Rightarrow> 'o \<Rightarrow> zft_state"
  zft_free :: "int \<Rightarrow> 'o \<Rightarrow> 'o"
  zft_send_single :: "u8 list \<Rightarrow> bool \<Rightarrow> int \<Rightarrow> 'o \<Rightarrow> int \<times> 'o"
  zft_again :: "int \<Rightarrow> bool"
  zft_zc_recv :: "int \<Rightarrow> 'o \<Rightarrow> u8 list option \<times> 'o"
  zft_zc_recv_done :: "int \<Rightarrow> 'o \<Rightarrow> 'o"
  zftl_listen :: "sock_addr \<Rightarrow> int \<Rightarrow> int \<Rightarrow> 'o \<Rightarrow> int \<times> int \<times> 'o"
  zftl_accept :: "int \<Rightarrow> 'o \<Rightarrow> int \<times> int \<times> 'o"
  zftl_free :: "int \<Rightarrow> 'o \<Rightarrow> 'o"

text \<open>\<^verbatim>\<open>_zf_init\<close>; the flag \<^verbatim>\<open>_zf_inited\<close> is shared by all transports of a program.\<close>

definition zf_init_once :: "'o Zf \<Rightarrow> bool \<times> 'o \<Rightarrow> int \<times> bool \<times> 'o" where
  "zf_init_once Z gw = (case gw of (inited, w) \<Rightarrow>
     if \<not> inited then
       case zf_init Z w of (rc, w) \<Rightarrow> if rc < 0 then (rc, False, w) else (0, True, w)
     else (0, True, w))"

subsection \<open>A TCP connection\<close>

record TcpdirectTcpConnection =
  zock :: "int option"
  zd_stack :: "int option"
  zd_send_ts :: int
  zd_expire_ts :: int
  zd_head :: u32
  zd_tail :: u32
  zd_recvbuf :: "u8 list"
  zd_error :: string

type_synonym ('s, 'o) zd = "'s TcpdirectTcpConnection_scheme \<times> 'o"

record ('s, 'o) ZdHandler =
  zd_onTcpConnected :: "('s, 'o) zd \<Rightarrow> ('s, 'o) zd"
  zd_onTcpDisconnect :: "('s, 'o) zd \<Rightarrow> ('s, 'o) zd"
  zd_onTcpConnectFailed :: "('s, 'o) zd \<Rightarrow> ('s, 'o) zd"
  zd_onTcpData :: "u8 list \<Rightarrow> ('s, 'o) zd \<Rightarrow> u32 \<times> ('s, 'o) zd"
  zd_onSendTimeout :: "('s, 'o) zd \<Rightarrow> ('s, 'o) zd"
  zd_onRecvTimeout :: "('s, 'o) zd \<Rightarrow> ('s, 'o) zd"

definition zd_isConnected :: "'o Zf \<Rightarrow> ('s, 'o) zd \<Rightarrow> bool" where
  "zd_isConnected Z sw = (case zock (fst sw) of None \<Rightarrow> False | Some z \<Rightarrow> zft_state_of Z z (snd sw) = TCP_ESTABLISHED)"

definition zf_text :: "'o Zf \<Rightarrow> string \<Rightarrow> int \<Rightarrow> string" where
  "zf_text Z msg rc = error_text msg (if rc < 0 then zf_strerror Z (- rc) else '''')"

definition zd_saveError :: "'o Zf \<Rightarrow> string \<Rightarrow> int \<Rightarrow> 's TcpdirectTcpConnection_scheme \<Rightarrow> 's TcpdirectTcpConnection_scheme" where
  "zd_saveError Z msg rc s = s\<lparr>zd_error := zf_text Z msg rc\<rparr>"

definition zd_close :: "'o Zf \<Rightarrow> string \<Rightarrow> ('s, 'o) zd \<Rightarrow> ('s, 'o) zd" where
  "zd_close Z reason sw = (case sw of (s, w) \<Rightarrow>
     case zock s of
       None \<Rightarrow> (s, w)
     | Some z \<Rightarrow> ((zd_saveError Z reason 0 s)\<lparr>zock := None\<rparr>, zft_free Z z w))"

definition zd_writeSome ::
  "SConf \<Rightarrow> 'o Zf \<Rightarrow> int \<Rightarrow> u8 list \<Rightarrow> bool \<Rightarrow> ('s, 'o) zd \<Rightarrow> (int \<times> ('s, 'o) zd) option" where
  "zd_writeSome cf Z now data more_data sw = (case sw of (s, w) \<Rightarrow> do {
     z \<leftarrow> zock s;
     let (sent, w) = zft_send_single Z data more_data z w;
     let (sent, s) = (if sent < 0 then if zft_again Z sent then (0, s) else (sent, zd_saveError Z ''zft_send_single error'' sent s)
                      else (sent, s));
     Some (sent, if SSendTimeoutSec cf \<noteq> 0 then s\<lparr>zd_send_ts := now\<rparr> else s, w)
   })"

text \<open>The loop of \<^verbatim>\<open>write\<close> ends only when the library takes the rest of the data; \<open>clock\<close> is the time of the call.\<close>

partial_function (option) zd_write ::
  "SConf \<Rightarrow> 'o Zf \<Rightarrow> ('o \<Rightarrow> int) \<Rightarrow> u8 list \<Rightarrow> bool \<Rightarrow> ('s, 'o) zd \<Rightarrow> (bool \<times> ('s, 'o) zd) option" where
  "zd_write cf Z clock data more_data sw =
     (case zd_writeSome cf Z (clock (snd sw)) data more_data sw of
        None \<Rightarrow> None
      | Some (sent, sw) \<Rightarrow>
          if sent < 0 then Some (False, sw)
          else if drop (nat sent) data = [] then Some (True, sw)
          else zd_write cf Z clock (drop (nat sent) data) more_data sw)"

definition zd_writeNonblock ::
  "SConf \<Rightarrow> 'o Zf \<Rightarrow> int \<Rightarrow> u8 list \<Rightarrow> bool \<Rightarrow> ('s, 'o) zd \<Rightarrow> (bool \<times> ('s, 'o) zd) option" where
  "zd_writeNonblock cf Z now data more_data sw = do {
     (sent, sw) \<leftarrow> zd_writeSome cf Z now data more_data sw;
     Some (if sent \<noteq> int (length data) then (False, zd_close Z ''zft_send_single failed'' sw) else (True, sw))
   }"

definition zd_open :: "SConf \<Rightarrow> int \<Rightarrow> int \<Rightarrow> int option \<Rightarrow> 's TcpdirectTcpConnection_scheme \<Rightarrow> 's TcpdirectTcpConnection_scheme" where
  "zd_open cf now z stack s =
     s\<lparr>zock := Some z, zd_stack := stack, zd_head := 0, zd_tail := 0, zd_send_ts := now, zd_expire_ts := now + uint (SRecvTimeoutSec cf)\<rparr>"

text \<open>What \<^verbatim>\<open>read\<close> does with new bytes that fit the buffer: shown at once when nothing waits, or else behind what waits.\<close>

definition zd_take ::
  "SConf \<Rightarrow> (u8 list \<Rightarrow> ('s, 'o) zd \<Rightarrow> u32 \<times> ('s, 'o) zd) \<Rightarrow> u8 list \<Rightarrow> ('s, 'o) zd \<Rightarrow> ('s, 'o) zd option" where
  "zd_take cf handler new_data sw = (case sw of (s, w) \<Rightarrow>
     let new_size = of_nat (length new_data) :: u32 in
     if zd_tail s = 0 then
       (case handler new_data (s, w) of (remaining, s, w) \<Rightarrow>
          if remaining \<noteq> 0 then do {
            bs \<leftarrow> load_bytes (unat (new_size - remaining)) (unat remaining) new_data;
            mem \<leftarrow> store_bytes 0 bs (zd_recvbuf s);
            Some (s\<lparr>zd_recvbuf := mem, zd_tail := remaining\<rparr>, w)
          } else Some (s, w))
     else do {
       mem \<leftarrow> store_bytes (unat (zd_tail s)) new_data (zd_recvbuf s);
       let s = s\<lparr>zd_recvbuf := mem, zd_tail := zd_tail s + new_size\<rparr>;
       data \<leftarrow> load_bytes (unat (zd_head s)) (unat (zd_tail s - zd_head s)) (zd_recvbuf s);
       case handler data (s, w) of (remaining, s, w) \<Rightarrow>
         if remaining = 0 then Some (s\<lparr>zd_head := 0, zd_tail := 0\<rparr>, w)
         else
           let s = s\<lparr>zd_head := zd_tail s - remaining\<rparr> in
           if RecvBufSize cf div 2 \<le> zd_head s then do {
             mem \<leftarrow> memcpy_down (unat (zd_head s)) (unat remaining) (zd_recvbuf s);
             Some (s\<lparr>zd_recvbuf := mem, zd_head := 0, zd_tail := remaining\<rparr>, w)
           } else Some (s, w)
     })"

definition zd_read ::
  "SConf \<Rightarrow> 'o Zf \<Rightarrow> (u8 list \<Rightarrow> ('s, 'o) zd \<Rightarrow> u32 \<times> ('s, 'o) zd) \<Rightarrow> ('s, 'o) zd \<Rightarrow> (bool \<times> ('s, 'o) zd) option" where
  "zd_read cf Z handler sw = (case sw of (s, w) \<Rightarrow> do {
     stack \<leftarrow> zd_stack s;
     z \<leftarrow> zock s;
     let w = zf_reactor_perform Z stack w;
     case zft_zc_recv Z z w of
       (None, w) \<Rightarrow> Some (False, s, w)
     | (Some new_data, w) \<Rightarrow>
         let new_size = of_nat (length new_data) :: u32 in
         if new_size = 0 then Some (False, zd_close Z ''remote close'' (s, zft_zc_recv_done Z z w))
         else if RecvBufSize cf < new_size + zd_tail s then Some (False, zd_close Z ''recv buf full'' (s, zft_zc_recv_done Z z w))
         else do {
           (s, w) \<leftarrow> zd_take cf handler new_data (s, w);
           Some (True, s, case zock s of None \<Rightarrow> w | Some z \<Rightarrow> zft_zc_recv_done Z z w)
         }
   })"

definition zd_pollConn :: "SConf \<Rightarrow> 'o Zf \<Rightarrow> ('s, 'o) ZdHandler \<Rightarrow> int \<Rightarrow> ('s, 'o) zd \<Rightarrow> ('s, 'o) zd option" where
  "zd_pollConn cf Z h now sw = do {
     let sw = (if SSendTimeoutSec cf \<noteq> 0 \<and> zd_send_ts (fst sw) + uint (SSendTimeoutSec cf) \<le> now
               then case zd_onSendTimeout h sw of (s, w) \<Rightarrow> (s\<lparr>zd_send_ts := now\<rparr>, w) else sw);
     (got_data, sw) \<leftarrow> zd_read cf Z (zd_onTcpData h) sw;
     if SRecvTimeoutSec cf \<noteq> 0 then
       let (got_data, sw) = (if \<not> got_data \<and> zd_expire_ts (fst sw) \<le> now then (True, zd_onRecvTimeout h sw) else (got_data, sw))
       in Some (if got_data then ((fst sw)\<lparr>zd_expire_ts := now + uint (SRecvTimeoutSec cf)\<rparr>, snd sw) else sw)
     else Some sw
   }"

subsection \<open>The client\<close>

record TcpdirectTcpClient = TcpdirectTcpConnection +
  zd_attr :: "int option"
  zd_next_conn_ts :: int
  zd_server_addr :: sock_addr
  zd_local_port_be :: u16

type_synonym ('s, 'o) zdc = "'s TcpdirectTcpClient_scheme \<times> 'o"

text \<open>Waiting for the answer to the SYN.\<close>

partial_function (option) zd_awaitSyn :: "'o Zf \<Rightarrow> int \<Rightarrow> int \<Rightarrow> 'o \<Rightarrow> 'o option" where
  "zd_awaitSyn Z stack z w =
     (if zft_state_of Z z w = TCP_SYN_SENT then zd_awaitSyn Z stack z (zf_reactor_perform Z stack w) else Some w)"

definition zd_connect ::
  "SConf \<Rightarrow> 'o Zf \<Rightarrow> ('o \<Rightarrow> int) \<Rightarrow> int option \<Rightarrow> sock_addr \<Rightarrow> u16 \<Rightarrow> ('s, 'o) zd \<Rightarrow> (bool \<times> ('s, 'o) zd) option" where
  "zd_connect cf Z clock attr addr port_be sw = (case sw of (s, w) \<Rightarrow> do {
     stack \<leftarrow> zd_stack s;
     a \<leftarrow> attr;
     case zft_alloc Z stack a w of (rc, tcp_handle, w) \<Rightarrow>
     if rc < 0 then Some (False, zd_saveError Z ''zft_alloc error'' rc s, w)
     else case (if port_be \<noteq> 0 then zft_addr_bind Z (Inet 0 port_be) tcp_handle w else (0, w)) of (rc, w) \<Rightarrow>
     if rc < 0 then Some (False, zd_saveError Z ''bind error'' rc s, zft_handle_free Z tcp_handle w)
     else case zft_connect Z addr tcp_handle w of (rc, z, w) \<Rightarrow>
     if rc < 0 then Some (False, zd_saveError Z ''zft_connect error'' rc s, zft_handle_free Z tcp_handle w)
     else do {
       let s = s\<lparr>zock := Some z\<rparr>;
       w \<leftarrow> zd_awaitSyn Z stack z w;
       if zft_state_of Z z w \<noteq> TCP_ESTABLISHED then Some (False, zd_saveError Z ''zft_state error'' 0 s, w)
       else Some (True, zd_open cf (clock w) z (Some stack) s, w)
     }
   })"

definition zd_client_init ::
  "'o Zf \<Rightarrow> string \<Rightarrow> u32 \<Rightarrow> u16 \<Rightarrow> u16 \<Rightarrow> bool \<times> ('s, 'o) zdc \<Rightarrow> bool \<times> bool \<times> ('s, 'o) zdc" where
  "zd_client_init Z interface server_ip server_port local_port gsw = (case gsw of (g, s, w) \<Rightarrow>
     let s = s\<lparr>zd_server_addr := Inet server_ip (htons server_port), zd_local_port_be := htons local_port\<rparr> in
     case zf_init_once Z (g, w) of (rc, g, w) \<Rightarrow>
     if rc < 0 then (False, g, zd_saveError Z ''zf_init error'' rc s, w)
     else case (case zd_attr s of
         Some a \<Rightarrow> (0, s, w)
       | None \<Rightarrow>
           (case zf_attr_alloc Z w of (rc, a, w) \<Rightarrow>
              if rc < 0 then (rc, s, w) else (0, s\<lparr>zd_attr := Some a\<rparr>, zf_attr_set Z interface a w))) of (rc, s, w) \<Rightarrow>
     if rc < 0 then (False, g, zd_saveError Z ''zf_attr_alloc error'' rc s, w)
     else case (zd_stack s, zd_attr s) of
       (None, Some a) \<Rightarrow>
         (case zf_stack_alloc Z a w of (rc, st, w) \<Rightarrow>
            if rc < 0 then (False, g, (zd_saveError Z ''zf_stack_alloc error'' rc s)\<lparr>zd_attr := None\<rparr>, zf_attr_free Z a w)
            else (True, g, s\<lparr>zd_stack := Some st\<rparr>, w))
     | _ \<Rightarrow> (True, g, s, w))"

definition zd_allowReconnect :: "'s TcpdirectTcpClient_scheme \<Rightarrow> 's TcpdirectTcpClient_scheme" where
  "zd_allowReconnect s = s\<lparr>zd_next_conn_ts := 0\<rparr>"

definition zd_client_poll ::
  "SConf \<Rightarrow> 'o Zf \<Rightarrow> ('o \<Rightarrow> int) \<Rightarrow> ('s TcpdirectTcpClient_ext, 'o) ZdHandler \<Rightarrow> ('s, 'o) zdc \<Rightarrow> ('s, 'o) zdc option" where
  "zd_client_poll cf Z clock h sw =
     (let now = clock (snd sw);
          run = (\<lambda>sw. do {
            sw \<leftarrow> zd_pollConn cf Z h now sw;
            Some (if zd_isConnected Z sw then sw else zd_onTcpDisconnect h sw)
          })
      in if zd_isConnected Z sw then run sw
      else case sw of (s, w) \<Rightarrow>
        if now < zd_next_conn_ts s then Some (s, w)
        else do {
          let s = s\<lparr>zd_next_conn_ts := if SConnRetrySec cf \<noteq> 0 then now + uint (SConnRetrySec cf) else int64_max\<rparr>;
          (ok, sw) \<leftarrow> zd_connect cf Z clock (zd_attr s) (zd_server_addr s) (zd_local_port_be s) (s, w);
          if \<not> ok then Some (zd_onTcpConnectFailed h sw) else run (zd_onTcpConnected h sw)
        })"

text \<open>The destructor.\<close>

definition zd_client_destroy :: "'o Zf \<Rightarrow> ('s, 'o) zdc \<Rightarrow> ('s, 'o) zdc" where
  "zd_client_destroy Z sw = (case zd_close Z ''destruct'' sw of (s, w) \<Rightarrow>
     (s, case zd_stack s of None \<Rightarrow> w | Some st \<Rightarrow> zf_stack_free Z st w))"

subsection \<open>The server\<close>

record 's TcpdirectTcpServer =
  zs_stack :: "int option"
  zs_listener :: "int option"
  zs_error :: string
  zs_conns_cnt :: u32
  zs_conns_ptr :: "nat list"
  zs_conns_data :: "'s TcpdirectTcpConnection_scheme list"

definition zs_init ::
  "SConf \<Rightarrow> 'o Zf \<Rightarrow> string \<Rightarrow> u32 \<Rightarrow> u16 \<Rightarrow> bool \<times> 's TcpdirectTcpServer \<times> 'o \<Rightarrow> bool \<times> bool \<times> 's TcpdirectTcpServer \<times> 'o" where
  "zs_init cf Z interface server_ip server_port gsw = (case gsw of (g, s, w) \<Rightarrow>
     let s = s\<lparr>zs_conns_ptr := [0..<unat (MaxConns cf)]\<rparr> in
     case zf_init_once Z (g, w) of (rc, g, w) \<Rightarrow>
     if rc < 0 then (False, g, s\<lparr>zs_error := zf_text Z ''zf_init error'' rc\<rparr>, w)
     else case zf_attr_alloc Z w of (rc, attr, w) \<Rightarrow>
     if rc < 0 then (False, g, s\<lparr>zs_error := zf_text Z ''zf_attr_alloc error'' rc\<rparr>, w)
     else case zf_stack_alloc Z attr (zf_attr_set Z interface attr w) of (rc, st, w) \<Rightarrow>
     if rc < 0 then (False, g, s\<lparr>zs_error := zf_text Z ''zf_stack_alloc error'' rc\<rparr>, zf_attr_free Z attr w)
     else let s = s\<lparr>zs_stack := Some st\<rparr> in
       case zftl_listen Z (Inet server_ip (htons server_port)) st attr w of (rc, l, w) \<Rightarrow>
       if rc < 0 then (False, g, s\<lparr>zs_error := zf_text Z ''zftl_listen error'' rc\<rparr>, w)
       else (True, g, s\<lparr>zs_listener := Some l\<rparr>, w))"

definition zs_close :: "'o Zf \<Rightarrow> string \<Rightarrow> 's TcpdirectTcpServer \<times> 'o \<Rightarrow> 's TcpdirectTcpServer \<times> 'o" where
  "zs_close Z reason sw = (case sw of (s, w) \<Rightarrow>
     let (s, w) = (case zs_listener s of
           None \<Rightarrow> (s, w)
         | Some l \<Rightarrow> (s\<lparr>zs_listener := None, zs_error := zf_text Z reason 0\<rparr>, zftl_free Z l w))
     in case zs_stack s of None \<Rightarrow> (s, w) | Some st \<Rightarrow> (s\<lparr>zs_stack := None\<rparr>, zf_stack_free Z st w))"

definition zs_isClosed :: "'s TcpdirectTcpServer \<Rightarrow> bool" where
  "zs_isClosed s \<longleftrightarrow> zs_listener s = None"

fun zs_foreachLoop ::
  "(('s, 'o) zd \<Rightarrow> ('s, 'o) zd) \<Rightarrow> nat list \<Rightarrow> 's TcpdirectTcpServer \<times> 'o \<Rightarrow> ('s TcpdirectTcpServer \<times> 'o) option" where
  "zs_foreachLoop f [] sw = Some sw"
| "zs_foreachLoop f (i # is) (s, w) = do {
     p \<leftarrow> arr_get (zs_conns_ptr s) i;
     conn \<leftarrow> arr_get (zs_conns_data s) p;
     let (conn, w) = f (conn, w);
     zs_foreachLoop f is (s\<lparr>zs_conns_data := (zs_conns_data s)[p := conn]\<rparr>, w)
   }"

definition zs_foreachConn ::
  "(('s, 'o) zd \<Rightarrow> ('s, 'o) zd) \<Rightarrow> 's TcpdirectTcpServer \<times> 'o \<Rightarrow> ('s TcpdirectTcpServer \<times> 'o) option" where
  "zs_foreachConn f sw = zs_foreachLoop f [0..<unat (zs_conns_cnt (fst sw))] sw"

definition zs_accept ::
  "SConf \<Rightarrow> 'o Zf \<Rightarrow> ('s, 'o) ZdHandler \<Rightarrow> int \<Rightarrow> 's TcpdirectTcpServer \<times> 'o \<Rightarrow> ('s TcpdirectTcpServer \<times> 'o) option" where
  "zs_accept cf Z h now sw = (case sw of (s, w) \<Rightarrow>
     if zs_conns_cnt s < MaxConns cf then do {
       p \<leftarrow> arr_get (zs_conns_ptr s) (unat (zs_conns_cnt s));
       conn \<leftarrow> arr_get (zs_conns_data s) p;
       st \<leftarrow> zs_stack s;
       l \<leftarrow> zs_listener s;
       case zftl_accept Z l (zf_reactor_perform Z st w) of (rc, z, w) \<Rightarrow>
         if 0 \<le> rc then
           case zd_onTcpConnected h (zd_open cf now z (zs_stack s) conn, w) of (conn, w) \<Rightarrow>
             Some (s\<lparr>zs_conns_cnt := zs_conns_cnt s + 1, zs_conns_data := (zs_conns_data s)[p := conn]\<rparr>, w)
         else Some (s, w)
     }
     else Some (s, w))"

function zs_pollLoop ::
  "SConf \<Rightarrow> 'o Zf \<Rightarrow> ('s, 'o) ZdHandler \<Rightarrow> int \<Rightarrow> nat \<Rightarrow> 's TcpdirectTcpServer \<times> 'o \<Rightarrow> ('s TcpdirectTcpServer \<times> 'o) option" where
  "zs_pollLoop cf Z h now i (s, w) =
     (if i < unat (zs_conns_cnt s) then
        case arr_get (zs_conns_ptr s) i of None \<Rightarrow> None | Some p \<Rightarrow>
        (case arr_get (zs_conns_data s) p of None \<Rightarrow> None | Some conn \<Rightarrow>
        (case zd_pollConn cf Z h now (conn, w) of None \<Rightarrow> None | Some (conn, w) \<Rightarrow>
           if zd_isConnected Z (conn, w) then
             zs_pollLoop cf Z h now (Suc i) (s\<lparr>zs_conns_data := (zs_conns_data s)[p := conn]\<rparr>, w)
           else
             (case zd_onTcpDisconnect h (conn, w) of (conn, w) \<Rightarrow>
                zs_pollLoop cf Z h now i
                  (s\<lparr>zs_conns_cnt := zs_conns_cnt s - 1, zs_conns_ptr := swap_ptr i (unat (zs_conns_cnt s - 1)) (zs_conns_ptr s),
                     zs_conns_data := (zs_conns_data s)[p := conn]\<rparr>, w))))
      else Some (s, w))"
  by pat_completeness auto
termination
proof (relation "measure (\<lambda>(cf, Z, h, now, i, s, w). unat (zs_conns_cnt s) - i)", goal_cases)
  case (3 cf Z h now i s w)
  then have "zs_conns_cnt s \<noteq> 0" by auto
  then show ?case using 3 by (simp add: unat_minus_one)
qed simp_all

declare zs_pollLoop.simps [simp del]

definition zs_poll ::
  "SConf \<Rightarrow> 'o Zf \<Rightarrow> ('s, 'o) ZdHandler \<Rightarrow> int \<Rightarrow> 's TcpdirectTcpServer \<times> 'o \<Rightarrow> ('s TcpdirectTcpServer \<times> 'o) option" where
  "zs_poll cf Z h now sw = do {
     sw \<leftarrow> zs_accept cf Z h now sw;
     zs_pollLoop cf Z h now 0 sw
   }"

end
