(* ===== verification/TcpdirectStream.thy ===== *)
theory TcpdirectStream
  imports Tcpdirect SocketStream
begin

text \<open>
  What the connections of \<^verbatim>\<open>Tcpdirect.h\<close> promise about the received stream, and where they do not
  give back what they hold or work on a connection that was closed under them.
\<close>

subsection \<open>The receive buffer\<close>

definition zd_pending :: "'s TcpdirectTcpConnection_scheme \<Rightarrow> u8 list" where
  "zd_pending s = take (unat (zd_tail s - zd_head s)) (drop (unat (zd_head s)) (zd_recvbuf s))"

definition zd_inv :: "SConf \<Rightarrow> 's TcpdirectTcpConnection_scheme \<Rightarrow> bool" where
  "zd_inv cf s \<longleftrightarrow> length (zd_recvbuf s) = unat (RecvBufSize cf) \<and> zd_head s \<le> zd_tail s \<and> zd_tail s \<le> RecvBufSize cf"

definition zd_conf :: "SConf \<Rightarrow> bool" where
  "zd_conf cf \<longleftrightarrow> sk_conf cf \<and> unat (RecvBufSize cf) < 2 ^ 31"

text \<open>What a callback may do with a connection: it may write, and it may close it.\<close>

definition zd_keeps :: "'s TcpdirectTcpConnection_scheme \<Rightarrow> 's TcpdirectTcpConnection_scheme \<Rightarrow> bool" where
  "zd_keeps s s' \<longleftrightarrow> zd_head s' = zd_head s \<and> zd_tail s' = zd_tail s \<and> zd_recvbuf s' = zd_recvbuf s \<and> zd_stack s' = zd_stack s
     \<and> (zock s' = zock s \<or> zock s' = None)"

definition zd_data_ok :: "(u8 list \<Rightarrow> ('s, 'o) zd \<Rightarrow> u32 \<times> ('s, 'o) zd) \<Rightarrow> bool" where
  "zd_data_ok f \<longleftrightarrow> (\<forall>data s w r s' w'. f data (s, w) = (r, s', w') \<longrightarrow> unat r \<le> length data \<and> zd_keeps s s')"

lemma zd_keeps_facts:
  assumes "zd_keeps s s'"
  shows "zd_pending s' = zd_pending s" "zd_inv cf s' = zd_inv cf s"
  using assms by (auto simp: zd_keeps_def zd_pending_def zd_inv_def)

lemma zd_pending_val:
  assumes "zd_inv cf s"
  shows "zd_pending s = take (unat (zd_tail s) - unat (zd_head s)) (drop (unat (zd_head s)) (zd_recvbuf s))"
    "length (zd_pending s) = unat (zd_tail s) - unat (zd_head s)" "unat (zd_tail s) \<le> unat (RecvBufSize cf)"
    "unat (zd_tail s - zd_head s) = unat (zd_tail s) - unat (zd_head s)"
proof -
  have I: "length (zd_recvbuf s) = unat (RecvBufSize cf)" "zd_head s \<le> zd_tail s" "zd_tail s \<le> RecvBufSize cf"
    using assms by (simp_all add: zd_inv_def)
  show d: "unat (zd_tail s - zd_head s) = unat (zd_tail s) - unat (zd_head s)" using I(2) by (rule unat_sub)
  then show "zd_pending s = take (unat (zd_tail s) - unat (zd_head s)) (drop (unat (zd_head s)) (zd_recvbuf s))"
    by (simp add: zd_pending_def)
  show "unat (zd_tail s) \<le> unat (RecvBufSize cf)" using I(3) by (simp add: word_le_nat_alt)
  then show "length (zd_pending s) = unat (zd_tail s) - unat (zd_head s)" using I d by (simp add: zd_pending_def)
qed

lemma drop_take_tail:
  assumes "r \<le> t - h" "h \<le> t"
  shows "drop (t - h - r) (take (t - h) (drop h xs)) = take r (drop (t - r) xs)"
proof -
  obtain d where "t = h + r + d" using assms by (metis add.assoc le_Suc_ex le_diff_conv2 add.commute)
  then show ?thesis by (simp add: drop_take add.commute)
qed

text \<open>A buffer that holds \<open>bs\<close> at its start.\<close>

lemma zd_front:
  assumes "length (zd_recvbuf s) = unat (RecvBufSize cf)" "length bs = unat r" "unat r \<le> unat (RecvBufSize cf)"
    and "s' = s\<lparr>zd_recvbuf := bs @ drop (length bs) (zd_recvbuf s), zd_head := 0, zd_tail := r\<rparr>"
  shows "zd_inv cf s'" "zd_pending s' = bs"
  using assms by (simp_all add: zd_inv_def zd_pending_def word_le_nat_alt)

text \<open>The handler is shown what waited and what is new, and what it leaves waits.\<close>

definition zd_shown :: "(u8 list \<Rightarrow> ('s, 'o) zd \<Rightarrow> u32 \<times> ('s, 'o) zd) \<Rightarrow> u8 list \<Rightarrow> ('s, 'o) zd \<Rightarrow> ('s, 'o) zd \<Rightarrow> bool" where
  "zd_shown f data sw sw' \<longleftrightarrow> (\<exists>s0 r s1. f data (s0, snd sw) = (r, s1, snd sw') \<and> zock s0 = zock (fst sw)
     \<and> zock (fst sw') = zock s1 \<and> zd_pending (fst sw') = drop (length data - unat r) data)"

lemma zd_take_first:
  assumes inv: "zd_inv cf s" and f: "zd_data_ok f" and n: "length new \<le> unat (RecvBufSize cf)" and t: "zd_tail s = 0"
  shows "\<exists>s' w'. zd_take cf f new (s, w) = Some (s', w') \<and> zd_inv cf s' \<and> zd_shown f (zd_pending s @ new) (s, w) (s', w')
    \<and> zd_stack s' = zd_stack s"
proof -
  have h0: "zd_head s = 0" "zd_pending s = []" using inv t by (simp_all add: zd_inv_def zd_pending_def)
  obtain r s1 w1 where h: "f new (s, w) = (r, s1, w1)" by (metis prod.exhaust)
  have k: "unat r \<le> length new" "zd_keeps s s1" using f h unfolding zd_data_ok_def by blast+
  have I1: "length (zd_recvbuf s1) = unat (RecvBufSize cf)" "zd_head s1 = 0" "zd_tail s1 = 0" "zd_stack s1 = zd_stack s"
    using k(2) inv h0 t by (simp_all add: zd_keeps_def zd_inv_def)
  show ?thesis
  proof (cases "r = 0")
    case True
    then have "zd_take cf f new (s, w) = Some (s1, w1)" using t h by (simp add: zd_take_def)
    moreover have "zd_shown f (zd_pending s @ new) (s, w) (s1, w1)"
      unfolding zd_shown_def using h h0(2) True zd_keeps_facts(1) [OF k(2)]
      by (intro exI [of _ s] exI [of _ r] exI [of _ s1]) simp
    ultimately show ?thesis using zd_keeps_facts(2) [OF k(2)] inv I1 by blast
  next
    case False
    let ?bs = "drop (length new - unat r) new"
    have lt: "length new < 4294967296" using n unat_lt_u32 [of "RecvBufSize cf"] by linarith
    then have "unat (of_nat (length new) :: u32) = length new" by (intro unat_of_nat_small) simp
    then have d: "unat (of_nat (length new) - r :: u32) = length new - unat r"
      using k(1) by (subst unat_sub) (simp_all add: word_le_nat_alt)
    have bl: "length ?bs = unat r" using k(1) by simp
    let ?s = "s1\<lparr>zd_recvbuf := ?bs @ drop (length ?bs) (zd_recvbuf s1), zd_tail := r\<rparr>"
    have eq: "?s = s1\<lparr>zd_recvbuf := ?bs @ drop (length ?bs) (zd_recvbuf s1), zd_head := 0, zd_tail := r\<rparr>" using I1 by simp
    have le: "unat r \<le> unat (RecvBufSize cf)" using k(1) n by linarith
    have "load_bytes (length new - unat r) (unat r) new = Some ?bs" using k(1) by (simp add: load_bytes_def)
    moreover have "store_bytes 0 ?bs (zd_recvbuf s1) = Some (?bs @ drop (length ?bs) (zd_recvbuf s1))"
      using I1 bl le by (simp add: store_bytes_def)
    ultimately have "zd_take cf f new (s, w) = Some (?s, w1)" using t h False d by (simp add: zd_take_def Let_def)
    moreover note zd_front [OF I1(1) bl le eq]
    moreover from this have "zd_shown f (zd_pending s @ new) (s, w) (?s, w1)"
      unfolding zd_shown_def using h h0 by (intro exI [of _ s] exI [of _ r] exI [of _ s1]) simp
    ultimately show ?thesis using I1 by fastforce
  qed
qed

lemma zd_take_more:
  assumes cf: "zd_conf cf" and inv: "zd_inv cf s" and f: "zd_data_ok f" and n: "unat (zd_tail s) + length new \<le> unat (RecvBufSize cf)"
    and t: "zd_tail s \<noteq> 0"
  shows "\<exists>s' w'. zd_take cf f new (s, w) = Some (s', w') \<and> zd_inv cf s' \<and> zd_shown f (zd_pending s @ new) (s, w) (s', w')
    \<and> zd_stack s' = zd_stack s"
proof -
  let ?N = "unat (RecvBufSize cf)" and ?t = "unat (zd_tail s)" and ?h = "unat (zd_head s)"
  have I: "length (zd_recvbuf s) = ?N" "?h \<le> ?t" using inv by (simp_all add: zd_inv_def word_le_nat_alt)
  define mem where "mem = take ?t (zd_recvbuf s) @ new @ drop (?t + length new) (zd_recvbuf s)"
  define s1 where "s1 = s\<lparr>zd_recvbuf := mem, zd_tail := zd_tail s + of_nat (length new)\<rparr>"
  have lt: "?t + length new < 4294967296" using n unat_lt_u32 [of "RecvBufSize cf"] by linarith
  then have "unat (of_nat (length new) :: u32) = length new" by (intro unat_of_nat_small) simp
  then have t1: "unat (zd_tail s1) = ?t + length new" unfolding s1_def using lt by (simp add: unat_add_u32_nowrap)
  have i1: "zd_inv cf s1" using I n t1 by (simp add: zd_inv_def word_le_nat_alt s1_def mem_def)
  note p1 = zd_pending_val [OF i1]
  have pd: "zd_pending s1 = zd_pending s @ new"
    unfolding p1(1) zd_pending_val(1) [OF inv] t1 using I n by (simp add: s1_def mem_def drop_take)
  obtain r s2 w2 where h: "f (zd_pending s1) (s1, w) = (r, s2, w2)" by (metis prod.exhaust)
  have k: "unat r \<le> length (zd_pending s1)" "zd_keeps s1 s2" using f h unfolding zd_data_ok_def by blast+
  have I2: "length (zd_recvbuf s2) = ?N" "zd_tail s2 = zd_tail s1" "zd_recvbuf s2 = mem" "zd_stack s2 = zd_stack s"
    using k(2) i1 by (simp_all add: zd_keeps_def zd_inv_def s1_def)
  have st: "store_bytes ?t new (zd_recvbuf s) = Some mem" using n I by (simp add: store_bytes_def mem_def)
  have ld: "load_bytes (unat (zd_head s1)) (unat (zd_tail s1 - zd_head s1)) (zd_recvbuf s1) = Some (zd_pending s1)"
    using i1 p1 by (simp add: load_bytes_def zd_pending_def zd_inv_def word_le_nat_alt)
  have fs: "zd_head s1 = zd_head s" "zd_tail s1 = zd_tail s + of_nat (length new)" "zd_recvbuf s1 = mem" by (simp_all add: s1_def)
  let ?rest = "drop (length (zd_pending s1) - unat r) (zd_pending s1)"
  have sh: "zd_shown f (zd_pending s @ new) (s, w) (s', w2)" if "zock s' = zock s2" "zd_pending s' = ?rest" for s'
    unfolding zd_shown_def pd [symmetric] using h that by (intro exI [of _ s1] exI [of _ r] exI [of _ s2]) (simp add: s1_def)
  have unf: "zd_take cf f new (s, w) = (if r = 0 then Some (s2\<lparr>zd_head := 0, zd_tail := 0\<rparr>, w2)
       else let s = s2\<lparr>zd_head := zd_tail s2 - r\<rparr> in
           if RecvBufSize cf div 2 \<le> zd_head s then do {
             mem \<leftarrow> memcpy_down (unat (zd_head s)) (unat r) (zd_recvbuf s);
             Some (s\<lparr>zd_recvbuf := mem, zd_head := 0, zd_tail := r\<rparr>, w2)
           } else Some (s, w2))"
    unfolding zd_take_def prod.case Let_def using t st ld [unfolded fs] h by (simp add: s1_def [symmetric] Let_def)
  have le: "unat r \<le> unat (zd_tail s2)" using k(1) unfolding p1(2) I2(2) by linarith
  then have hd: "unat (zd_tail s2 - r) = unat (zd_tail s2) - unat r" by (intro unat_sub) (simp add: word_le_nat_alt)
  have tN: "unat (zd_tail s2) \<le> ?N" using p1(3) I2(2) by simp
  have rest: "?rest = take (unat r) (drop (unat (zd_tail s2) - unat r) mem)"
    unfolding p1(2) unfolding p1(1) I2(2) fs(3) using k(1) i1 unfolding p1(2)
    by (intro drop_take_tail) (simp_all add: zd_inv_def word_le_nat_alt)
  consider (none) "r = 0" | (move) "r \<noteq> 0" "RecvBufSize cf div 2 \<le> zd_tail s2 - r" | (stay) "r \<noteq> 0" "\<not> RecvBufSize cf div 2 \<le> zd_tail s2 - r" by blast
  then show ?thesis
  proof cases
    case none
    then show ?thesis using unf I2 sh [of "s2\<lparr>zd_head := 0, zd_tail := 0\<rparr>"] by (simp add: zd_inv_def zd_pending_def)
  next
    case move
    have half: "?N div 2 \<le> unat (zd_tail s2) - unat r" using move(2) hd by (simp add: word_le_nat_alt unat_div)
    have ev: "even ?N" using cf by (simp add: zd_conf_def sk_conf_def)
    have no: "unat r \<le> unat (zd_tail s2) - unat r" "unat r \<le> ?N" using half tN ev le by auto
    have bl: "length ?rest = unat r" using rest tN I2 le by simp
    let ?s = "s2\<lparr>zd_recvbuf := ?rest @ drop (length ?rest) (zd_recvbuf s2), zd_head := 0, zd_tail := r\<rparr>"
    have "memcpy_down (unat (zd_tail s2) - unat r) (unat r) (zd_recvbuf s2) = Some (?rest @ drop (length ?rest) (zd_recvbuf s2))"
      using no tN I2 le bl unfolding rest by (simp add: memcpy_down_def load_bytes_def store_bytes_def)
    then have run: "zd_take cf f new (s, w) = Some (?s, w2)" using unf move hd by simp
    note F = zd_front [OF I2(1) bl no(2) refl]
    have "zd_shown f (zd_pending s @ new) (s, w) (?s, w2)" using F(2) by (intro sh) simp_all
    then show ?thesis using run F(1) I2(4) by fastforce
  next
    case stay
    let ?s = "s2\<lparr>zd_head := zd_tail s2 - r\<rparr>"
    have iv: "zd_inv cf ?s" using I2(1) hd tN by (simp add: zd_inv_def word_le_nat_alt)
    have "zd_pending ?s = ?rest" using zd_pending_val(1) [OF iv] hd le unfolding rest by (simp add: I2)
    then show ?thesis using unf stay sh [of ?s] iv I2(4) by simp
  qed
qed

lemma zd_take_stream:
  assumes "zd_conf cf" "zd_inv cf s" "zd_data_ok f" "unat (zd_tail s) + length new \<le> unat (RecvBufSize cf)"
  shows "\<exists>s' w'. zd_take cf f new (s, w) = Some (s', w') \<and> zd_inv cf s' \<and> zd_shown f (zd_pending s @ new) (s, w) (s', w')
    \<and> zd_stack s' = zd_stack s"
  using zd_take_first [OF assms(2,3)] zd_take_more [OF assms(1-4)] assms(4) by (cases "zd_tail s = 0") auto

subsection \<open>Reading and polling\<close>

text \<open>
  Two observations of the state: \<open>got\<close> are the bytes that the library has handed out, \<open>eaten\<close> those
  the data handler has consumed. The bytes of a segment that does not fit the buffer are lost, but
  the connection is then closed.
\<close>

definition zd_observes :: "'o Zf \<Rightarrow> ('o \<Rightarrow> u8 list) \<Rightarrow> ('o \<Rightarrow> u8 list) \<Rightarrow> (u8 list \<Rightarrow> ('s, 'o) zd \<Rightarrow> u32 \<times> ('s, 'o) zd) \<Rightarrow> bool" where
  "zd_observes Z got eaten f \<longleftrightarrow>
     (\<forall>z w r w'. zft_zc_recv Z z w = (r, w') \<longrightarrow> eaten w' = eaten w \<and> got w' = got w @ (case r of Some bs \<Rightarrow> bs | None \<Rightarrow> []))
     \<and> (\<forall>z w. got (zft_zc_recv_done Z z w) = got w \<and> eaten (zft_zc_recv_done Z z w) = eaten w)
     \<and> (\<forall>z w. got (zft_free Z z w) = got w \<and> eaten (zft_free Z z w) = eaten w)
     \<and> (\<forall>st w. got (zf_reactor_perform Z st w) = got w \<and> eaten (zf_reactor_perform Z st w) = eaten w)
     \<and> (\<forall>data s w r s' w'. f data (s, w) = (r, s', w') \<longrightarrow>
          got w' = got w \<and> eaten w' = eaten w @ take (length data - unat r) data)"

definition zd_in_step :: "('o \<Rightarrow> u8 list) \<Rightarrow> ('o \<Rightarrow> u8 list) \<Rightarrow> ('s, 'o) zd \<Rightarrow> bool" where
  "zd_in_step got eaten sw \<longleftrightarrow> (case sw of (s, w) \<Rightarrow>
     \<exists>lost. got w = eaten w @ zd_pending s @ lost \<and> (zock s \<noteq> None \<longrightarrow> lost = []))"

definition zd_quiet :: "('o \<Rightarrow> 'g) \<Rightarrow> bool \<Rightarrow> (('s, 'o) zd \<Rightarrow> ('s, 'o) zd) \<Rightarrow> bool" where
  "zd_quiet gh stays f \<longleftrightarrow> (\<forall>s w s' w'. f (s, w) = (s', w') \<longrightarrow> zd_keeps s s' \<and> gh w' = gh w \<and> (stays \<longrightarrow> zock s' = zock s))"

text \<open>Segments are small, so that the sum of two sizes does not wrap around.\<close>

definition zd_recv_ok :: "'o Zf \<Rightarrow> bool" where
  "zd_recv_ok Z \<longleftrightarrow> (\<forall>z w bs w'. zft_zc_recv Z z w = (Some bs, w') \<longrightarrow> length bs < 2 ^ 31)"

lemma zd_observesD:
  assumes "zd_observes Z got eaten f"
  shows "zft_zc_recv Z z w = (r, w') \<Longrightarrow> eaten w' = eaten w" "zft_zc_recv Z z w = (None, w') \<Longrightarrow> got w' = got w"
    "zft_zc_recv Z z w = (Some bs, w') \<Longrightarrow> got w' = got w @ bs"
    "got (zft_zc_recv_done Z z w) = got w" "eaten (zft_zc_recv_done Z z w) = eaten w"
    "got (zft_free Z z w) = got w" "eaten (zft_free Z z w) = eaten w"
    "got (zf_reactor_perform Z st w) = got w" "eaten (zf_reactor_perform Z st w) = eaten w"
    "f data (s, w) = (rr, s', w') \<Longrightarrow> got w' = got w" "f data (s, w) = (rr, s', w') \<Longrightarrow> eaten w' = eaten w @ take (length data - unat rr) data"
  using assms unfolding zd_observes_def by fastforce+

lemma zd_in_step_keeps:
  assumes "zd_in_step got eaten (s, w)" "zd_keeps s s'" "got w' = got w" "eaten w' = eaten w"
  shows "zd_in_step got eaten (s', w')"
  using assms zd_keeps_facts(1) [OF assms(2)] by (auto simp: zd_in_step_def zd_keeps_def)

lemma zd_close_val:
  "zock s = Some z \<Longrightarrow> \<exists>s'. zd_close Z m (s, w) = (s', zft_free Z z w) \<and> zd_keeps s s' \<and> zock s' = None"
  by (simp add: zd_close_def zd_saveError_def zd_keeps_def)

lemma zd_read_stream:
  assumes cf: "zd_conf cf" and inv: "zd_inv cf s" and f: "zd_data_ok f" and Z: "zd_recv_ok Z" and z: "zock s = Some z" "zd_stack s = Some st"
  shows "\<exists>g s' w'. zd_read cf Z f (s, w) = Some (g, s', w') \<and> zd_inv cf s' \<and> zd_stack s' = Some st
    \<and> (\<forall>got eaten. zd_observes Z got eaten f \<longrightarrow> zd_in_step got eaten (s, w) \<longrightarrow> zd_in_step got eaten (s', w'))"
proof -
  let ?N = "unat (RecvBufSize cf)" and ?w = "zf_reactor_perform Z st w"
  let ?keep = "\<lambda>sw'. \<forall>got eaten. zd_observes Z got eaten f \<longrightarrow> zd_in_step got eaten (s, w) \<longrightarrow> zd_in_step got eaten sw'"
  obtain r w1 where rd: "zft_zc_recv Z z ?w = (r, w1)" by fastforce
  have G: "eaten w1 = eaten w" "got w1 = eaten w @ zd_pending s @ (case r of None \<Rightarrow> [] | Some new \<Rightarrow> new)"
    if "zd_observes Z got eaten f" "zd_in_step got eaten (s, w)" for got eaten
    using zd_observesD(1-3,8,9) [OF that(1)] rd that(2) z by (auto simp: zd_in_step_def split: option.splits)
  obtain s1 where c: "\<And>m w. zd_close Z m (s, w) = (s1 m, zft_free Z z w)" "\<And>m. zd_keeps s (s1 m)" "\<And>m. zock (s1 m) = None"
    using that [of "\<lambda>m. (zd_saveError Z m 0 s)\<lparr>zock := None\<rparr>"] z by (simp add: zd_close_def zd_saveError_def zd_keeps_def)
  have "zd_in_step got eaten (s1 m, zft_free Z z (zft_zc_recv_done Z z w1))"
    if "zd_observes Z got eaten f" "zd_in_step got eaten (s, w)" for got eaten m
    using G [OF that] zd_observesD(4-7) [OF that(1)] c(3) zd_keeps_facts(1) [OF c(2)] by (simp add: zd_in_step_def)
  then have cl: "zd_inv cf (s1 m)" "zd_stack (s1 m) = Some st" "?keep (s1 m, zft_free Z z (zft_zc_recv_done Z z w1))" for m
    using inv z c(2) [of m] zd_keeps_facts(2) [OF c(2)] by (simp_all add: zd_keeps_def)
  show ?thesis
  proof (cases r)
    case None
    have "zd_in_step got eaten (s, w1)" if "zd_observes Z got eaten f" "zd_in_step got eaten (s, w)" for got eaten
      using G [OF that] None by (simp add: zd_in_step_def)
    then have "?keep (s, w1)" by blast
    then show ?thesis using None rd z inv by (intro exI [of _ False]) (simp add: zd_read_def Let_def)
  next
    case (Some new)
    have small: "length new < 2 ^ 31" using Z rd Some unfolding zd_recv_ok_def by blast
    then have un: "unat (of_nat (length new) :: u32) = length new" by (intro unat_of_nat_small) simp
    have tl: "unat (zd_tail s) \<le> ?N" "?N < 2 ^ 31" using zd_pending_val(3) [OF inv] cf by (simp_all add: zd_conf_def)
    then have sum: "unat (of_nat (length new) + zd_tail s :: u32) = length new + unat (zd_tail s)"
      using small un by (subst unat_add_u32_nowrap) simp_all
    consider (shut) "of_nat (length new) = (0 :: u32) \<or> RecvBufSize cf < of_nat (length new) + zd_tail s"
      | (fits) "of_nat (length new) \<noteq> (0 :: u32)" "\<not> RecvBufSize cf < of_nat (length new) + zd_tail s" by blast
    then show ?thesis
    proof cases
      case shut
      then have "\<exists>m. zd_read cf Z f (s, w) = Some (False, s1 m, zft_free Z z (zft_zc_recv_done Z z w1))"
        using Some rd z c(1) by (auto simp: zd_read_def Let_def)
      then show ?thesis using cl by blast
    next
      case fits
      then have n: "unat (zd_tail s) + length new \<le> ?N" using sum by (simp add: word_less_nat_alt)
      obtain s2 w2 where t: "zd_take cf f new (s, w1) = Some (s2, w2)" "zd_inv cf s2"
        "zd_shown f (zd_pending s @ new) (s, w1) (s2, w2)" "zd_stack s2 = zd_stack s"
        using zd_take_stream [OF cf inv f n] by blast
      obtain s0 rr s1 where sh: "f (zd_pending s @ new) (s0, w1) = (rr, s1, w2)"
        "zd_pending s2 = drop (length (zd_pending s @ new) - unat rr) (zd_pending s @ new)"
        using t(3) by (auto simp: zd_shown_def)
      have "zd_in_step got eaten (s2, case zock s2 of None \<Rightarrow> w2 | Some z \<Rightarrow> zft_zc_recv_done Z z w2)"
        if "zd_observes Z got eaten f" "zd_in_step got eaten (s, w)" for got eaten
      proof -
        have "got w2 = eaten w2 @ zd_pending s2"
          using zd_observesD(10,11) [OF that(1) sh(1)] G [OF that] Some unfolding sh(2) by (simp only: append_assoc append_take_drop_id option.case)
        then show ?thesis using zd_observesD(4,5) [OF that(1)] by (auto simp: zd_in_step_def split: option.splits)
      qed
      then have "?keep (s2, case zock s2 of None \<Rightarrow> w2 | Some z \<Rightarrow> zft_zc_recv_done Z z w2)" by blast
      then show ?thesis using fits Some rd z t by (intro exI [of _ True]) (simp add: zd_read_def Let_def)
    qed
  qed
qed

text \<open>What the code relies on in the callbacks of \<^verbatim>\<open>pollConn\<close>, and what may be observed of them.\<close>

definition zd_calls_ok :: "('s, 'o) ZdHandler \<Rightarrow> bool" where
  "zd_calls_ok h \<longleftrightarrow> zd_data_ok (zd_onTcpData h) \<and> zd_quiet (\<lambda>w. ()) True (zd_onSendTimeout h) \<and> zd_quiet (\<lambda>w. ()) False (zd_onRecvTimeout h)"

definition zd_watched :: "'o Zf \<Rightarrow> ('o \<Rightarrow> u8 list) \<Rightarrow> ('o \<Rightarrow> u8 list) \<Rightarrow> ('s, 'o) ZdHandler \<Rightarrow> bool" where
  "zd_watched Z got eaten h \<longleftrightarrow> zd_data_ok (zd_onTcpData h) \<and> zd_observes Z got eaten (zd_onTcpData h)
     \<and> zd_quiet (\<lambda>w. (got w, eaten w)) True (zd_onSendTimeout h) \<and> zd_quiet (\<lambda>w. (got w, eaten w)) False (zd_onRecvTimeout h)"

lemma zd_quietD: "zd_quiet gh b f \<Longrightarrow> f (s, w) = (s', w') \<Longrightarrow> zd_keeps s s' \<and> gh w' = gh w \<and> (b \<longrightarrow> zock s' = zock s)"
  unfolding zd_quiet_def by blast

lemma zd_watchedD:
  assumes "zd_watched Z got eaten h"
  shows "zd_observes Z got eaten (zd_onTcpData h)" "zd_calls_ok h"
    "zd_onSendTimeout h (s, w) = (s', w') \<Longrightarrow> got w' = got w \<and> eaten w' = eaten w"
    "zd_onRecvTimeout h (s, w) = (s', w') \<Longrightarrow> got w' = got w \<and> eaten w' = eaten w"
  using assms unfolding zd_watched_def zd_calls_ok_def zd_quiet_def by (blast | fastforce)+

lemma zd_pollConn_stream:
  fixes s :: "'s TcpdirectTcpConnection_scheme"
  assumes cf: "zd_conf cf" and inv: "zd_inv cf s" and Z: "zd_recv_ok Z" and h: "zd_calls_ok h" and z: "zock s = Some z" "zd_stack s = Some st"
  shows "\<exists>s' w'. zd_pollConn cf Z h now (s, w) = Some (s', w') \<and> zd_inv cf s' \<and> zd_stack s' = Some st
    \<and> (\<forall>got eaten. zd_watched Z got eaten h \<longrightarrow> zd_in_step got eaten (s, w) \<longrightarrow> zd_in_step got eaten (s', w'))"
proof -
  have H: "zd_data_ok (zd_onTcpData h)" "zd_quiet (\<lambda>w. ()) True (zd_onSendTimeout h)" "zd_quiet (\<lambda>w. ()) False (zd_onRecvTimeout h)"
    using h by (simp_all add: zd_calls_ok_def)
  define sw1 where "sw1 = (if SSendTimeoutSec cf \<noteq> 0 \<and> zd_send_ts (fst (s, w)) + uint (SSendTimeoutSec cf) \<le> now
               then case zd_onSendTimeout h (s, w) of (s, w) \<Rightarrow> (s\<lparr>zd_send_ts := now\<rparr>, w) else (s, w))"
  obtain s0 w0 where q0: "zd_onSendTimeout h (s, w) = (s0, w0)" by fastforce
  obtain s1 w1 where s1: "sw1 = (s1, w1)" "zd_keeps s s1" "zock s1 = Some z" "(s1, w1) = (s, w) \<or> w1 = w0"
  proof (cases "SSendTimeoutSec cf \<noteq> 0 \<and> zd_send_ts s + uint (SSendTimeoutSec cf) \<le> now")
    case True
    then show thesis using zd_quietD [OF H(2) q0] z q0 by (intro that [of "s0\<lparr>zd_send_ts := now\<rparr>" w0]) (simp_all add: sw1_def zd_keeps_def)
  next
    case False
    then show thesis using z by (intro that [of s w]) (auto simp: sw1_def zd_keeps_def)
  qed
  have st1: "zd_stack s1 = Some st" using s1(2) z by (simp add: zd_keeps_def)
  obtain g s2 w2 where r: "zd_read cf Z (zd_onTcpData h) (s1, w1) = Some (g, s2, w2)" "zd_inv cf s2" "zd_stack s2 = Some st"
    "\<And>got eaten. zd_observes Z got eaten (zd_onTcpData h) \<Longrightarrow> zd_in_step got eaten (s1, w1) \<Longrightarrow> zd_in_step got eaten (s2, w2)"
    using zd_read_stream [OF cf _ H(1) Z s1(3) st1, of w1] zd_keeps_facts(2) [OF s1(2)] inv by blast
  obtain s3 w3 where q: "zd_onRecvTimeout h (s2, w2) = (s3, w3)" by fastforce
  let ?x = "\<lambda>s. s\<lparr>zd_expire_ts := now + uint (SRecvTimeoutSec cf)\<rparr>"
  have kx: "zd_keeps s2 (?x s2)" "zd_keeps s2 (?x s3)" "zd_keeps s2 s2" using zd_quietD [OF H(3) q] by (simp_all add: zd_keeps_def)
  have run: "zd_pollConn cf Z h now (s, w) = (if SRecvTimeoutSec cf \<noteq> 0 then
       let (got_data, sw) = (if \<not> g \<and> zd_expire_ts s2 \<le> now then (True, zd_onRecvTimeout h (s2, w2)) else (g, s2, w2))
       in Some (if got_data then (?x (fst sw), snd sw) else sw)
     else Some (s2, w2))"
    unfolding zd_pollConn_def Let_def sw1_def [symmetric] s1(1) r(1) by simp
  have "\<exists>s' w'. zd_pollConn cf Z h now (s, w) = Some (s', w') \<and> zd_keeps s2 s' \<and> (w' = w2 \<or> w' = w3)" using run q kx by (auto simp: Let_def)
  then obtain s' w' where e: "zd_pollConn cf Z h now (s, w) = Some (s', w')" "zd_keeps s2 s'" "w' = w2 \<or> w' = w3" by blast
  have "zd_in_step got eaten (s', w')" if W: "zd_watched Z got eaten h" and i: "zd_in_step got eaten (s, w)" for got eaten
  proof -
    have "zd_in_step got eaten (s1, w1)" using zd_in_step_keeps [OF i s1(2), of w1] zd_watchedD(3) [OF W q0] s1(4) by auto
    then have "zd_in_step got eaten (s2, w2)" using r(4) zd_watchedD(1) [OF W] by blast
    then show ?thesis using zd_in_step_keeps [OF _ e(2), of got eaten w2 w'] zd_watchedD(4) [OF W q] e(3) by auto
  qed
  then show ?thesis using e zd_keeps_facts(2) [OF e(2)] r(2,3) by (auto simp: zd_keeps_def)
qed

text \<open>A connection that is polled until it is closed.\<close>

fun zd_polls :: "SConf \<Rightarrow> 'o Zf \<Rightarrow> ('s, 'o) ZdHandler \<Rightarrow> int list \<Rightarrow> ('s, 'o) zd \<Rightarrow> ('s, 'o) zd option" where
  "zd_polls cf Z h [] sw = Some sw"
| "zd_polls cf Z h (now # ts) sw =
     (if zock (fst sw) = None then Some sw else Option.bind (zd_pollConn cf Z h now sw) (zd_polls cf Z h ts))"

lemma zd_polls_stream:
  assumes "zd_conf cf" "zd_inv cf s" "zd_recv_ok Z" "zd_watched Z got eaten h" "zd_in_step got eaten (s, w)" "zd_stack s = Some st"
  shows "\<exists>s' w'. zd_polls cf Z h ts (s, w) = Some (s', w') \<and> zd_inv cf s' \<and> zd_in_step got eaten (s', w')"
  using assms(2,5,6)
proof (induction ts arbitrary: s w)
  case (Cons now ts)
  show ?case
  proof (cases "zock s")
    case (Some z)
    then obtain s1 w1 where "zd_pollConn cf Z h now (s, w) = Some (s1, w1)" "zd_inv cf s1" "zd_in_step got eaten (s1, w1)" "zd_stack s1 = Some st"
      using zd_pollConn_stream [OF assms(1) Cons.prems(1) assms(3) zd_watchedD(2) [OF assms(4)] Some Cons.prems(3), of now w] assms(4) Cons.prems(2) by blast
    then show ?thesis using Cons.IH Some by simp
  qed (use Cons.prems in simp)
qed simp

subsection \<open>Writing\<close>

definition zd_writes_ok :: "'o Zf \<Rightarrow> ('o \<Rightarrow> u8 list) \<Rightarrow> ('o \<Rightarrow> nat) \<Rightarrow> bool" where
  "zd_writes_ok Z taken patience \<longleftrightarrow>
     (\<forall>data m z w n w'. zft_send_single Z data m z w = (n, w') \<longrightarrow> n \<le> int (length data) \<and> taken w' = taken w @ take (nat n) data
        \<and> (n = 0 \<or> n < 0 \<and> zft_again Z n \<longrightarrow> data \<noteq> [] \<longrightarrow> patience w' < patience w))"

text \<open>A connection that is open, and one attempt to write on it.\<close>

definition zd_write_ok :: "'o Zf \<Rightarrow> ('o \<Rightarrow> u8 list) \<Rightarrow> ('o \<Rightarrow> nat) \<Rightarrow> ('s, 'o) zd \<Rightarrow> bool" where
  "zd_write_ok Z taken patience sw \<longleftrightarrow> zd_writes_ok Z taken patience \<and> zock (fst sw) \<noteq> None"

definition zd_attempt :: "SConf \<Rightarrow> 'o Zf \<Rightarrow> ('o \<Rightarrow> int) \<Rightarrow> bool \<Rightarrow> u8 list \<Rightarrow> ('s, 'o) zd \<Rightarrow> nat option \<times> ('s, 'o) zd" where
  "zd_attempt cf Z clock m data sw = (case zd_writeSome cf Z (clock (snd sw)) data m sw of
     Some (sent, sw) \<Rightarrow> (if sent < 0 then None else Some (nat sent), sw)
   | None \<Rightarrow> (None, sw))"

lemma zd_attempt_val:
  assumes "zd_write_ok Z taken patience (s, w)" "zd_attempt cf Z clock m data (s, w) = (r, s', w')"
  shows "zd_keeps s s' \<and> zock s' = zock s
    \<and> (case r of None \<Rightarrow> taken w' = taken w
       | Some n \<Rightarrow> n \<le> length data \<and> taken w' = taken w @ take n data \<and> (n = 0 \<longrightarrow> data \<noteq> [] \<longrightarrow> patience w' < patience w))"
proof -
  obtain z where z: "zock s = Some z" using assms(1) by (auto simp: zd_write_ok_def)
  obtain n w1 where n: "zft_send_single Z data m z w = (n, w1)" by fastforce
  have "n \<le> int (length data) \<and> taken w1 = taken w @ take (nat n) data
        \<and> (n = 0 \<or> n < 0 \<and> zft_again Z n \<longrightarrow> data \<noteq> [] \<longrightarrow> patience w1 < patience w)"
    using assms(1) n unfolding zd_write_ok_def zd_writes_ok_def by blast
  then show ?thesis using assms(2) z n
    by (auto simp: zd_attempt_def zd_writeSome_def zd_saveError_def zd_keeps_def Let_def nat_le_iff split: if_splits)
qed

interpretation zdw: write_loop "zd_write_ok Z taken patience" "zd_attempt cf Z clock m" "\<lambda>data sw. zd_write cf Z clock data m sw"
    "\<lambda>sw. taken (snd sw)" "\<lambda>sw. patience (snd sw)" "\<lambda>sw sw'. zock (fst sw') = zock (fst sw)" "\<lambda>sw. zock (fst sw) \<noteq> None"
    for Z taken patience cf clock m
proof (unfold_locales, goal_cases)
  case (1 x data)
  then have "zd_writeSome cf Z (clock (snd x)) data m x \<noteq> None" by (cases x) (auto simp: zd_write_ok_def zd_writeSome_def Let_def split: prod.splits)
  then show ?case by (subst zd_write.simps) (auto simp: zd_attempt_def)
next
  case (2 x data x')
  then show ?case using zd_attempt_val [of Z taken patience "fst x" "snd x" cf clock m data None "fst x'" "snd x'"] by (simp add: zd_write_ok_def)
next
  case (3 x data n x')
  then show ?case using zd_attempt_val [of Z taken patience "fst x" "snd x" cf clock m data "Some n" "fst x'" "snd x'"] by (simp add: zd_write_ok_def)
qed simp

subsection \<open>Connecting\<close>

text \<open>The connections that the library keeps, and what it promises about them.\<close>

definition zf_ledger :: "'o Zf \<Rightarrow> ('o \<Rightarrow> int set) \<Rightarrow> bool" where
  "zf_ledger Z zocks \<longleftrightarrow>
     (\<forall>a hd w rc z w'. zft_connect Z a hd w = (rc, z, w') \<longrightarrow>
        (if rc < 0 then zocks w' = zocks w else z \<notin> zocks w \<and> zocks w' = insert z (zocks w)))
     \<and> (\<forall>st a w. zocks (snd (snd (zft_alloc Z st a w))) = zocks w) \<and> (\<forall>a hd w. zocks (snd (zft_addr_bind Z a hd w)) = zocks w)
     \<and> (\<forall>hd w. zocks (zft_handle_free Z hd w) = zocks w) \<and> (\<forall>st w. zocks (zf_reactor_perform Z st w) = zocks w)
     \<and> (\<forall>z w. zocks (zft_free Z z w) = zocks w - {z})"

lemma zf_ledgerD:
  assumes "zf_ledger Z zocks"
  shows "zft_connect Z a hn w = (rc, z, w') \<Longrightarrow> if rc < 0 then zocks w' = zocks w else z \<notin> zocks w \<and> zocks w' = insert z (zocks w)"
    "zft_alloc Z st at w = (rc, z, w') \<Longrightarrow> zocks w' = zocks w" "zft_addr_bind Z a hn w = (rc, w') \<Longrightarrow> zocks w' = zocks w"
    "zocks (zft_handle_free Z hn w) = zocks w" "zocks (zf_reactor_perform Z st w) = zocks w"
proof -
  note L = assms [unfolded zf_ledger_def]
  show "zft_connect Z a hn w = (rc, z, w') \<Longrightarrow> if rc < 0 then zocks w' = zocks w else z \<notin> zocks w \<and> zocks w' = insert z (zocks w)"
    by (rule L [THEN conjunct1, rule_format])
  have k: "zocks (snd (snd (zft_alloc Z st at w))) = zocks w" "zocks (snd (zft_addr_bind Z a hn w)) = zocks w"
    using L [THEN conjunct2] by (simp_all only: simp_thms)
  show "zft_alloc Z st at w = (rc, z, w') \<Longrightarrow> zocks w' = zocks w" "zft_addr_bind Z a hn w = (rc, w') \<Longrightarrow> zocks w' = zocks w"
    using k by simp_all
  show "zocks (zft_handle_free Z hn w) = zocks w" "zocks (zf_reactor_perform Z st w) = zocks w"
    using L [THEN conjunct2] by (simp_all only: simp_thms)
qed

lemma zd_awaitSyn_zocks:
  assumes "zf_ledger Z zocks" "zd_awaitSyn Z st z w = Some w'"
  shows "zocks w' = zocks w"
proof -
  have "zf_ledger Z zocks \<longrightarrow> zocks w' = zocks w"
  proof (rule zd_awaitSyn.raw_induct [of "\<lambda>Z st z w w'. zf_ledger Z zocks \<longrightarrow> zocks w' = zocks w", OF _ assms(2)], goal_cases)
    case (1 f Z st z w w')
    then show ?case using zf_ledgerD(5) [of Z zocks st w] by (auto split: if_splits)
  qed
  then show ?thesis using assms(1) by blast
qed

lemma zd_connect_zocks:
  assumes L: "zf_ledger Z zocks" and r: "zd_connect cf Z clock attr addr port (s, w) = Some (ok, s', w')"
  shows "zock s' = zock s \<and> zocks w' = zocks w \<and> \<not> ok \<or> (\<exists>z. zock s' = Some z \<and> z \<notin> zocks w \<and> zocks w' = insert z (zocks w))"
proof -
  note P = zf_ledgerD [OF L]
  obtain st a where st: "zd_stack s = Some st" "attr = Some a" using r by (cases "zd_stack s"; cases attr) (simp_all add: zd_connect_def)
  obtain rc1 hn w1 where 1: "zft_alloc Z st a w = (rc1, hn, w1)" by (metis prod.exhaust)
  obtain rc2 w2 where 2: "(if port \<noteq> 0 then zft_addr_bind Z (Inet 0 port) hn w1 else (0, w1)) = (rc2, w2)" by fastforce
  obtain rc3 z w3 where 3: "zft_connect Z addr hn w2 = (rc3, z, w3)" by (metis prod.exhaust)
  have z1: "zocks w1 = zocks w" by (rule P(2) [OF 1])
  have z2: "zocks w2 = zocks w" using 2 z1 P(3) [of "Inet 0 port" hn w1 rc2 w2] by (auto split: if_splits)
  have z3: "if rc3 < 0 then zocks w3 = zocks w else z \<notin> zocks w \<and> zocks w3 = insert z (zocks w)" using P(1) [OF 3] unfolding z2 .
  consider (a) "rc1 < 0" | (b) "\<not> rc1 < 0" "rc2 < 0" | (c) "\<not> rc1 < 0" "\<not> rc2 < 0" "rc3 < 0" | (d) "\<not> rc1 < 0" "\<not> rc2 < 0" "\<not> rc3 < 0" by blast
  then show ?thesis
  proof cases
    case d
    then obtain w4 where 4: "zd_awaitSyn Z st z w3 = Some w4"
      using r st 1 2 3 by (cases "zd_awaitSyn Z st z w3") (simp_all add: zd_connect_def)
    have "zock s' = Some z" "w' = w4" using r st 1 2 3 4 d by (auto simp: zd_connect_def Let_def zd_saveError_def zd_open_def split: if_splits)
    then show ?thesis using z3 d zd_awaitSyn_zocks [OF L 4] by simp
  qed (use r st 1 2 3 z1 z2 z3 P(4) in \<open>auto simp: zd_connect_def zd_saveError_def\<close>)
qed

subsection \<open>Properties\<close>

text \<open>A library that hands out prepared segments and refuses every connection.\<close>

record ZfLog =
  z_in :: "u8 list list"
  z_got :: "u8 list"
  z_eaten :: "u8 list"
  z_taken :: "u8 list"
  z_zocks :: "int list"

definition log_zf :: "ZfLog Zf" where
  "log_zf = \<lparr>zf_strerror = (\<lambda>_. ''error''), zf_init = (\<lambda>w. (0, w)), zf_attr_alloc = (\<lambda>w. (0, 1, w)), zf_attr_set = (\<lambda>_ _ w. w),
     zf_attr_free = (\<lambda>_ w. w), zf_stack_alloc = (\<lambda>_ w. (0, 1, w)), zf_stack_free = (\<lambda>_ w. w), zf_reactor_perform = (\<lambda>_ w. w),
     zft_alloc = (\<lambda>_ _ w. (0, 1, w)), zft_addr_bind = (\<lambda>_ _ w. (0, w)), zft_handle_free = (\<lambda>_ w. w),
     zft_connect = (\<lambda>_ _ w. (0, 1 + sum_list (map abs (z_zocks w)), w\<lparr>z_zocks := (1 + sum_list (map abs (z_zocks w))) # z_zocks w\<rparr>)),
     zft_state_of = (\<lambda>_ _. TCP_OTHER 7), zft_free = (\<lambda>z w. w\<lparr>z_zocks := removeAll z (z_zocks w)\<rparr>),
     zft_send_single = (\<lambda>data _ _ w. (int (length data), w\<lparr>z_taken := z_taken w @ data\<rparr>)), zft_again = (\<lambda>_. False),
     zft_zc_recv = (\<lambda>_ w. case z_in w of [] \<Rightarrow> (None, w)
        | bs # xs \<Rightarrow> (Some (take 1000 bs), w\<lparr>z_in := xs, z_got := z_got w @ take 1000 bs\<rparr>)),
     zft_zc_recv_done = (\<lambda>_ w. w), zftl_listen = (\<lambda>_ _ _ w. (0, 1, w)), zftl_accept = (\<lambda>_ w. (- 11, 0, w)), zftl_free = (\<lambda>_ w. w)\<rparr>"

definition zd_eater :: "('s, ZfLog) ZdHandler" where
  "zd_eater = \<lparr>zd_onTcpConnected = id, zd_onTcpDisconnect = id, zd_onTcpConnectFailed = id,
     zd_onTcpData = (\<lambda>data (s, w). (of_nat (length data mod 2), s, w\<lparr>z_eaten := z_eaten w @ take (length data - length data mod 2) data\<rparr>)),
     zd_onSendTimeout = id, zd_onRecvTimeout = id\<rparr>"

definition zd_open_conn :: TcpdirectTcpConnection where
  "zd_open_conn = \<lparr>zock = Some 3, zd_stack = Some 1, zd_send_ts = 0, zd_expire_ts = 0, zd_head = 0, zd_tail = 0, zd_recvbuf = replicate 8 0, zd_error = []\<rparr>"

definition zf_world :: ZfLog where
  "zf_world = \<lparr>z_in = [[1, 2, 3], [4, 5, 6, 7], [8, 9, 10, 11, 12, 13, 14, 15]], z_got = [], z_eaten = [], z_taken = [], z_zocks = [3]\<rparr>"

lemma log_zf_ok: "zd_recv_ok log_zf" "zd_watched log_zf z_got z_eaten zd_eater" "zd_writes_ok log_zf z_taken (\<lambda>_. 0)"
  by (auto simp: zd_recv_ok_def zd_watched_def zd_observes_def zd_data_ok_def zd_quiet_def zd_keeps_def zd_writes_ok_def
      zd_eater_def log_zf_def mod_two_word split: list.splits)

lemma log_zf_ledger: "zf_ledger log_zf (\<lambda>w. set (z_zocks w))"
proof -
  have n: "0 \<le> sum_list (map abs xs)" for xs :: "int list" by (induction xs) auto
  have m: "\<bar>x\<bar> \<le> sum_list (map abs xs)" if "x \<in> set xs" for x :: int and xs
    using that n by (induction xs) (auto intro: add_increasing2)
  have "1 + sum_list (map abs xs) \<notin> set xs" for xs :: "int list"
    using m [of "1 + sum_list (map abs xs)" xs] n [of xs] by auto
  then show ?thesis by (auto simp: zf_ledger_def log_zf_def)
qed

lemma zd_open_conn_ok: "zd_conf eight_cf" "zd_inv eight_cf zd_open_conn" "zd_in_step z_got z_eaten (zd_open_conn, zf_world)"
  by (simp_all add: zd_conf_def sk_conf_def eight_cf_def zd_inv_def zd_open_conn_def zd_in_step_def zf_world_def zd_pending_def)



text \<open>
  C28: \<^verbatim>\<open>TcpdirectTcpConnection::write\<close>. On an open connection, and with a library that takes nothing
  only finitely often in a row, \<^verbatim>\<open>write\<close> returns; when it returns true the library has taken exactly
  the data, otherwise a prefix of it, and the connection is still open.
\<close>

theorem tcpdirect_write_complete:
  assumes "zd_writes_ok Z taken patience" "zock s = Some z"
  shows "\<exists>ok s' w'. zd_write cf Z clock data m (s, w) = Some (ok, s', w') \<and> zock s' \<noteq> None
    \<and> (if ok then taken w' = taken w @ data else \<exists>k \<le> length data. taken w' = taken w @ take k data)"
proof -
  have "zd_write_ok Z taken patience (s, w)" using assms by (simp add: zd_write_ok_def)
  from zdw.loop_complete [OF this, where data = data and cf = cf and clock = clock and m = m] assms(2) show ?thesis by (fastforce split: if_splits)
qed

theorem tcpdirect_write_complete_witness:
  "\<exists>ok s' w'. zd_write eight_cf log_zf (\<lambda>_. 7) [1, 2, 3] False (zd_open_conn, zf_world) = Some (ok, s', w') \<and> zock s' \<noteq> None
    \<and> (if ok then z_taken w' = [1, 2, 3] else \<exists>k \<le> 3. z_taken w' = take k [1, 2, 3])"
proof -
  have z: "zock zd_open_conn = Some 3" "z_taken zf_world = []" by (simp_all add: zd_open_conn_def zf_world_def)
  obtain ok s' w' where "zd_write eight_cf log_zf (\<lambda>_. 7) [1, 2, 3] False (zd_open_conn, zf_world) = Some (ok, s', w')" "zock s' \<noteq> None"
    "if ok then z_taken w' = [1, 2, 3] else \<exists>k \<le> length [1, 2, 3 :: u8]. z_taken w' = take k [1, 2, 3]"
    using tcpdirect_write_complete [OF log_zf_ok(3) z(1), of eight_cf "\<lambda>_. 7" "[1, 2, 3]" False zf_world] unfolding z(2) append_Nil by blast
  moreover have "length [1, 2, 3 :: u8] = 3" by simp
  ultimately show ?thesis by (intro exI [of _ ok] exI [of _ s'] exI [of _ w'] conjI) (simp_all only: not_False_eq_True)
qed

text \<open>
  C29: \<^verbatim>\<open>TcpdirectTcpConnection::connect\<close> and what the library keeps for a connection. The connections
  that the library keeps and that the program no longer knows are those from before and, whenever a
  new one was made, also the one that was held before: \<^verbatim>\<open>connect\<close> does not free it. A connection that
  was lost without \<^verbatim>\<open>close\<close>, and one whose SYN was refused, are held when the client tries again.
\<close>

theorem tcpdirect_connect_leaks:
  assumes "zf_ledger Z zocks" "zd_connect cf Z clock attr addr port (s, w) = Some (ok, s', w')" "set_option (zock s) \<subseteq> zocks w"
  shows "zocks w' - set_option (zock s') = (zocks w - set_option (zock s)) \<union> (if zock s' = zock s then {} else set_option (zock s))"
  using zd_connect_zocks [OF assms(1,2)] assms(3) by (cases "zock s") auto

theorem tcpdirect_connect_leaks_witness:
  "\<exists>s' w'. zd_connect eight_cf log_zf (\<lambda>_. 0) (Some 1) (Inet 1 2) 0 (zd_open_conn, zf_world) = Some (False, s', w')
    \<and> set (z_zocks w') - set_option (zock s') = {3}"
proof -
  have aw: "zd_awaitSyn log_zf 1 4 w = Some w" for w by (subst zd_awaitSyn.simps) (simp add: log_zf_def)
  obtain s' w' where r: "zd_connect eight_cf log_zf (\<lambda>_. 0) (Some 1) (Inet 1 2) 0 (zd_open_conn, zf_world) = Some (False, s', w')" "zock s' = Some 4"
    using aw by (simp add: zd_connect_def zd_open_conn_def zf_world_def zd_saveError_def) (simp add: log_zf_def zd_saveError_def)
  then show ?thesis
    using tcpdirect_connect_leaks [OF log_zf_ledger r(1)] by (auto simp: zd_open_conn_def zf_world_def)
qed

text \<open>
  A callback that closes its connection: \<^verbatim>\<open>pollConn\<close> reads on without a check, with a null pointer.
\<close>

theorem tcpdirect_close_in_callback:
  assumes "SSendTimeoutSec cf \<noteq> 0" "zd_send_ts s + uint (SSendTimeoutSec cf) \<le> now" "zock (fst (zd_onSendTimeout h (s, w))) = None"
  shows "zd_pollConn cf Z h now (s, w) = None"
  using assms by (cases "zd_onSendTimeout h (s, w)"; cases "zd_stack (fst (zd_onSendTimeout h (s, w)))") (simp_all add: zd_pollConn_def zd_read_def Let_def)

end
