(* ===== verification/TcpdirectServer.thy ===== *)
theory TcpdirectServer
  imports TcpdirectStream
begin

text \<open>
  \<^verbatim>\<open>TcpdirectTcpServer::poll\<close> keeps its array of connections well-formed. The loop is the one of the
  socket server; unlike there, a connection may only be polled while it is open.
\<close>

abbreviation zs_conn_at :: "'s TcpdirectTcpServer \<Rightarrow> nat \<Rightarrow> 's TcpdirectTcpConnection_scheme" where
  "zs_conn_at s i \<equiv> zs_conns_data s ! (zs_conns_ptr s ! i)"

definition zd_ready :: "int \<Rightarrow> 's TcpdirectTcpConnection_scheme \<Rightarrow> bool" where
  "zd_ready st c \<longleftrightarrow> zock c \<noteq> None \<and> zd_stack c = Some st"

text \<open>
  The pointers are a permutation of the slots, the buffers of all are within their bounds, and those below the
  count are open on the stack of the server, so that \<^verbatim>\<open>read\<close> meets no null pointer.
\<close>

definition zs_inv :: "SConf \<Rightarrow> int \<Rightarrow> 's TcpdirectTcpServer \<Rightarrow> bool" where
  "zs_inv cf st s \<longleftrightarrow> zs_stack s = Some st \<and> zs_listener s \<noteq> None
     \<and> distinct (zs_conns_ptr s) \<and> set (zs_conns_ptr s) = {..<nconns cf} \<and> length (zs_conns_data s) = nconns cf
     \<and> unat (zs_conns_cnt s) \<le> nconns cf \<and> (\<forall>c \<in> set (zs_conns_data s). zd_inv cf c)
     \<and> (\<forall>i < unat (zs_conns_cnt s). zd_ready st (zs_conn_at s i))"

lemma zs_inv_slots:
  "zs_inv cf st s \<longleftrightarrow> zs_stack s = Some st \<and> zs_listener s \<noteq> None
     \<and> slots (nconns cf) (unat (zs_conns_cnt s)) (zs_conns_ptr s) (zs_conns_data s) (zd_inv cf) (zd_ready st) (\<lambda>c. True)"
  by (simp add: zs_inv_def slots_def)

text \<open>The callbacks may write; those for a new connection and for the timeout of sending must not close it.\<close>

definition zd_handler_ok :: "('s, 'o) ZdHandler \<Rightarrow> bool" where
  "zd_handler_ok h \<longleftrightarrow> zd_calls_ok h \<and> zd_quiet (\<lambda>w. ()) True (zd_onTcpConnected h) \<and> zd_quiet (\<lambda>w. ()) False (zd_onTcpDisconnect h)"

interpretation zsp: poll_server "zd_conf cf \<and> zd_recv_ok Z \<and> zd_handler_ok h" "nconns cf" "\<lambda>s. unat (zs_conns_cnt s)" zs_conns_ptr zs_conns_data
  "\<lambda>s. (zs_stack s, zs_listener s)" "zd_inv cf" "zd_ready st" "zd_ready st" "\<lambda>c. True" "zd_isConnected Z" "zd_pollConn cf Z h now"
  "zd_onTcpDisconnect h" "\<lambda>p c s. s\<lparr>zs_conns_data := (zs_conns_data s)[p := c]\<rparr>"
  "\<lambda>i c s. s\<lparr>zs_conns_cnt := zs_conns_cnt s - 1, zs_conns_ptr := swap_ptr i (unat (zs_conns_cnt s - 1)) (zs_conns_ptr s),
     zs_conns_data := (zs_conns_data s)[zs_conns_ptr s ! i := c]\<rparr>" "zs_pollLoop cf Z h now" for cf Z h st now
proof (unfold_locales, goal_cases)
  case (9 c w)
  then obtain z where "zock c = Some z" "zd_stack c = Some st" by (auto simp: zd_ready_def)
  then show ?case
    using 9 zd_pollConn_stream [of cf c Z h z st now w] by (fastforce simp: zd_handler_ok_def zd_ready_def zd_isConnected_def split: option.splits)
next
  case (10 c w d w')
  then have "zd_keeps c d" using zd_quietD [of "\<lambda>w. ()" False "zd_onTcpDisconnect h" c w d w'] by (simp add: zd_handler_ok_def)
  then show ?case using 10 zd_keeps_facts(2) [of c d] by auto
next
  case (13 i s p c w c' w')
  then show ?case by (subst zs_pollLoop.simps) (auto simp: arr_get_def split: if_splits)
qed (simp_all add: zs_pollLoop.simps unat_dec)

lemma zs_pollLoop_inv:
  assumes "zd_conf cf" "zd_recv_ok Z" "zd_handler_ok h" "zs_inv cf st s"
  shows "\<exists>s' w'. zs_pollLoop cf Z h now 0 (s, w) = Some (s', w') \<and> zs_inv cf st s'"
  using zsp.loop_slots [of cf Z h s st 0 now w] assms unfolding zs_inv_slots by auto

lemma zs_accept_inv:
  assumes h: "zd_handler_ok h" and inv: "zs_inv cf st s"
  shows "\<exists>s' w'. zs_accept cf Z h now (s, w) = Some (s', w') \<and> zs_inv cf st s'"
proof (cases "zs_conns_cnt s < MaxConns cf")
  case True
  let ?i = "unat (zs_conns_cnt s)"
  have iN: "?i < nconns cf" using True by (simp add: word_less_nat_alt)
  have S: "slots (nconns cf) ?i (zs_conns_ptr s) (zs_conns_data s) (zd_inv cf) (zd_ready st) (\<lambda>c. True)"
    "zs_stack s = Some st" "zs_listener s \<noteq> None" using inv by (simp_all add: zs_inv_slots)
  note P = slots_ptr [OF S(1)]
  obtain l where l: "zs_listener s = Some l" using S(3) by blast
  obtain rc z w1 where a: "zftl_accept Z l (zf_reactor_perform Z st w) = (rc, z, w1)" by (metis prod.exhaust)
  obtain d w2 where d: "zd_onTcpConnected h (zd_open cf now z (Some st) (zs_conn_at s ?i), w1) = (d, w2)" by fastforce
  have k: "zd_keeps (zd_open cf now z (Some st) (zs_conn_at s ?i)) d" "zock d = Some z"
    using zd_quietD [of "\<lambda>w. ()" True "zd_onTcpConnected h", OF _ d] h by (simp_all add: zd_handler_ok_def zd_open_def)
  have "zd_inv cf (zd_open cf now z (Some st) (zs_conn_at s ?i))" using P(4) [OF iN] by (simp add: zd_inv_def zd_open_def)
  then have "zd_inv cf d" "zd_ready st d" using k zd_keeps_facts(2) [OF k(1)] by (simp_all add: zd_ready_def zd_keeps_def zd_open_def)
  then have "slots (nconns cf) (?i + 1) (zs_conns_ptr s) ((zs_conns_data s)[zs_conns_ptr s ! ?i := d]) (zd_inv cf) (zd_ready st) (\<lambda>c. True)"
    using slots_put [OF S(1) iN, of d "?i + 1"] by simp
  then show ?thesis using True inv S l a d P(5,6) [OF iN] unat_inc [OF True] by (simp add: zs_accept_def zs_inv_slots)
next
  case False
  then show ?thesis using inv by (simp add: zs_accept_def)
qed


definition zs_two :: "unit TcpdirectTcpServer" where
  "zs_two = \<lparr>zs_stack = Some 1, zs_listener = Some 1, zs_error = [], zs_conns_cnt = 1, zs_conns_ptr = [1, 0],
     zs_conns_data = [zd_open_conn\<lparr>zock := None\<rparr>, zd_open_conn]\<rparr>"

lemma zs_two_ok: "zs_inv eight_cf 1 zs_two"
proof -
  have n: "nconns eight_cf = 2" by (simp add: eight_cf_def)
  have "zd_inv eight_cf (zd_open_conn\<lparr>zock := None\<rparr>)" using zd_open_conn_ok(2) by (simp add: zd_inv_def)
  then show ?thesis
    using zd_open_conn_ok(2) unfolding zs_inv_def n by (auto simp: zs_two_def zd_ready_def zd_open_conn_def)
qed


end
