(* ===== verification/Spec2Isabelle.thy ===== *)
theory Spec2Isabelle
  imports GrowthLoss TcpStream Handshake SendStream Resolver Reconnect SocketFds CardLedger TcpdirectServer
begin

text \<open>
  Verification of \<^verbatim>\<open>pollnet\<close>, a header-only C++ library of polled network transports. Its core is
  \<^verbatim>\<open>efvitcp\<close>, a TCP stack that runs in user space on top of the \<^verbatim>\<open>ef_vi\<close> interface of a network card;
  beside it there are transports with the same interface on kernel sockets and on other vendor
  libraries, and a sniffer that reassembles TCP streams.

  \<^bold>\<open>The program.\<close> \<^verbatim>\<open>Core.h\<close> holds what the connections of an endpoint share: the hash table from
  peers to connection ids, the pools of ids, the timer wheel, the time-wait records, the send buffers
  and the access to the card. \<^verbatim>\<open>TcpConn.h\<close> is one connection: a ring of send buffers with cached
  checksums, a receive buffer with up to five segments, congestion control, timers. \<^verbatim>\<open>TcpServer.h\<close>
  and \<^verbatim>\<open>TcpClient.h\<close> dispatch packets and timers to their connections and open them; the client also
  resolves the hardware address of its peer. \<^verbatim>\<open>EfviTcp.h\<close> wraps both with the interface of the other
  transports. \<^verbatim>\<open>TcpStream.h\<close> reassembles one direction of a sniffed stream. \<^verbatim>\<open>Socket.h\<close> has the
  transports on kernel sockets, \<^verbatim>\<open>Tcpdirect.h\<close> the TCP transports on the vendor's TCPDirect library, and
  \<^verbatim>\<open>Efvi.h\<close> receivers and a sender for datagrams and raw frames that use the card directly.

  \<^bold>\<open>How it is modelled.\<close> A C++ object is a record, and an operation is a function from the state to an
  option of the new state; \<open>None\<close> is undefined behaviour (an access out of bounds, an overlapping
  \<^verbatim>\<open>memcpy\<close>, a division by zero) or, for the functions defined by \<^theory_text>\<open>partial_function\<close>, a loop that does not
  end, so that a theorem that a result is \<open>Some\<close> says that neither happens. Integers have
  the width of the source (\<open>u8\<close> to \<open>u64\<close>) wherever they can wrap; multi-byte header fields are kept
  in network byte order as in memory. The pointers of the timer wheel are addresses of an explicit
  heap, those of the socket and TCPDirect servers are indices, and the
  pointers to blocks of \<^verbatim>\<open>Efvi.h\<close> a datatype that tells a block from null, \<^verbatim>\<open>MAP_FAILED\<close> and a value never set. The card appears as events that \<^verbatim>\<open>pollNet\<close> receives and as
  the list \<open>wire\<close> of frames sent; the system calls, the routing table, the ARP file, the driver of the
  card in \<^verbatim>\<open>Efvi.h\<close>, the TCPDirect library and the user's callbacks are parameters. What is assumed of them is a named hypothesis of the theorem
  (\<open>reads_ok\<close>, \<open>posix_fds\<close>, \<open>card_sends\<close>, \<open>opens_handle\<close>, \<open>zd_recv_ok\<close>, \<dots>), which its witness instantiates.

  \<^bold>\<open>The theories.\<close>

  \<^item> \<open>Prelude\<close>: word and byte-order lemmas, array access, the named collections \<open>word_nat\<close> and
    \<open>byte_order\<close>.
  \<^item> \<open>Checksum\<close> (\<^verbatim>\<open>CSum\<close> and \<^verbatim>\<open>copyAndSum\<close> of \<^verbatim>\<open>Core.h\<close>): the one's complement accumulator and its
    incremental updates; the unrolled copy-and-sum routine computes the byte-wise sum.
  \<^item> \<open>Config\<close>: the template parameter \<^verbatim>\<open>Conf\<close> and the constants derived from it.
  \<^item> \<open>ConnTable\<close>, \<open>TableGrowth\<close>, \<open>ConnMap\<close>, \<open>GrowthLoss\<close> (the hash table of \<^verbatim>\<open>Core.h\<close>): ordered open
    addressing with an overflow area. Insertion, lookup and deletion implement a finite map from
    peers to ids, stated by the locale \<open>conn_map\<close> and its interpretation \<open>ct\<close>; \<open>TableGrowth\<close> shows that
    growing keeps the map when the overflow area is empty, \<open>GrowthLoss\<close> that it can lose a
    connection otherwise.
  \<^item> \<open>TimerWheel\<close>, \<open>TimerTicks\<close> (the timers of \<^verbatim>\<open>Core.h\<close>): circular lists in a heap of nodes; a timer
    fires on its tick and no other, across wrap-around of the clock.
  \<^item> \<open>Packet\<close>, \<open>Core\<close>, \<open>ResetFrames\<close>: headers and flag bits, send buffers, initialisation, resets and
    time-wait acknowledgements and their checksums.
  \<^item> \<open>TcpConn\<close>, \<open>TcpInput\<close> (\<^verbatim>\<open>TcpConn.h\<close>): sending, acknowledging, closing, timers, and the whole of
    \<^verbatim>\<open>onPack\<close>. \<open>Segments\<close>: the in-place insertion into the array of segments refines insertion into a list
    of disjoint intervals; the locale \<open>reassembly\<close> derives from this that in-order data has no gap, for
    the connection and, with another interpretation, for the sniffer. \<open>ConnLimits\<close>: round-trip times,
    windows, segment sizes and where they overflow. \<open>ConnFrames\<close>: every frame that \<^verbatim>\<open>sendBuf\<close> sends is
    valid when the cached sums cover the buffer, in particular the SYN and the SYN with an
    acknowledgement. \<open>SendQueue\<close>: the ring of buffers is a queue of bytes; \<^verbatim>\<open>send\<close>, \<^verbatim>\<open>sendv\<close> and the sending
    loop of \<^verbatim>\<open>onPack\<close> append to it and send from its head in order, without gaps, within the
    window. \<open>SendStream\<close> states the queue as a locale and follows any sequence of writes,
    acknowledgements, window changes and runs of the sending loop: what leaves is the stream of the
    bytes taken, cut into valid frames with consecutive numbers (retransmissions are outside this
    statement: they repeat frames). \<open>Established\<close>, \<open>Handshake\<close>: the handshake of a server ends in a
    state where this holds.
  \<^item> \<open>TcpServer\<close>, \<open>TcpClient\<close>, \<open>EfviTcp\<close>, \<open>Resolver\<close>, \<open>Reconnect\<close>: the dispatch of packets, the
    outcome of \<^verbatim>\<open>connect\<close>, reading the hardware address from the routing and ARP text, and the spacing of
    attempts to connect.
  \<^item> \<open>TcpStream\<close> (\<^verbatim>\<open>TcpStream.h\<close>): what the handler of the sniffer consumes is a prefix of the
    stream whatever the order and overlap of the packets.
  \<^item> \<open>Socket\<close>, \<open>SocketStream\<close>, \<open>SocketFds\<close> (\<^verbatim>\<open>Socket.h\<close>): the receive buffer of a connection, writes,
    the array of connections of the server, and the accounting of descriptors. The locale \<open>write_loop\<close>
    states the contract of a loop that writes until all is taken, the locale \<open>poll_server\<close> of \<open>Slots\<close> the one
    of the loop that polls an array of connections; sockets and TCPDirect interpret both.
  \<^item> \<open>Tcpdirect\<close>, \<open>TcpdirectStream\<close>, \<open>TcpdirectServer\<close> (\<^verbatim>\<open>Tcpdirect.h\<close>): the connection, client and server. The stream that
    reaches the handler is the one the library hands out, \<^verbatim>\<open>write\<close> returns and writes everything or a
    prefix, \<^verbatim>\<open>connect\<close> loses the connection that it replaces, and the server's array stays well-formed.
  \<^item> \<open>Efvi\<close>, \<open>EfviSender\<close>, \<open>UdpFrames\<close>, \<open>CardLedger\<close> (\<^verbatim>\<open>Efvi.h\<close>): the receivers of datagrams and frames
    and the sender of datagrams. \<open>UdpFrames\<close> follows a datagram from \<^verbatim>\<open>write\<close> to the handler of a receiver
    and says when its IP checksum is right; \<open>CardLedger\<close> accounts for handles, blocks and descriptors over
    \<^verbatim>\<open>init\<close> and \<^verbatim>\<open>close\<close>, on every path of failure.

  \<^bold>\<open>Bounds.\<close> Fuel is not used. Loops are structural recursions, have a termination measure, or are partial
  functions with a theorem that they return. Quantities that the source bounds by its configuration are
  hypotheses: the table sizes (\<open>conf_ok\<close>), a ring of at least two buffers whose number divides the
  range of the index (\<open>ring_ok\<close>), segment sizes from 1 to 1460 (\<open>queue_inv\<close>), a buffer of an even size
  (\<open>sk_conf\<close>, \<open>zd_conf\<close>; the copy overlaps otherwise), a datagram of at most 1998 bytes (a buffer of the
  card has 2048, with 50 of them for the address and the headers). The cached sums stay below $2^{22}$ and a segment's sum below
  $2^{28}$, so that the 32-bit accumulator does not wrap.

  \<^bold>\<open>Not modelled.\<close> The programs under \<^verbatim>\<open>example\<close>, which print, measure and loop on the library and
  have no state to keep; the debug code under \<^verbatim>\<open>EFVITCP_DEBUG\<close>; queries of the system that change
  nothing (\<^verbatim>\<open>getPeername\<close> of the socket and TCPDirect connections); the layout of the shared memory behind the
  allocations. Times of the socket and TCPDirect transports are unbounded integers.
\<close>

end
